(* ===== verification/Prelude.thy ===== *)
theory Prelude
  imports Main "HOL-Library.Word"
begin

unbundle bit_operations_syntax

text \<open>
  Shared vocabulary of the development.

  \<^item> Machine integers keep their width: a Go \<open>byte\<close> is an \<open>8 word\<close>, \<open>uint16\<close>, \<open>uint32\<close> and
    \<open>uint64\<close> are words of their width, and \<open>int64\<close> is a \<open>64 word\<close> read in two's
    complement by \<open>sint\<close>.
  \<^item> A Go \<open>string\<close> is a sequence of bytes: the HOL type \<open>string\<close>, whose characters are
    8-bit. \<open>bytes_of_string\<close> and \<open>string_of_bytes\<close> are Go's conversions.
  \<^item> A call that may fail returns an \<open>'a res\<close>: \<open>Inl Panic\<close> for a run-time panic (an index or
    slice expression out of range), \<open>Inl (Errorf fmt args)\<close> for a returned error with its format
    string and arguments, \<open>Inl (Wrapf fmt args e)\<close> for an error that wraps \<open>e\<close> with
    \<^verbatim>\<open>%w\<close>, and \<open>Inr v\<close> for the value.
\<close>

section \<open>Types\<close>

type_synonym byte = "8 word"
type_synonym bytes = "byte list"
type_synonym u16 = "16 word"
type_synonym u32 = "32 word"
type_synonym u64 = "64 word"
type_synonym int64 = "64 word"

datatype fmtarg = D int | Q string

datatype err = Panic | Errorf string "fmtarg list" | Wrapf string "fmtarg list" err

type_synonym 'a res = "err + 'a"

named_theorems no_panic \<open>operations that never panic\<close>
named_theorems codec \<open>reading back what was written\<close>

section \<open>Results\<close>

fun rbind :: "'a res \<Rightarrow> ('a \<Rightarrow> 'b res) \<Rightarrow> 'b res" where
  "rbind (Inl e) f = Inl e"
| "rbind (Inr a) f = f a"

fun wrapf :: "string \<Rightarrow> fmtarg list \<Rightarrow> 'a res \<Rightarrow> 'a res" where
  "wrapf m as (Inl Panic) = Inl Panic"
| "wrapf m as (Inl e) = Inl (Wrapf m as e)"
| "wrapf m as (Inr a) = Inr a"

fun is_ok :: "'a res \<Rightarrow> bool" where
  "is_ok (Inl e) = False"
| "is_ok (Inr a) = True"

lemma rbind_Inr_iff [simp]: "rbind r f = Inr b \<longleftrightarrow> (\<exists>a. r = Inr a \<and> f a = Inr b)"
  by (cases r) auto

lemma rbind_Panic_iff: "rbind r f = Inl Panic \<longleftrightarrow> r = Inl Panic \<or> (\<exists>a. r = Inr a \<and> f a = Inl Panic)"
  by (cases r) auto

lemma rbind_no_panic:
  assumes "r \<noteq> Inl Panic" and "\<And>a. r = Inr a \<Longrightarrow> f a \<noteq> Inl Panic"
  shows "rbind r f \<noteq> Inl Panic"
  using assms by (auto simp: rbind_Panic_iff)

lemma rbind_assoc: "rbind (rbind r f) g = rbind r (\<lambda>a. rbind (f a) g)"
  by (cases r) auto

lemma wrapf_Inr_iff [simp]: "wrapf m as r = Inr a \<longleftrightarrow> r = Inr a"
  by (induction m as r rule: wrapf.induct) auto

lemma wrapf_Panic_iff [simp]: "wrapf m as r = Inl Panic \<longleftrightarrow> r = Inl Panic"
  by (induction m as r rule: wrapf.induct) auto

lemma is_ok_iff: "is_ok r \<longleftrightarrow> (\<exists>a. r = Inr a)"
  by (cases r) auto

section \<open>Slices\<close>

text \<open>
  Index and slice expressions of Go, on the visible part of a slice: an access past its
  length is a panic.
\<close>

definition go_index :: "'a list \<Rightarrow> nat \<Rightarrow> 'a res" where
  "go_index xs i = (if i < length xs then Inr (xs ! i) else Inl Panic)"

definition go_slice :: "'a list \<Rightarrow> nat \<Rightarrow> nat \<Rightarrow> 'a list res" where
  "go_slice xs a b = (if a \<le> b \<and> b \<le> length xs then Inr (take (b - a) (drop a xs)) else Inl Panic)"

definition go_from :: "'a list \<Rightarrow> nat \<Rightarrow> 'a list res" where
  "go_from xs a = (if a \<le> length xs then Inr (drop a xs) else Inl Panic)"

lemma go_index_ok [simp]: "i < length xs \<Longrightarrow> go_index xs i = Inr (xs ! i)"
  by (simp add: go_index_def)

lemma go_slice_ok [simp]:
  "a \<le> b \<Longrightarrow> b \<le> length xs \<Longrightarrow> go_slice xs a b = Inr (take (b - a) (drop a xs))"
  by (simp add: go_slice_def)

lemma go_from_ok [simp]: "a \<le> length xs \<Longrightarrow> go_from xs a = Inr (drop a xs)"
  by (simp add: go_from_def)

section \<open>Strings and bytes\<close>

definition byte_of_char :: "char \<Rightarrow> byte" where
  "byte_of_char c = of_nat (of_char c)"

definition char_of_byte :: "byte \<Rightarrow> char" where
  "char_of_byte b = char_of (unat b)"

definition bytes_of_string :: "string \<Rightarrow> bytes" where
  "bytes_of_string = map byte_of_char"

definition string_of_bytes :: "bytes \<Rightarrow> string" where
  "string_of_bytes = map char_of_byte"

lemma char_of_byte_of_char [simp]: "char_of_byte (byte_of_char c) = c"
proof -
  have "(of_char c :: nat) < 256" by (rule nat_of_char_less_256)
  then show ?thesis
    by (simp add: char_of_byte_def byte_of_char_def unat_of_nat)
qed

lemma byte_of_char_of_byte [simp]: "byte_of_char (char_of_byte b) = b"
proof -
  have "unat b < 256" by (rule unsigned_less [of b, simplified])
  then have "of_char (char_of (unat b)) = unat b" by simp
  then show ?thesis by (simp add: char_of_byte_def byte_of_char_def)
qed

lemma string_of_bytes_of_string [simp]: "string_of_bytes (bytes_of_string s) = s"
  by (simp add: bytes_of_string_def string_of_bytes_def comp_def)

lemma bytes_of_string_of_bytes [simp]: "bytes_of_string (string_of_bytes b) = b"
  by (simp add: bytes_of_string_def string_of_bytes_def comp_def)

lemma length_bytes_of_string [simp]: "length (bytes_of_string s) = length s"
  by (simp add: bytes_of_string_def)

lemma length_string_of_bytes [simp]: "length (string_of_bytes b) = length b"
  by (simp add: string_of_bytes_def)

lemma bytes_of_string_Nil_iff [simp]: "bytes_of_string s = [] \<longleftrightarrow> s = []"
  by (simp add: bytes_of_string_def)

section \<open>Lists\<close>

lemma take_drop_mid [simp]: "take (length m) (drop (length p) (p @ m @ q)) = m"
  by simp

lemma nth_append_mid [simp]: "i < length m \<Longrightarrow> (p @ m @ q) ! (length p + i) = m ! i"
  by (simp add: nth_append)

section \<open>Words\<close>

lemma bit_word_drop_bit: "bit (drop_bit m w) n \<longleftrightarrow> bit (w :: 'a::len word) (m + n)"
  by (simp add: bit_simps)

lemma word_take_or_drop: "take_bit m w OR push_bit m (drop_bit m w) = (w :: 'a::len word)"
proof (rule bit_word_eqI)
  fix n assume "n < LENGTH('a)"
  then show "bit (take_bit m w OR push_bit m (drop_bit m w)) n = bit w n"
    by (cases "n < m") (auto simp: bit_simps)
qed

lemma unat_of_nat_small: "n < 2 ^ LENGTH('a) \<Longrightarrow> unat (of_nat n :: 'a::len word) = n"
  by (simp add: unat_of_nat)

lemma unat_less_pow: "unat (w :: 'a::len word) < 2 ^ LENGTH('a)"
  by simp

end
