(* ===== verification/Tokenizer.thy ===== *)
theory Tokenizer
  imports Prelude
begin

text \<open>
  The tokenizer of the inverted index, \<open>internal/logstore/index/tokenizer.go\<close>. Strings are bytes,
  so splitting by rune needs the UTF-8 decoding of the standard library, written out here: a byte
  that does not start a well-formed sequence is the rune \<open>U+FFFD\<close> of width 1. The Unicode tables
  are a parameter: the record \<open>unicode\<close> holds \<open>strings.ToLower\<close>, the two rune classes and the next rune of
  a case-folding orbit.
\<close>

record unicode =
  ToLower :: "string \<Rightarrow> string"
  IsLetter :: "nat \<Rightarrow> bool"
  IsDigit :: "nat \<Rightarrow> bool"
  SimpleFold :: "nat \<Rightarrow> nat"

section \<open>UTF-8\<close>

definition RuneError :: nat where "RuneError = 0xFFFD"

definition cont :: "nat \<Rightarrow> bool" where
  "cont b \<longleftrightarrow> 0x80 \<le> b \<and> b \<le> 0xBF"

text \<open>\<open>utf8.DecodeRuneInString\<close> on a non-empty string: the rune and its width.\<close>

fun decode_rune :: "nat list \<Rightarrow> nat \<times> nat" where
  "decode_rune [] = (RuneError, 0)"
| "decode_rune (b0 # bs) =
     (if b0 < 0x80 then (b0, 1)
      else if 0xC2 \<le> b0 \<and> b0 \<le> 0xDF then
        (case bs of b1 # _ \<Rightarrow> if cont b1 then ((b0 - 0xC0) * 64 + (b1 - 0x80), 2) else (RuneError, 1)
                  | [] \<Rightarrow> (RuneError, 1))
      else if 0xE0 \<le> b0 \<and> b0 \<le> 0xEF then
        (case bs of b1 # b2 # _ \<Rightarrow>
           if cont b1 \<and> cont b2 \<and> (b0 = 0xE0 \<longrightarrow> 0xA0 \<le> b1) \<and> (b0 = 0xED \<longrightarrow> b1 \<le> 0x9F)
           then ((b0 - 0xE0) * 4096 + (b1 - 0x80) * 64 + (b2 - 0x80), 3) else (RuneError, 1)
         | _ \<Rightarrow> (RuneError, 1))
      else if 0xF0 \<le> b0 \<and> b0 \<le> 0xF4 then
        (case bs of b1 # b2 # b3 # _ \<Rightarrow>
           if cont b1 \<and> cont b2 \<and> cont b3 \<and> (b0 = 0xF0 \<longrightarrow> 0x90 \<le> b1) \<and> (b0 = 0xF4 \<longrightarrow> b1 \<le> 0x8F)
           then ((b0 - 0xF0) * 262144 + (b1 - 0x80) * 4096 + (b2 - 0x80) * 64 + (b3 - 0x80), 4) else (RuneError, 1)
         | _ \<Rightarrow> (RuneError, 1))
      else (RuneError, 1))"

lemma decode_rune_width: "s \<noteq> [] \<Longrightarrow> 1 \<le> snd (decode_rune s) \<and> snd (decode_rune s) \<le> length s"
  by (cases s) (auto split: list.splits)

definition rune_at :: "string \<Rightarrow> nat \<times> nat" where
  "rune_at s = decode_rune (map of_char s)"

lemma rune_at_width: "s \<noteq> [] \<Longrightarrow> 1 \<le> snd (rune_at s) \<and> snd (rune_at s) \<le> length s"
  using decode_rune_width [of "map of_char s"] by (simp add: rune_at_def)

section \<open>Splitting\<close>

text \<open>\<open>strings.FieldsFunc\<close>: the maximal runs of runes that are not separators; \<open>cur\<close> is the run so far.\<close>

function fields_loop :: "(nat \<Rightarrow> bool) \<Rightarrow> string \<Rightarrow> string \<Rightarrow> string list" where
  "fields_loop sep cur s =
     (if s = [] then (if cur = [] then [] else [cur])
      else let (r, w) = rune_at s
           in if sep r then (if cur = [] then fields_loop sep [] (drop w s) else cur # fields_loop sep [] (drop w s))
              else fields_loop sep (cur @ take w s) (drop w s))"
  by pat_completeness auto
termination
proof (relation "measure (\<lambda>(sep, cur, s). length s)", simp)
  fix s :: string and x r w
  assume a: "s \<noteq> []" "x = rune_at s" "(r, w) = x"
  then have "1 \<le> w" using rune_at_width [of s] by (metis snd_conv)
  then have lt: "length (drop w s) < length s" using a(1) by (cases s) auto
  fix sep :: "nat \<Rightarrow> bool" and cur :: string
  from lt show "((sep, [], drop w s), (sep, cur, s)) \<in> measure (\<lambda>(sep, cur, s). length s)" by simp
  from lt show "((sep, [], drop w s), (sep, cur, s)) \<in> measure (\<lambda>(sep, cur, s). length s)" by simp
  from lt show "((sep, cur @ take w s, drop w s), (sep, cur, s)) \<in> measure (\<lambda>(sep, cur, s). length s)" by simp
qed

declare fields_loop.simps [simp del]

definition FieldsFunc :: "(nat \<Rightarrow> bool) \<Rightarrow> string \<Rightarrow> string list" where
  "FieldsFunc sep s = fields_loop sep [] s"

definition Tokenize :: "unicode \<Rightarrow> string \<Rightarrow> string list" where
  "Tokenize U s =
     (let s = ToLower U s;
          tokens = FieldsFunc (\<lambda>r. \<not> IsLetter U r \<and> \<not> IsDigit U r \<and> r \<noteq> of_char CHR ''_'' \<and> r \<noteq> of_char CHR ''-'') s
      in filter (\<lambda>t. length t \<ge> 2) tokens)"

fun unique_loop :: "string list \<Rightarrow> string set \<Rightarrow> string list" where
  "unique_loop [] seen = []"
| "unique_loop (t # ts) seen = (if t \<notin> seen then t # unique_loop ts (insert t seen) else unique_loop ts seen)"

definition TokenizeUnique :: "unicode \<Rightarrow> string \<Rightarrow> string list" where
  "TokenizeUnique U s = unique_loop (Tokenize U s) {}"

section \<open>Lemmas\<close>

lemma unique_loop_spec: "set (unique_loop ts seen) = set ts - seen \<and> distinct (unique_loop ts seen)"
  by (induction ts arbitrary: seen) auto

lemma set_TokenizeUnique: "set (TokenizeUnique U s) = set (Tokenize U s)"
  using unique_loop_spec [of "Tokenize U s" "{}"] by (simp add: TokenizeUnique_def)

lemma distinct_TokenizeUnique: "distinct (TokenizeUnique U s)"
  using unique_loop_spec [of "Tokenize U s" "{}"] by (simp add: TokenizeUnique_def)

lemma token_length: "t \<in> set (Tokenize U s) \<Longrightarrow> 2 \<le> length t"
  by (simp add: Tokenize_def Let_def)

section \<open>Tables\<close>

text \<open>The tables on ASCII: a concrete value of the parameter.\<close>

definition ascii_unicode :: unicode where
  "ascii_unicode = \<lparr>
     ToLower = map (\<lambda>c. let n = of_char c in if 65 \<le> n \<and> n \<le> 90 then char_of (n + 32 :: nat) else c),
     IsLetter = (\<lambda>r. (65 \<le> r \<and> r \<le> 90) \<or> (97 \<le> r \<and> r \<le> 122)),
     IsDigit = (\<lambda>r. 48 \<le> r \<and> r \<le> 57),
     SimpleFold = (\<lambda>r. if 65 \<le> r \<and> r \<le> 90 then r + 32 else if 97 \<le> r \<and> r \<le> 122 then r - 32 else r)\<rparr>"

lemma fields_loop_ascii:
  assumes "list_all (\<lambda>c. of_char c < (0x80 :: nat) \<and> \<not> sep (of_char c)) s"
  shows "fields_loop sep cur s = (if cur @ s = [] then [] else [cur @ s])"
  using assms
proof (induction s arbitrary: cur)
  case Nil
  show ?case by (subst fields_loop.simps) simp
next
  case (Cons c s)
  then have "rune_at (c # s) = (of_char c, 1)" by (simp add: rune_at_def)
  with Cons show ?case by (subst fields_loop.simps) simp
qed

lemma tokenize_one_word:
  assumes "ToLower U s = s" "2 \<le> length s" "list_all (\<lambda>c. of_char c < (0x80 :: nat) \<and> IsLetter U (of_char c)) s"
  shows "TokenizeUnique U s = [s]"
proof -
  let ?sep = "\<lambda>r. \<not> IsLetter U r \<and> \<not> IsDigit U r \<and> r \<noteq> of_char CHR ''_'' \<and> r \<noteq> of_char CHR ''-''"
  have "FieldsFunc ?sep s = [s]"
    using assms(2,3) unfolding FieldsFunc_def by (subst fields_loop_ascii) (auto simp: list_all_iff)
  then show ?thesis using assms(1,2) by (simp add: TokenizeUnique_def Tokenize_def)
qed

end
