(* ===== verification/Go_Binary.thy ===== *)
theory Go_Binary
  imports Prelude
begin

text \<open>
  The part of Go's standard package \<open>encoding/binary\<close> that the log store uses: little-endian
  integers and varints (\<open>PutUvarint\<close>, \<open>Uvarint\<close>, \<open>PutVarint\<close>, \<open>Varint\<close>), with
  the round trip of each. The locale \<open>offset_codec\<close> is the interface every byte format of the
  store shares: a writer, a reader that takes the data and an offset, and the law that the
  reader returns the value and the offset just past it.
\<close>

section \<open>Little-endian integers\<close>

primrec le_bytes :: "nat \<Rightarrow> 'a::len word \<Rightarrow> bytes" where
  "le_bytes 0 w = []"
| "le_bytes (Suc n) w = ucast w # le_bytes n (drop_bit 8 w)"

primrec le_word :: "bytes \<Rightarrow> 'a::len word" where
  "le_word [] = 0"
| "le_word (b # bs) = ucast b OR push_bit 8 (le_word bs)"

definition put_u16 :: "u16 \<Rightarrow> bytes" where "put_u16 = le_bytes 2"
definition put_u32 :: "u32 \<Rightarrow> bytes" where "put_u32 = le_bytes 4"
definition put_u64 :: "u64 \<Rightarrow> bytes" where "put_u64 = le_bytes 8"

text \<open>\<open>binary.LittleEndian.UintN(b)\<close> indexes the last byte it needs first: a short slice panics.\<close>

definition get_u16 :: "bytes \<Rightarrow> u16 res" where
  "get_u16 b = (if 2 \<le> length b then Inr (le_word (take 2 b)) else Inl Panic)"

definition get_u32 :: "bytes \<Rightarrow> u32 res" where
  "get_u32 b = (if 4 \<le> length b then Inr (le_word (take 4 b)) else Inl Panic)"

definition get_u64 :: "bytes \<Rightarrow> u64 res" where
  "get_u64 b = (if 8 \<le> length b then Inr (le_word (take 8 b)) else Inl Panic)"

lemma length_le_bytes [simp]: "length (le_bytes n w) = n"
  by (induction n arbitrary: w) auto

lemma length_put [simp]:
  "length (put_u16 v) = 2" "length (put_u32 w) = 4" "length (put_u64 x) = 8"
  by (simp_all add: put_u16_def put_u32_def put_u64_def)

lemma le_word_le_bytes: "le_word (le_bytes n w) = take_bit (8 * n) (w :: 'a::len word)"
proof (induction n arbitrary: w)
  case 0
  show ?case by simp
next
  case (Suc n)
  have "ucast (ucast w :: byte) = take_bit 8 w"
    by (rule bit_word_eqI) (auto simp: bit_simps)
  then have "le_word (le_bytes (Suc n) w) = take_bit 8 w OR push_bit 8 (take_bit (8 * n) (drop_bit 8 w))"
    using Suc by simp
  also have "\<dots> = take_bit (8 * Suc n) w"
    by (rule bit_word_eqI) (auto simp: bit_simps)
  finally show ?case .
qed

lemma get_put_u16 [simp]: "get_u16 (put_u16 v @ q) = Inr v"
  by (simp add: get_u16_def put_u16_def le_word_le_bytes take_bit_word_eq_self)

lemma get_put_u32 [simp]: "get_u32 (put_u32 v @ q) = Inr v"
  by (simp add: get_u32_def put_u32_def le_word_le_bytes take_bit_word_eq_self)

lemma get_put_u64 [simp]: "get_u64 (put_u64 v @ q) = Inr v"
  by (simp add: get_u64_def put_u64_def le_word_le_bytes take_bit_word_eq_self)

lemmas get_put_exact [simp] = get_put_u16 [where q = "[]", simplified] get_put_u32 [where q = "[]", simplified]
  get_put_u64 [where q = "[]", simplified]

lemma get_u16_no_panic [no_panic]: "2 \<le> length b \<Longrightarrow> \<exists>v. get_u16 b = Inr v"
  by (simp add: get_u16_def)

lemma get_u32_no_panic [no_panic]: "4 \<le> length b \<Longrightarrow> \<exists>v. get_u32 b = Inr v"
  by (simp add: get_u32_def)

lemma get_u64_no_panic [no_panic]: "8 \<le> length b \<Longrightarrow> \<exists>v. get_u64 b = Inr v"
  by (simp add: get_u64_def)

section \<open>Varints\<close>

function put_uvarint :: "u64 \<Rightarrow> bytes" where
  "put_uvarint x =
     (if 0x80 \<le> x then (ucast x OR 0x80) # put_uvarint (drop_bit 7 x) else [ucast x])"
  by pat_completeness auto
termination
proof (relation "measure unat", simp)
  fix x :: u64
  assume "0x80 \<le> x"
  then have "128 \<le> unat x" by (simp add: word_le_nat_alt)
  then have "unat x div 2 ^ 7 < unat x" by simp
  then show "(drop_bit 7 x, x) \<in> measure unat"
    by (simp add: drop_bit_eq_div unat_div_distrib)
qed

declare put_uvarint.simps [simp del]

fun uvarint_loop :: "nat \<Rightarrow> nat \<Rightarrow> u64 \<Rightarrow> bytes \<Rightarrow> u64 \<times> int" where
  "uvarint_loop i s x [] = (0, 0)"
| "uvarint_loop i s x (b # bs) =
     (if i = 10 then (0, - (int i + 1))
      else if b < 0x80 then
        (if i = 9 \<and> 1 < b then (0, - (int i + 1))
         else (x OR push_bit s (ucast b), int i + 1))
      else uvarint_loop (i + 1) (s + 7) (x OR push_bit s (ucast (b AND 0x7f))) bs)"

definition uvarint :: "bytes \<Rightarrow> u64 \<times> int" where
  "uvarint b = uvarint_loop 0 0 0 b"

definition put_varint :: "int64 \<Rightarrow> bytes" where
  "put_varint x = (let ux = push_bit 1 x in put_uvarint (if x <s 0 then NOT ux else ux))"

definition varint :: "bytes \<Rightarrow> int64 \<times> int" where
  "varint b = (let (ux, n) = uvarint b; x = drop_bit 1 ux
               in (if ux AND 1 \<noteq> 0 then NOT x else x, n))"

lemma put_uvarint_nonempty [simp]: "put_uvarint v \<noteq> []"
  by (subst put_uvarint.simps) simp

lemma unat_drop_bit_7: "unat (drop_bit 7 (v :: u64)) = unat v div 128"
  by (simp add: drop_bit_eq_div unat_div_distrib)

lemma length_put_uvarint_bound: "unat v < 2 ^ (7 * Suc n) \<Longrightarrow> length (put_uvarint v) \<le> Suc n"
proof (induction n arbitrary: v)
  case 0
  then have "\<not> 0x80 \<le> v" by (simp add: word_le_nat_alt)
  then show ?case by (subst put_uvarint.simps) simp
next
  case (Suc n)
  have "unat v div 128 < 2 ^ (7 * Suc n)"
    using Suc.prems by (simp add: less_mult_imp_div_less power_add mult.commute)
  then have "length (put_uvarint (drop_bit 7 v)) \<le> Suc n"
    by (intro Suc.IH) (simp add: unat_drop_bit_7)
  then show ?case by (subst put_uvarint.simps) simp
qed

lemma length_put_uvarint_le: "length (put_uvarint v) \<le> 10"
  using length_put_uvarint_bound [of v 9] unat_less_pow [of v] by simp

lemma byte_low7: "(b OR 0x80) AND 0x7f = take_bit 7 (b :: byte)"
proof -
  have "(b OR 0x80) AND 0x7f = (b AND 0x7f) OR (0x80 AND 0x7f)"
    by (simp only: bit.conj_disj_distrib2)
  also have "\<dots> = b AND 0x7f" by simp
  also have "\<dots> = b AND mask 7" by (simp add: mask_eq_exp_minus_1)
  finally show ?thesis by (simp only: take_bit_eq_mask)
qed

text \<open>
  Reading back what \<open>put_uvarint\<close> wrote. The loop has read \<open>i\<close> bytes into \<open>x\<close> and the
  remaining value \<open>v\<close> fits in the \<open>64 - 7 i\<close> bits that are left, so neither overflow check
  fires.
\<close>

lemma uvarint_loop_put:
  "unat v < 2 ^ (64 - 7 * i) \<Longrightarrow> i \<le> 9 \<Longrightarrow>
   uvarint_loop i (7 * i) x (put_uvarint v @ q) =
     (x OR push_bit (7 * i) v, int i + int (length (put_uvarint v)))"
proof (induction v arbitrary: i x rule: put_uvarint.induct)
  case (1 v)
  show ?case
  proof (cases "0x80 \<le> v")
    case True
    have big: "128 \<le> unat v" using True by (simp add: word_le_nat_alt)
    have i8: "i < 9"
    proof (rule ccontr)
      assume "\<not> i < 9"
      then have "i = 9" using "1.prems" by simp
      then show False using "1.prems" big by simp
    qed
    have fits: "unat (drop_bit 7 v) < 2 ^ (64 - 7 * Suc i)"
    proof -
      have "64 - 7 * i = 7 + (64 - 7 * Suc i)" using i8 by simp
      then have "(2::nat) ^ (64 - 7 * i) = 128 * 2 ^ (64 - 7 * Suc i)"
        by (simp only: power_add) simp
      then have "unat v < 128 * 2 ^ (64 - 7 * Suc i)" using "1.prems"(1) by simp
      then show ?thesis by (simp add: unat_drop_bit_7 less_mult_imp_div_less mult.commute)
    qed
    have hd_ge: "\<not> (ucast v OR 0x80 :: byte) < 0x80"
      by (simp add: not_less le_word_or1)
    have low: "ucast ((ucast v OR 0x80) AND 0x7f :: byte) = take_bit 7 v"
      unfolding byte_low7 by (rule bit_word_eqI) (auto simp: bit_simps)
    have acc: "(x OR push_bit (7 * i) (take_bit 7 v)) OR push_bit (7 * i + 7) (drop_bit 7 v)
                 = x OR push_bit (7 * i) v"
    proof -
      have "push_bit (7 * i + 7) (drop_bit 7 v) = push_bit (7 * i) (push_bit 7 (drop_bit 7 v))"
        by (simp add: push_bit_push_bit add.commute)
      then have "(x OR push_bit (7 * i) (take_bit 7 v)) OR push_bit (7 * i + 7) (drop_bit 7 v)
                   = x OR push_bit (7 * i) (take_bit 7 v OR push_bit 7 (drop_bit 7 v))"
        by (simp only: or.assoc push_bit_or)
      then show ?thesis by (simp only: word_take_or_drop)
    qed
    have "uvarint_loop i (7 * i) x (put_uvarint v @ q)
            = uvarint_loop (Suc i) (7 * Suc i) (x OR push_bit (7 * i) (take_bit 7 v))
                (put_uvarint (drop_bit 7 v) @ q)"
      using True hd_ge i8 low by (subst put_uvarint.simps) (simp add: add.commute)
    also have "\<dots> = ((x OR push_bit (7 * i) (take_bit 7 v)) OR push_bit (7 * Suc i) (drop_bit 7 v),
                     int (Suc i) + int (length (put_uvarint (drop_bit 7 v))))"
      using "1.IH" [OF True fits] i8 by simp
    also have "\<dots> = (x OR push_bit (7 * i) v, int i + int (length (put_uvarint v)))"
      using True acc by (subst (2) put_uvarint.simps) (simp add: add.commute)
    finally show ?thesis .
  next
    case False
    then have small: "unat v < 128" by (simp add: word_le_nat_alt)
    then have b: "unat (ucast v :: byte) = unat v"
      by (simp add: unsigned_ucast_eq take_bit_nat_eq_self)
    then have "(ucast v :: byte) < 0x80" using small by (simp add: word_less_nat_alt)
    moreover have "\<not> (i = 9 \<and> 1 < (ucast v :: byte))"
      using "1.prems" b by (auto simp: word_less_nat_alt)
    moreover have "(ucast (ucast v :: byte) :: u64) = v"
      using b small by (simp add: word_unat_eq_iff unsigned_ucast_eq unsigned_take_bit_eq take_bit_nat_eq_self)
    ultimately show ?thesis using False "1.prems"(2)
      by (subst (1 2) put_uvarint.simps) auto
  qed
qed

lemma uvarint_put [simp]: "uvarint (put_uvarint v @ q) = (v, int (length (put_uvarint v)))"
  using uvarint_loop_put [of v 0 0 q] unat_less_pow [of v] by (simp add: uvarint_def)

lemma uvarint_loop_consumed:
  "uvarint_loop i s x b = (v, n) \<Longrightarrow> 0 < n \<Longrightarrow> int i < n \<and> n \<le> int (i + length b)"
proof (induction i s x b arbitrary: v n rule: uvarint_loop.induct)
  case (1 i s x)
  then show ?case by simp
next
  case (2 i s x b bs)
  show ?case
  proof (cases "i \<noteq> 10 \<and> \<not> b < 0x80")
    case True
    with "2.prems" have "uvarint_loop (i + 1) (s + 7) (x OR push_bit s (ucast (b AND 0x7f))) bs = (v, n)"
      by simp
    then have "int (i + 1) < n \<and> n \<le> int (i + 1 + length bs)"
      using "2.IH" True "2.prems"(2) by blast
    then show ?thesis by simp
  next
    case False
    with "2.prems" show ?thesis by (auto split: if_splits)
  qed
qed

lemma uvarint_consumed: "uvarint b = (v, n) \<Longrightarrow> 0 < n \<Longrightarrow> n \<le> int (length b)"
  using uvarint_loop_consumed [of 0 0 0 b v n] by (simp add: uvarint_def)

lemma sless_zero_iff_bit: "(x :: int64) <s 0 \<longleftrightarrow> bit x 63"
  using bit_last_iff [of x] by (simp add: word_sless_alt)

lemma odd_iff_and_one: "(w :: u64) AND 1 \<noteq> 0 \<longleftrightarrow> bit w 0"
  by (metis and_one_eq bit_0 even_iff_mod_2_eq_zero)

lemma bit_shl1: "bit (push_bit 1 (v :: u64)) n \<longleftrightarrow> 1 \<le> n \<and> n < 64 \<and> bit v (n - 1)"
  by (subst bit_push_bit_iff) auto

lemma bit_shr1: "bit (drop_bit 1 (v :: u64)) n \<longleftrightarrow> bit v (Suc n)"
  by (subst bit_drop_bit_eq) simp

lemma bit_not_u64: "bit (NOT (w :: u64)) n \<longleftrightarrow> n < 64 \<and> \<not> bit w n"
  by (simp add: bit_not_iff)

lemma varint_put [simp]: "varint (put_varint v @ q) = (v, int (length (put_varint v)))"
proof (cases "v <s 0")
  case True
  have b: "bit v 63" using True by (simp only: sless_zero_iff_bit)
  have id: "NOT (drop_bit 1 (NOT (push_bit 1 v))) = v"
  proof (rule bit_word_eqI)
    fix n assume n: "n < LENGTH(64)"
    then have "bit (NOT (drop_bit 1 (NOT (push_bit 1 v)))) n
                 \<longleftrightarrow> \<not> (Suc n < 64 \<and> \<not> bit (push_bit 1 v) (Suc n))"
      by (simp only: bit_not_u64 bit_shr1) simp
    also have "\<dots> \<longleftrightarrow> bit v n"
      using n b by (cases "n = 63") (auto simp only: bit_shl1, auto)
    finally show "bit (NOT (drop_bit 1 (NOT (push_bit 1 v)))) n = bit v n" .
  qed
  have odd: "NOT (push_bit 1 v) AND 1 \<noteq> 0"
    by (simp only: odd_iff_and_one bit_not_u64 bit_shl1) simp
  show ?thesis
    using True odd id
    by (simp only: varint_def put_varint_def Let_def uvarint_put split if_True not_False_eq_True)
next
  case False
  have b: "\<not> bit v 63" using False by (simp only: sless_zero_iff_bit not_False_eq_True)
  have id: "drop_bit 1 (push_bit 1 v) = v"
  proof (rule bit_word_eqI)
    fix n assume n: "n < LENGTH(64)"
    then show "bit (drop_bit 1 (push_bit 1 v)) n = bit v n"
      using b by (cases "n = 63") (auto simp only: bit_shr1 bit_shl1, auto)
  qed
  have even: "\<not> push_bit 1 v AND 1 \<noteq> 0"
    by (simp only: odd_iff_and_one bit_shl1) simp
  show ?thesis
    using False even id
    by (simp only: varint_def put_varint_def Let_def uvarint_put split if_False)
qed

section \<open>Codecs at an offset\<close>

text \<open>
  The interface of a byte format: \<open>enc\<close> appends a value, \<open>dec\<close> reads it at an offset of
  the data and returns it with the offset of the next byte. Whatever surrounds the value, a
  valid one is read back and the reader stops exactly behind it.
\<close>

text \<open>The loop \<^verbatim>\<open>for i := range n { v, off, err = read(data, off); ... }\<close>, with the error wrapped.\<close>

fun read_loop :: "string \<Rightarrow> (bytes \<Rightarrow> nat \<Rightarrow> ('a \<times> nat) res) \<Rightarrow> nat \<Rightarrow> nat \<Rightarrow> bytes \<Rightarrow> nat
    \<Rightarrow> ('a list \<times> nat) res" where
  "read_loop m dec i 0 data off = Inr ([], off)"
| "read_loop m dec i (Suc n) data off =
     rbind (wrapf m [D (int i)] (dec data off))
       (\<lambda>(v, off'). rbind (read_loop m dec (Suc i) n data off') (\<lambda>(vs, off''). Inr (v # vs, off'')))"

locale offset_codec =
  fixes enc :: "'a \<Rightarrow> bytes"
    and dec :: "bytes \<Rightarrow> nat \<Rightarrow> ('a \<times> nat) res"
    and valid :: "'a \<Rightarrow> bool"
  assumes dec_enc: "valid v \<Longrightarrow> dec (p @ enc v @ q) (length p) = Inr (v, length p + length (enc v))"
begin

lemma read_loop_concat:
  "list_all valid vs \<Longrightarrow>
   read_loop m dec i (length vs) (p @ concat (map enc vs) @ q) (length p)
     = Inr (vs, length p + length (concat (map enc vs)))"
proof (induction vs arbitrary: i p)
  case Nil
  show ?case by simp
next
  case (Cons v vs)
  have "dec (p @ enc v @ (concat (map enc vs) @ q)) (length p) = Inr (v, length p + length (enc v))"
    using Cons.prems by (intro dec_enc) simp
  moreover have "read_loop m dec (Suc i) (length vs) ((p @ enc v) @ concat (map enc vs) @ q) (length (p @ enc v))
     = Inr (vs, length (p @ enc v) + length (concat (map enc vs)))"
    using Cons.prems by (intro Cons.IH) simp
  ultimately show ?case by (simp add: add.assoc)
qed

end

text \<open>
  The readers that are safe on any input: they never panic, and when they succeed they
  move forward and stay inside the data.
\<close>

locale safe_reader =
  fixes dec :: "bytes \<Rightarrow> nat \<Rightarrow> ('a \<times> nat) res"
  assumes dec_no_panic: "off \<le> length data \<Longrightarrow> dec data off \<noteq> Inl Panic"
    and dec_bounds: "dec data off = Inr (v, off') \<Longrightarrow> off \<le> length data \<Longrightarrow> off \<le> off' \<and> off' \<le> length data"
begin

lemma read_loop_no_panic: "off \<le> length data \<Longrightarrow> read_loop m dec i n data off \<noteq> Inl Panic"
proof (induction n arbitrary: i off)
  case 0
  show ?case by simp
next
  case (Suc n)
  then show ?case
    using dec_no_panic [of off data] dec_bounds [of data off]
    by (auto simp: rbind_Panic_iff split: prod.splits)
qed

lemma read_loop_bounds:
  "read_loop m dec i n data off = Inr (vs, off') \<Longrightarrow> off \<le> length data \<Longrightarrow>
   length vs = n \<and> off \<le> off' \<and> off' \<le> length data"
proof (induction n arbitrary: i off vs off')
  case 0
  then show ?case by simp
next
  case (Suc n)
  then obtain v o1 ws where d: "dec data off = Inr (v, o1)"
    and r: "read_loop m dec (Suc i) n data o1 = Inr (ws, off')" and vs: "vs = v # ws"
    by (auto split: prod.splits)
  from dec_bounds [OF d] Suc.prems(2) have "off \<le> o1" "o1 \<le> length data" by auto
  with Suc.IH [OF r] vs show ?case by auto
qed

end

end
