(* ===== verification/Zstd.thy ===== *)
theory Zstd
  imports Prelude "HOL-Library.While_Combinator"
begin

text \<open>
  The compression layer \<open>internal/logstore/encoding/zstd.go\<close>: the decoded-size ceilings, the
  decoder buckets and the bounded decompression. The zstd codec itself
  (\<open>github.com/klauspost/compress/zstd\<close>) is third-party code and a parameter of the model: the
  record \<open>zstd\<close> holds the three functions the store calls, and \<open>zstd_lib\<close> states what their
  documentation promises.
\<close>

record zstd =
  EncodeAll :: "bytes \<Rightarrow> bytes"
  DecodeAll :: "nat \<Rightarrow> bytes \<Rightarrow> bytes option"
  HeaderFCS :: "bytes \<Rightarrow> nat option"

text \<open>
  \<open>DecodeAll Z n src\<close> is a decoder built with \<open>WithDecoderMaxMemory(n)\<close>; \<open>HeaderFCS Z src\<close> is
  the frame content size when the header parses and declares one. Documented behaviour: a
  frame decodes to what was encoded, unless that is longer than the decoder's maximum, and
  then it is refused; no decode returns more than the maximum; a declared content size is the
  size of the content; an empty input, and no other, encodes to nothing.
\<close>

definition zstd_lib :: "zstd \<Rightarrow> bool" where
  "zstd_lib Z \<longleftrightarrow>
     (\<forall>src. EncodeAll Z src = [] \<longleftrightarrow> src = []) \<and>
     (\<forall>src n. src \<noteq> [] \<longrightarrow> DecodeAll Z n (EncodeAll Z src) = (if length src \<le> n then Some src else None)) \<and>
     (\<forall>n src out. DecodeAll Z n src = Some out \<longrightarrow> length out \<le> n) \<and>
     (\<forall>src n. HeaderFCS Z (EncodeAll Z src) = Some n \<longrightarrow> n = length src)"

text \<open>A codec that satisfies the laws: it stores the input as its own frame.\<close>

definition stored_zstd :: zstd where
  "stored_zstd = \<lparr>EncodeAll = (\<lambda>src. src),
                  DecodeAll = (\<lambda>n src. if length src \<le> n then Some src else None),
                  HeaderFCS = (\<lambda>src. Some (length src))\<rparr>"

lemma stored_zstd_lib: "zstd_lib stored_zstd"
  by (simp add: zstd_lib_def stored_zstd_def)

section \<open>Ceilings and buckets\<close>

definition MaxBlockBytes :: int where "MaxBlockBytes = 2 * 2 ^ 30"
definition MaxColumnValueBytes :: int where "MaxColumnValueBytes = 2 ^ 20"
definition MaxVarintBytes :: int where "MaxVarintBytes = 10"
definition MaxLenFramingBytes :: int where "MaxLenFramingBytes = 8"
definition minDecodeCeiling :: int where "minDecodeCeiling = 2 ^ 16"
definition decoderBucketMin :: int where "decoderBucketMin = 2 ^ 20"

lemmas zstd_consts = MaxBlockBytes_def MaxColumnValueBytes_def MaxVarintBytes_def
  MaxLenFramingBytes_def minDecodeCeiling_def decoderBucketMin_def

definition DecodeCeiling :: "int \<Rightarrow> int \<Rightarrow> int" where
  "DecodeCeiling count perValueBytes =
     (if count \<le> 0 \<or> perValueBytes \<le> 0 then minDecodeCeiling
      else if count > MaxBlockBytes div perValueBytes then MaxBlockBytes
      else let n = count * perValueBytes
           in if n > minDecodeCeiling then n else minDecodeCeiling)"

definition decoderBucket :: "int \<Rightarrow> int" where
  "decoderBucket mx =
     (if mx \<ge> MaxBlockBytes then MaxBlockBytes
      else while (\<lambda>b. b < mx) (\<lambda>b. push_bit 1 b) decoderBucketMin)"

section \<open>Compression\<close>

definition Compress :: "zstd \<Rightarrow> bytes \<Rightarrow> bytes" where
  "Compress Z src = EncodeAll Z src"

lemma Compress_stored: "Compress stored_zstd x = x"
  by (simp add: Compress_def stored_zstd_def)

definition DecompressBounded :: "zstd \<Rightarrow> bytes \<Rightarrow> int \<Rightarrow> bytes res" where
  "DecompressBounded Z src maxDecoded =
     (if src = [] then Inr []
      else
        let mx = (if maxDecoded \<le> 0 \<or> maxDecoded > MaxBlockBytes then MaxBlockBytes else maxDecoded);
            decoded = (case DecodeAll Z (nat (decoderBucket mx)) src of
                         None \<Rightarrow> Inl (Wrapf ''zstd decode (ceiling %d)'' [D mx] (Errorf ''decode'' []))
                       | Some out \<Rightarrow> Inr out)
        in case HeaderFCS Z src of
             Some fcs \<Rightarrow>
               if int fcs > mx
               then Inl (Errorf ''zstd: declared decoded size %d exceeds ceiling %d'' [D (int fcs), D mx])
               else decoded
           | None \<Rightarrow> decoded)"

definition Decompress :: "zstd \<Rightarrow> bytes \<Rightarrow> bytes res" where
  "Decompress Z src = DecompressBounded Z src MaxBlockBytes"

section \<open>Lemmas\<close>

lemma decode_ceiling_range: "minDecodeCeiling \<le> DecodeCeiling c p \<and> DecodeCeiling c p \<le> MaxBlockBytes"
proof -
  have "c * p \<le> MaxBlockBytes" if "0 < p" "c \<le> MaxBlockBytes div p"
  proof -
    have "c * p \<le> (MaxBlockBytes div p) * p" using that by (simp add: mult_right_mono)
    also have "\<dots> \<le> MaxBlockBytes" using that using div_mult_mod_eq [of MaxBlockBytes p] pos_mod_sign [of p MaxBlockBytes] by linarith
    finally show ?thesis .
  qed
  then show ?thesis by (auto simp: DecodeCeiling_def Let_def zstd_consts)
qed

lemma decode_ceiling_admits:
  assumes "n \<le> c * p" "n \<le> MaxBlockBytes" "0 \<le> c" "0 < p"
  shows "n \<le> DecodeCeiling c p"
  using assms by (auto simp: DecodeCeiling_def Let_def zstd_consts)

text \<open>
  The bucket loop doubles from the smallest bucket: it stops at the first power of two that
  reaches the ceiling, below twice the ceiling and never above the absolute maximum.
\<close>

lemma decoder_bucket_loop:
  assumes "mx < MaxBlockBytes"
  shows "mx \<le> decoderBucket mx \<and> decoderBucket mx \<le> MaxBlockBytes
       \<and> (decoderBucket mx = decoderBucketMin \<or> decoderBucket mx < 2 * mx)"
proof -
  let ?P = "\<lambda>b. \<exists>k \<le> 11. b = 2 ^ (20 + k) \<and> (k = 0 \<or> b < 2 * mx)"
  have "mx \<le> b \<and> b \<le> MaxBlockBytes \<and> (b = decoderBucketMin \<or> b < 2 * mx)"
    if "b = while (\<lambda>b. b < mx) (\<lambda>b. push_bit 1 b) decoderBucketMin" for b
    unfolding that
  proof (rule while_rule [where P = ?P and r = "measure (\<lambda>b. nat (mx - b))"])
    show "?P decoderBucketMin" by (rule exI [of _ 0]) (simp add: zstd_consts)
  next
    fix s assume "?P s" and less: "s < mx"
    then obtain k where k: "k \<le> 11" "s = 2 ^ (20 + k)" by auto
    have "k \<noteq> 11"
    proof
      assume "k = 11"
      with k less assms show False by (simp add: zstd_consts)
    qed
    with k less show "?P (push_bit 1 s)"
      by (intro exI [of _ "Suc k"]) (simp add: push_bit_eq_mult power_add)
    show "(push_bit 1 s, s) \<in> measure (\<lambda>b. nat (mx - b))"
      using k less by (simp add: push_bit_eq_mult)
  next
    fix s assume "?P s" and "\<not> s < mx"
    then obtain k where k: "k \<le> 11" "s = 2 ^ (20 + k)" "k = 0 \<or> s < 2 * mx" by auto
    have "s \<le> 2 ^ (20 + 11)" unfolding k(2) using k(1) by (intro power_increasing) auto
    with k \<open>\<not> s < mx\<close> show "mx \<le> s \<and> s \<le> MaxBlockBytes \<and> (s = decoderBucketMin \<or> s < 2 * mx)"
      by (auto simp: zstd_consts)
  qed simp
  moreover have "decoderBucket mx = while (\<lambda>b. b < mx) (\<lambda>b. push_bit 1 b) decoderBucketMin"
    using assms by (simp only: decoderBucket_def not_le [symmetric] if_False)
  ultimately show ?thesis by blast
qed

lemma decoder_bucket_bounds:
  "0 < mx \<Longrightarrow> mx \<le> MaxBlockBytes \<Longrightarrow> mx \<le> decoderBucket mx \<and> decoderBucket mx \<le> MaxBlockBytes"
  using decoder_bucket_loop [of mx] by (cases "mx < MaxBlockBytes") (auto simp: decoderBucket_def)

lemma decompress_compress:
  assumes "zstd_lib Z" "int (length src) \<le> mx" "0 < mx" "mx \<le> MaxBlockBytes"
  shows "DecompressBounded Z (Compress Z src) mx = Inr src"
proof (cases "src = []")
  case True
  then show ?thesis using assms(1) by (simp add: DecompressBounded_def Compress_def zstd_lib_def)
next
  case False
  have "mx \<le> decoderBucket mx" using decoder_bucket_bounds assms by blast
  then have "DecodeAll Z (nat (decoderBucket mx)) (EncodeAll Z src) = Some src"
    using assms False by (auto simp: zstd_lib_def)
  moreover have "HeaderFCS Z (EncodeAll Z src) = Some fcs \<Longrightarrow> int fcs \<le> mx" for fcs
    using assms by (auto simp: zstd_lib_def)
  moreover have "EncodeAll Z src \<noteq> []" using assms(1) False by (simp add: zstd_lib_def)
  ultimately show ?thesis using assms
    by (auto simp: DecompressBounded_def Compress_def Let_def split: option.splits)
qed

lemma decompress_no_panic [no_panic]: "DecompressBounded Z src mx \<noteq> Inl Panic"
  by (auto simp: DecompressBounded_def Let_def split: option.splits)

lemma decompress_length:
  assumes "zstd_lib Z" "DecompressBounded Z src mx = Inr out" "0 < mx" "mx \<le> MaxBlockBytes"
  shows "int (length out) \<le> decoderBucket mx"
proof -
  have "int (length out) \<le> decoderBucket mx"
    if "DecodeAll Z (nat (decoderBucket mx)) src = Some out"
  proof -
    have "length out \<le> nat (decoderBucket mx)" using assms(1) that by (auto simp: zstd_lib_def)
    then show ?thesis using decoder_bucket_bounds [OF assms(3,4)] assms(3) by linarith
  qed
  moreover have "0 \<le> decoderBucket mx"
    using decoder_bucket_bounds [OF assms(3,4)] assms(3) by linarith
  ultimately show ?thesis using assms(2-4)
    by (auto simp: DecompressBounded_def Let_def split: if_splits option.splits)
qed

end
