(* ===== verification/Delta.thy ===== *)
theory Delta
  imports Go_Binary Zstd
begin

text \<open>
  Zigzag varints (\<open>internal/logstore/encoding/varint.go\<close>) and the delta encoding of monotonic
  integer columns (\<open>internal/logstore/encoding/delta.go\<close>). The deltas are taken in wrapping 64-bit
  arithmetic, so the encoding is exact for every column, monotonic or not.
\<close>

section \<open>Zigzag\<close>

definition PutVarint :: "bytes \<Rightarrow> int64 \<Rightarrow> bytes" where
  "PutVarint dst v = dst @ put_varint v"

definition PutUvarint :: "bytes \<Rightarrow> u64 \<Rightarrow> bytes" where
  "PutUvarint dst v = dst @ put_uvarint v"

definition ZigZagEncode :: "int64 \<Rightarrow> u64" where
  "ZigZagEncode v = push_bit 1 v XOR signed_drop_bit 63 v"

definition ZigZagDecode :: "u64 \<Rightarrow> int64" where
  "ZigZagDecode v = drop_bit 1 v XOR - (v AND 1)"

lemma bit_64 [simp]: "64 \<le> n \<Longrightarrow> \<not> bit (v :: u64) n"
  using bit_imp_le_length [of v n] by auto

lemma bit_sign_fill: "bit (signed_drop_bit 63 (v :: u64)) n \<longleftrightarrow> n < 64 \<and> bit v 63"
  by (cases "n = 0") (auto simp: bit_signed_drop_bit_iff not_less)

lemma bit_minus_odd: "bit (- (w AND 1) :: u64) n \<longleftrightarrow> n < 64 \<and> bit w 0"
proof (cases "bit w 0")
  case True
  then have "w AND 1 = 1" by (simp add: and_one_eq bit_0 mod_2_eq_odd)
  then show ?thesis using True by (simp add: bit_minus_1_iff)
next
  case False
  then have "w AND 1 = 0" by (simp add: and_one_eq bit_0 mod_2_eq_odd)
  then show ?thesis using False by simp
qed

lemma bit_zigzag:
  "n < 64 \<Longrightarrow> bit (ZigZagEncode v) n \<longleftrightarrow> (if n = 0 then bit v 63 else bit v (n - 1) \<noteq> bit v 63)"
  unfolding ZigZagEncode_def by (simp only: bit_xor_iff bit_shl1 bit_sign_fill) auto

lemma bit_unzigzag:
  "n < 64 \<Longrightarrow> bit (ZigZagDecode v) n \<longleftrightarrow> (bit v (Suc n) \<noteq> bit v 0)"
  unfolding ZigZagDecode_def by (simp only: bit_xor_iff bit_shr1 bit_minus_odd) auto

lemma ZigZagDecode_Encode [simp]: "ZigZagDecode (ZigZagEncode v) = v"
proof (rule bit_word_eqI)
  fix n assume "n < LENGTH(64)"
  then have n: "n < 64" by simp
  show "bit (ZigZagDecode (ZigZagEncode v)) n = bit v n"
  proof (cases "n = 63")
    case True
    then show ?thesis by (simp add: bit_unzigzag bit_zigzag)
  next
    case False
    then show ?thesis using n by (auto simp: bit_unzigzag bit_zigzag)
  qed
qed

lemma ZigZagEncode_Decode [simp]: "ZigZagEncode (ZigZagDecode v) = v"
proof (rule bit_word_eqI)
  fix n assume "n < LENGTH(64)"
  then have n: "n < 64" by simp
  show "bit (ZigZagEncode (ZigZagDecode v)) n = bit v n"
    using n by (cases "n = 0") (auto simp: bit_unzigzag bit_zigzag)
qed

section \<open>Delta encoding\<close>

fun delta_encode_loop :: "int64 list \<Rightarrow> int64 \<Rightarrow> bytes \<Rightarrow> bytes" where
  "delta_encode_loop [] prev deltaBuf = deltaBuf"
| "delta_encode_loop (v # vs) prev deltaBuf =
     (let delta = v - prev
      in delta_encode_loop vs v (PutUvarint deltaBuf (ZigZagEncode delta)))"

definition DeltaEncode :: "zstd \<Rightarrow> int64 list \<Rightarrow> bytes" where
  "DeltaEncode Z values =
     (case values of
        [] \<Rightarrow> []
      | base # _ \<Rightarrow> put_u64 base @ Compress Z (delta_encode_loop values base []))"

text \<open>The decoding loop, on the number of values still wanted: it stops early at the end of the data.\<close>

fun delta_decode_loop :: "nat \<Rightarrow> int64 \<Rightarrow> nat \<Rightarrow> bytes \<Rightarrow> int64 list res" where
  "delta_decode_loop 0 prev offset raw = Inr []"
| "delta_decode_loop (Suc k) prev offset raw =
     (if offset < length raw
      then rbind (go_from raw offset) (\<lambda>rest.
        let (encoded, n) = uvarint rest
        in if n \<le> 0 then Inl (Errorf ''invalid delta varint at offset %d'' [D (int offset)])
           else let prev = prev + ZigZagDecode encoded
                in rbind (delta_decode_loop k prev (offset + nat n) raw) (\<lambda>vs. Inr (prev # vs)))
      else Inr [])"

definition DeltaDecode :: "zstd \<Rightarrow> bytes \<Rightarrow> nat \<Rightarrow> int64 list res" where
  "DeltaDecode Z data count =
     (if length data < 8 then Inl (Errorf ''delta data too short: %d bytes'' [D (int (length data))])
      else rbind (rbind (go_slice data 0 8) get_u64) (\<lambda>base.
        rbind (rbind (go_from data 8) (\<lambda>rest.
                 wrapf ''decompress delta'' []
                   (DecompressBounded Z rest (DecodeCeiling (int count) MaxVarintBytes)))) (\<lambda>raw.
          delta_decode_loop count base 0 raw)))"

section \<open>Lemmas\<close>

fun zigzag_deltas :: "int64 \<Rightarrow> int64 list \<Rightarrow> u64 list" where
  "zigzag_deltas prev [] = []"
| "zigzag_deltas prev (v # vs) = ZigZagEncode (v - prev) # zigzag_deltas v vs"

lemma length_zigzag_deltas [simp]: "length (zigzag_deltas prev vs) = length vs"
  by (induction prev vs rule: zigzag_deltas.induct) auto

lemma delta_encode_loop_eq:
  "delta_encode_loop vs prev buf = buf @ concat (map put_uvarint (zigzag_deltas prev vs))"
  by (induction vs prev buf rule: delta_encode_loop.induct) (auto simp: PutUvarint_def)

lemma length_concat_put_uvarint: "length (concat (map put_uvarint xs)) \<le> 10 * length xs"
proof (induction xs)
  case Nil
  show ?case by simp
next
  case (Cons x xs)
  then show ?case using length_put_uvarint_le [of x] by simp
qed

lemma delta_decode_loop_encode:
  "delta_decode_loop (length vs) prev (length p) (p @ concat (map put_uvarint (zigzag_deltas prev vs))) = Inr vs"
proof (induction vs arbitrary: prev p)
  case Nil
  show ?case by simp
next
  case (Cons v vs)
  let ?b = "put_uvarint (ZigZagEncode (v - prev))"
  let ?rest = "concat (map put_uvarint (zigzag_deltas v vs))"
  have "delta_decode_loop (length vs) v (length (p @ ?b)) ((p @ ?b) @ ?rest) = Inr vs"
    by (rule Cons)
  then show ?case by (simp add: length_greater_0_conv [symmetric] del: length_greater_0_conv)
qed

lemma delta_roundtrip_lemma:
  assumes "zstd_lib Z" "vs \<noteq> []" "10 * int (length vs) \<le> MaxBlockBytes"
  shows "DeltaDecode Z (DeltaEncode Z vs) (length vs) = Inr vs"
proof -
  obtain base rest where vs: "vs = base # rest" using assms(2) by (cases vs) auto
  let ?raw = "concat (map put_uvarint (zigzag_deltas base vs))"
  have len: "int (length ?raw) \<le> 10 * int (length vs)"
    using length_concat_put_uvarint [of "zigzag_deltas base vs"] by simp
  have "int (length ?raw) \<le> DecodeCeiling (int (length vs)) MaxVarintBytes"
    using len assms(3) by (intro decode_ceiling_admits) (auto simp: MaxVarintBytes_def)
  then have "DecompressBounded Z (Compress Z ?raw) (DecodeCeiling (int (length vs)) MaxVarintBytes) = Inr ?raw"
    using decode_ceiling_range [of "int (length vs)" MaxVarintBytes] assms(1)
    by (intro decompress_compress) (auto simp: minDecodeCeiling_def)
  moreover have "DeltaEncode Z vs = put_u64 base @ Compress Z ?raw"
    by (simp add: DeltaEncode_def vs delta_encode_loop_eq PutUvarint_def)
  moreover have "delta_decode_loop (length vs) base 0 ?raw = Inr vs"
    using delta_decode_loop_encode [of vs base "[]"] by simp
  ultimately show ?thesis using get_put_u64 [of base "[]"]
    by (simp add: DeltaDecode_def)
qed

lemma delta_decode_loop_no_panic: "delta_decode_loop k prev off raw \<noteq> Inl Panic"
  by (induction k arbitrary: prev off) (auto simp: rbind_Panic_iff Let_def split: prod.splits)

lemma delta_decode_no_panic [no_panic]: "DeltaDecode Z data count \<noteq> Inl Panic"
  by (auto simp: DeltaDecode_def rbind_Panic_iff get_u64_def decompress_no_panic delta_decode_loop_no_panic)

section \<open>Properties\<close>

text \<open>A delta-encoded column decodes to itself, for every sequence of 64-bit values, monotonic or
  not and whatever the wrap-around of the differences, as long as the block can be decoded at all.\<close>

lemma delta_roundtrip:
  assumes "zstd_lib Z" and "vs \<noteq> []" and "10 * int (length vs) \<le> MaxBlockBytes"
  shows "DeltaDecode Z (DeltaEncode Z vs) (length vs) = Inr vs"
  using assms by (rule delta_roundtrip_lemma)

lemma delta_roundtrip_witness:
  "DeltaDecode stored_zstd (DeltaEncode stored_zstd [5, - 3, 0x7FFFFFFFFFFFFFFF]) 3 = Inr [5, - 3, 0x7FFFFFFFFFFFFFFF]"
  using delta_roundtrip [of stored_zstd "[5, - 3, 0x7FFFFFFFFFFFFFFF]"] stored_zstd_lib by (simp add: zstd_consts numeral_3_eq_3)

end
