(* ===== verification/Index.thy ===== *)
theory Index
  imports Tokenizer Go_Binary Delta "HOL-Library.List_Lexorder" "HOL-Library.Char_ord"
begin

text \<open>
  The inverted index over messages, \<open>internal/logstore/index/builder.go\<close> and \<open>reader.go\<close>. The
  builder's Go map is an association list with distinct keys; strings compare byte by byte. The
  file is its bytes, and its writes succeed.
\<close>

section \<open>Building\<close>

type_synonym terms = "(string \<times> u32 list) list"

definition terms_get :: "terms \<Rightarrow> string \<Rightarrow> u32 list" where
  "terms_get ts t = (case map_of ts t of Some ids \<Rightarrow> ids | None \<Rightarrow> [])"

fun terms_put :: "string \<Rightarrow> u32 list \<Rightarrow> terms \<Rightarrow> terms" where
  "terms_put t ids [] = [(t, ids)]"
| "terms_put t ids ((t', ids') # ts) = (if t = t' then (t, ids) # ts else (t', ids') # terms_put t ids ts)"

definition Add :: "unicode \<Rightarrow> u32 \<Rightarrow> string \<Rightarrow> terms \<Rightarrow> terms" where
  "Add U rowIdx message ts = fold (\<lambda>t ts. terms_put t (terms_get ts t @ [rowIdx]) ts) (TokenizeUnique U message) ts"

definition TermCount :: "terms \<Rightarrow> nat" where
  "TermCount ts = length ts"

record indexTerm =
  iterm :: string
  postingsOffset :: u32
  postingsLen :: u32

fun posting_deltas :: "u32 list \<Rightarrow> u32 \<Rightarrow> bytes \<Rightarrow> bytes" where
  "posting_deltas [] prev deltas = deltas"
| "posting_deltas (rid # ids) prev deltas = posting_deltas ids rid (PutUvarint deltas (ucast (rid - prev)))"

fun build_postings :: "zstd \<Rightarrow> terms \<Rightarrow> string list \<Rightarrow> bytes \<Rightarrow> indexTerm list \<times> bytes" where
  "build_postings Z ts [] postingsBuf = ([], postingsBuf)"
| "build_postings Z ts (t # rest) postingsBuf =
     (let compressed = Compress Z (posting_deltas (terms_get ts t) 0 []);
          (es, buf) = build_postings Z ts rest (postingsBuf @ compressed)
      in (\<lparr>iterm = t, postingsOffset = of_nat (length postingsBuf), postingsLen = of_nat (length compressed)\<rparr> # es, buf))"

definition term_entry_bytes :: "indexTerm \<Rightarrow> bytes" where
  "term_entry_bytes te =
     put_u16 (of_nat (length (iterm te))) @ bytes_of_string (iterm te) @ put_u32 (postingsOffset te) @ put_u32 (postingsLen te)"

definition IndexWrite :: "zstd \<Rightarrow> terms \<Rightarrow> nat \<Rightarrow> bytes" where
  "IndexWrite Z ts entryCount =
     (let sortedTerms = sort (map fst ts);
          (termEntries, postingsBuf) = build_postings Z ts sortedTerms [];
          termTable = concat (map term_entry_bytes termEntries);
          header = bytes_of_string ''OTIX'' @ put_u32 (of_nat (length sortedTerms)) @ put_u32 (of_nat entryCount) @
                   put_u32 (of_nat (length termTable))
      in header @ termTable @ postingsBuf)"

section \<open>Reading\<close>

record IndexReader =
  rterms :: "indexTerm list"
  postingsData :: bytes
  entryCount :: nat

definition term_at :: "nat \<Rightarrow> bytes \<Rightarrow> nat \<Rightarrow> (indexTerm \<times> nat) res" where
  "term_at i termTable offset =
     (if offset + 2 > length termTable then Inl (Errorf ''term table truncated at term %d'' [D (int i)])
      else rbind (rbind (go_from termTable offset) get_u16) (\<lambda>w.
        let termLen = unat w; offset = offset + 2
        in if offset + termLen + 8 > length termTable then Inl (Errorf ''term entry truncated'' [])
           else rbind (go_slice termTable offset (offset + termLen)) (\<lambda>t.
                rbind (rbind (go_from termTable (offset + termLen)) get_u32) (\<lambda>po.
                rbind (rbind (go_from termTable (offset + termLen + 4)) get_u32) (\<lambda>pl.
                  Inr (\<lparr>iterm = string_of_bytes t, postingsOffset = po, postingsLen = pl\<rparr>, offset + termLen + 8))))))"

fun term_table_loop :: "nat \<Rightarrow> nat \<Rightarrow> bytes \<Rightarrow> nat \<Rightarrow> indexTerm list res" where
  "term_table_loop i 0 termTable offset = Inr []"
| "term_table_loop i (Suc k) termTable offset =
     rbind (term_at i termTable offset) (\<lambda>(t, offset).
     rbind (term_table_loop (Suc i) k termTable offset) (\<lambda>ts. Inr (t # ts)))"

definition OpenIndex :: "bytes \<Rightarrow> IndexReader res" where
  "OpenIndex data =
     (if length data < 16 then Inl (Errorf ''index too short: %d bytes'' [D (int (length data))])
      else rbind (go_slice data 0 4) (\<lambda>magic.
        if string_of_bytes magic \<noteq> ''OTIX'' then Inl (Errorf ''invalid index magic: %q'' [Q (string_of_bytes magic)])
        else rbind (rbind (go_from data 4) get_u32) (\<lambda>tc.
             rbind (rbind (go_from data 8) get_u32) (\<lambda>ec.
             rbind (rbind (go_from data 12) get_u32) (\<lambda>tt.
               let termTableSize = unat tt
               in if 16 + termTableSize > length data then Inl (Errorf ''term table overflows file'' [])
                  else rbind (go_slice data 16 (16 + termTableSize)) (\<lambda>termTable.
                       rbind (go_from data (16 + termTableSize)) (\<lambda>postings.
                       rbind (term_table_loop 0 (unat tc) termTable 0) (\<lambda>ts.
                         Inr \<lparr>rterms = ts, postingsData = postings, entryCount = unat ec\<rparr>))))))))"

text \<open>\<open>sort.Search\<close>: the smallest index in \<open>[i, j)\<close> that satisfies \<open>f\<close>, by bisection.\<close>

function search_loop :: "(nat \<Rightarrow> bool) \<Rightarrow> nat \<Rightarrow> nat \<Rightarrow> nat" where
  "search_loop f i j =
     (if i < j then (let h = (i + j) div 2 in if \<not> f h then search_loop f (h + 1) j else search_loop f i h) else i)"
  by pat_completeness auto
termination
  by (relation "measure (\<lambda>(f, i, j). j - i)") auto

declare search_loop.simps [simp del]

definition sort_Search :: "nat \<Rightarrow> (nat \<Rightarrow> bool) \<Rightarrow> nat" where
  "sort_Search n f = search_loop f 0 n"

function posting_ids :: "bytes \<Rightarrow> u32 \<Rightarrow> nat \<Rightarrow> u32 list res" where
  "posting_ids raw prev offset =
     (if offset < length raw
      then rbind (go_from raw offset) (\<lambda>rest.
             let (delta, n) = uvarint rest
             in if n \<le> 0 then Inl (Errorf ''invalid delta uvarint at offset %d'' [D (int offset)])
                else let prev = prev + ucast delta
                     in rbind (posting_ids raw prev (offset + nat n)) (\<lambda>ids. Inr (prev # ids)))
      else Inr [])"
  by pat_completeness auto
termination
  by (relation "measure (\<lambda>(raw, prev, offset). length raw - offset)") auto

declare posting_ids.simps [simp del]

definition lookup :: "zstd \<Rightarrow> IndexReader \<Rightarrow> string \<Rightarrow> u32 list res" where
  "lookup Z r t =
     (let idx = sort_Search (length (rterms r)) (\<lambda>i. t \<le> iterm (rterms r ! i))
      in if idx \<ge> length (rterms r) \<or> iterm (rterms r ! idx) \<noteq> t then Inr []
         else let te = rterms r ! idx
              in if unat (postingsOffset te) + unat (postingsLen te) > length (postingsData r)
                 then Inl (Errorf ''postings overflow for term %q'' [Q t])
                 else rbind (go_slice (postingsData r) (unat (postingsOffset te)) (unat (postingsOffset te + postingsLen te))) (\<lambda>compressed.
                      rbind (wrapf ''decompress postings for %q'' [Q t] (Decompress Z compressed)) (\<lambda>raw.
                        posting_ids raw 0 0)))"

fun intersect_loop :: "u32 list \<Rightarrow> u32 list \<Rightarrow> u32 list" where
  "intersect_loop (a # as) (b # bs) =
     (if a = b then a # intersect_loop as bs
      else if a < b then intersect_loop as (b # bs)
      else intersect_loop (a # as) bs)"
| "intersect_loop _ _ = []"

definition intersectSorted :: "u32 list \<Rightarrow> u32 list \<Rightarrow> u32 list" where
  "intersectSorted a b = intersect_loop a b"

text \<open>The posting lists of the query terms; \<open>None\<close> is the early return on an empty list.\<close>

fun gather :: "zstd \<Rightarrow> IndexReader \<Rightarrow> string list \<Rightarrow> u32 list list option res" where
  "gather Z r [] = Inr (Some [])"
| "gather Z r (qt # qts) =
     rbind (wrapf ''lookup %q'' [Q qt] (lookup Z r qt)) (\<lambda>ids.
       if ids = [] then Inr None
       else rbind (gather Z r qts) (\<lambda>rest. Inr (map_option ((#) ids) rest)))"

fun intersect_all :: "u32 list \<Rightarrow> u32 list list \<Rightarrow> u32 list" where
  "intersect_all result [] = result"
| "intersect_all result (l # ls) =
     (let result = intersectSorted result l in if result = [] then [] else intersect_all result ls)"

definition Search :: "unicode \<Rightarrow> zstd \<Rightarrow> IndexReader \<Rightarrow> string \<Rightarrow> u32 list res" where
  "Search U Z r query =
     (let queryTerms = TokenizeUnique U query
      in if length queryTerms = 0 then Inr []
         else rbind (gather Z r queryTerms) (\<lambda>lists.
           case lists of
             None \<Rightarrow> Inr []
           | Some postingLists \<Rightarrow>
               if length postingLists = 1 then rbind (go_index postingLists 0) Inr
               else rbind (go_index postingLists 0) (\<lambda>result. Inr (intersect_all result (tl postingLists)))))"

section \<open>The builder\<close>

text \<open>The calls of the sealer for one chunk: every message under its row number.\<close>

definition build_index :: "unicode \<Rightarrow> string list \<Rightarrow> terms" where
  "build_index U msgs = fold (\<lambda>(i, m). Add U (of_nat i) m) (enumerate 0 msgs) []"

lemma terms_get_put [simp]: "terms_get (terms_put t ids ts) t' = (if t = t' then ids else terms_get ts t')"
  by (induction t ids ts rule: terms_put.induct) (auto simp: terms_get_def)

lemma terms_put_keys: "fst ` set (terms_put t ids ts) = insert t (fst ` set ts)"
  by (induction t ids ts rule: terms_put.induct) auto

lemma terms_put_distinct: "distinct (map fst ts) \<Longrightarrow> distinct (map fst (terms_put t ids ts))"
  by (induction t ids ts rule: terms_put.induct) (simp_all add: terms_put_keys)

definition terms_inv :: "terms \<Rightarrow> bool" where
  "terms_inv ts \<longleftrightarrow> distinct (map fst ts) \<and> (\<forall>t. t \<in> fst ` set ts \<longleftrightarrow> terms_get ts t \<noteq> [])"

lemma add_token: "terms_inv ts \<Longrightarrow> terms_inv (terms_put t (terms_get ts t @ [r]) ts)"
  by (auto simp: terms_inv_def terms_put_keys terms_put_distinct)

lemma add_tokens:
  "terms_inv ts \<Longrightarrow> distinct toks \<Longrightarrow>
   terms_inv (fold (\<lambda>t ts. terms_put t (terms_get ts t @ [r]) ts) toks ts) \<and>
   terms_get (fold (\<lambda>t ts. terms_put t (terms_get ts t @ [r]) ts) toks ts) t
     = terms_get ts t @ (if t \<in> set toks then [r] else [])"
proof (induction toks arbitrary: ts)
  case Nil
  then show ?case by simp
next
  case (Cons k toks)
  have "terms_inv (terms_put k (terms_get ts k @ [r]) ts)" using Cons.prems(1) by (rule add_token)
  from Cons.IH [OF this] Cons.prems(2) show ?case by auto
qed

definition rows_with :: "unicode \<Rightarrow> string list \<Rightarrow> string \<Rightarrow> nat list" where
  "rows_with U msgs t = filter (\<lambda>i. t \<in> set (TokenizeUnique U (msgs ! i))) [0..<length msgs]"

lemma rows_with_append:
  "rows_with U (msgs @ [m]) t = rows_with U msgs t @ (if t \<in> set (TokenizeUnique U m) then [length msgs] else [])"
proof -
  have "filter (\<lambda>i. t \<in> set (TokenizeUnique U ((msgs @ [m]) ! i))) [0..<length msgs]
      = filter (\<lambda>i. t \<in> set (TokenizeUnique U (msgs ! i))) [0..<length msgs]"
    by (intro filter_cong) (auto simp: nth_append)
  then show ?thesis by (simp add: rows_with_def)
qed

lemma build_index_spec: "terms_inv (build_index U msgs) \<and> terms_get (build_index U msgs) t = map of_nat (rows_with U msgs t)"
proof (induction msgs rule: rev_induct)
  case Nil
  show ?case by (simp add: build_index_def terms_inv_def terms_get_def rows_with_def)
next
  case (snoc m msgs)
  have step: "build_index U (msgs @ [m]) = Add U (of_nat (length msgs)) m (build_index U msgs)"
    by (simp add: build_index_def enumerate_append_eq)
  show ?case
    using snoc add_tokens [of "build_index U msgs" "TokenizeUnique U m" "of_nat (length msgs)" t] distinct_TokenizeUnique [of U m]
    by (simp add: step Add_def rows_with_append)
qed

section \<open>Postings\<close>

fun id_deltas :: "u32 \<Rightarrow> u32 list \<Rightarrow> u64 list" where
  "id_deltas prev [] = []"
| "id_deltas prev (rid # ids) = ucast (rid - prev) # id_deltas rid ids"

lemma posting_deltas_eq: "posting_deltas ids prev buf = buf @ concat (map put_uvarint (id_deltas prev ids))"
  by (induction ids prev buf rule: posting_deltas.induct) (auto simp: PutUvarint_def)

lemma ucast_back: "ucast (ucast (x :: u32) :: u64) = x"
  by (rule bit_word_eqI) (simp add: bit_ucast_iff)

lemma posting_ids_deltas:
  "posting_ids (p @ concat (map put_uvarint (id_deltas prev ids))) prev (length p) = Inr ids"
proof (induction ids arbitrary: prev p)
  case Nil
  show ?case by (subst posting_ids.simps) simp
next
  case (Cons rid ids)
  let ?b = "put_uvarint (ucast (rid - prev))" and ?rest = "concat (map put_uvarint (id_deltas rid ids))"
  have ih: "posting_ids ((p @ ?b) @ ?rest) rid (length (p @ ?b)) = Inr ids" by (rule Cons)
  have "length p < length (p @ ?b @ ?rest)" by simp
  then show ?case using ih
    by (subst posting_ids.simps) (simp add: ucast_back Let_def)
qed

definition postings :: "zstd \<Rightarrow> terms \<Rightarrow> string \<Rightarrow> bytes" where
  "postings Z ts t = Compress Z (posting_deltas (terms_get ts t) 0 [])"

lemma posting_ids_postings:
  assumes "zstd_lib Z" "int (length (posting_deltas ids 0 [])) \<le> MaxBlockBytes"
  shows "rbind (Decompress Z (Compress Z (posting_deltas ids 0 []))) (\<lambda>raw. posting_ids raw 0 0) = Inr ids"
  using assms posting_ids_deltas [of "[]" 0 ids]
  by (simp add: Decompress_def decompress_compress posting_deltas_eq MaxBlockBytes_def)

section \<open>The term table\<close>

fun term_entries :: "zstd \<Rightarrow> terms \<Rightarrow> nat \<Rightarrow> string list \<Rightarrow> indexTerm list" where
  "term_entries Z ts off [] = []"
| "term_entries Z ts off (t # rest) =
     \<lparr>iterm = t, postingsOffset = of_nat off, postingsLen = of_nat (length (postings Z ts t))\<rparr>
       # term_entries Z ts (off + length (postings Z ts t)) rest"

lemma build_postings_eq:
  "build_postings Z ts ks buf = (term_entries Z ts (length buf) ks, buf @ concat (map (postings Z ts) ks))"
  by (induction ks arbitrary: buf) (simp_all add: postings_def Let_def)

lemma term_entries_append:
  "term_entries Z ts off (as @ bs) = term_entries Z ts off as @ term_entries Z ts (off + length (concat (map (postings Z ts) as))) bs"
  by (induction as arbitrary: off) (auto simp: add.assoc)

lemma term_entries_terms: "map iterm (term_entries Z ts off ks) = ks"
  by (induction ks arbitrary: off) auto

lemma length_term_entries [simp]: "length (term_entries Z ts off ks) = length ks"
  by (induction ks arbitrary: off) auto

lemma term_at_entry:
  assumes "length (iterm te) < 2 ^ 16"
  shows "term_at i (p @ term_entry_bytes te @ q) (length p) = Inr (te, length p + length (term_entry_bytes te))"
proof -
  have n: "unat (of_nat (length (iterm te)) :: u16) = length (iterm te)" using assms by (simp add: unat_of_nat_small)
  let ?nm = "bytes_of_string (iterm te)" and ?len = "put_u16 (of_nat (length (iterm te)))"
  let ?d = "p @ term_entry_bytes te @ q"
  have d1: "?d = p @ ?len @ (?nm @ put_u32 (postingsOffset te) @ put_u32 (postingsLen te) @ q)"
    and d2: "?d = (p @ ?len) @ ?nm @ (put_u32 (postingsOffset te) @ put_u32 (postingsLen te) @ q)"
    and d3: "?d = (p @ ?len @ ?nm) @ (put_u32 (postingsOffset te) @ put_u32 (postingsLen te) @ q)"
    and d4: "?d = (p @ ?len @ ?nm @ put_u32 (postingsOffset te)) @ (put_u32 (postingsLen te) @ q)"
    by (simp_all add: term_entry_bytes_def)
  have "rbind (go_from ?d (length p)) get_u16 = Inr (of_nat (length (iterm te)))" unfolding d1 by simp
  moreover have "go_slice ?d (length p + 2) (length p + 2 + length (iterm te)) = Inr ?nm" unfolding d2 by simp
  moreover have "rbind (go_from ?d (length p + 2 + length (iterm te))) get_u32 = Inr (postingsOffset te)" unfolding d3 by simp
  moreover have "rbind (go_from ?d (length p + 2 + length (iterm te) + 4)) get_u32 = Inr (postingsLen te)" unfolding d4 by simp
  ultimately show ?thesis
    using n by (simp add: term_at_def Let_def) (simp add: term_entry_bytes_def)
qed

lemma term_table_roundtrip:
  "list_all (\<lambda>te. length (iterm te) < 2 ^ 16) tes \<Longrightarrow>
   term_table_loop i (length tes) (p @ concat (map term_entry_bytes tes)) (length p) = Inr tes"
proof (induction tes arbitrary: i p)
  case Nil
  show ?case by simp
next
  case (Cons te tes)
  have "term_at i (p @ term_entry_bytes te @ concat (map term_entry_bytes tes)) (length p) = Inr (te, length p + length (term_entry_bytes te))"
    using Cons.prems by (intro term_at_entry) simp
  moreover have "term_table_loop (Suc i) (length tes) ((p @ term_entry_bytes te) @ concat (map term_entry_bytes tes))
      (length (p @ term_entry_bytes te)) = Inr tes"
    using Cons.prems by (intro Cons.IH) simp
  ultimately show ?case by simp
qed

section \<open>Search\<close>

definition upward :: "(nat \<Rightarrow> bool) \<Rightarrow> nat \<Rightarrow> nat \<Rightarrow> bool" where
  "upward f i j \<longleftrightarrow> (\<forall>m n. i \<le> m \<and> m \<le> n \<and> n < j \<and> f m \<longrightarrow> f n)"

lemma upward_sub: "upward f i j \<Longrightarrow> i \<le> i' \<Longrightarrow> j' \<le> j \<Longrightarrow> upward f i' j'"
  unfolding upward_def by (meson le_trans less_le_trans)

definition least_in :: "(nat \<Rightarrow> bool) \<Rightarrow> nat \<Rightarrow> nat \<Rightarrow> nat \<Rightarrow> bool" where
  "least_in f i j k \<longleftrightarrow> i \<le> k \<and> k \<le> j \<and> (\<forall>m. i \<le> m \<and> m < k \<longrightarrow> \<not> f m) \<and> (k < j \<longrightarrow> f k)"

lemma search_loop_least: "upward f i j \<Longrightarrow> i \<le> j \<Longrightarrow> least_in f i j (search_loop f i j)"
proof (induction f i j rule: search_loop.induct)
  case (1 f i j)
  show ?case
  proof (cases "i < j")
    case False
    have "search_loop f i j = i" using False by (subst search_loop.simps) simp
    then show ?thesis using False "1.prems"(2) by (auto simp: least_in_def)
  next
    case True
    define h where "h = (i + j) div 2"
    have h: "i \<le> h" "h < j" using True by (simp_all add: h_def)
    show ?thesis
    proof (cases "f h")
      case False
      have eq: "search_loop f i j = search_loop f (h + 1) j"
        using True False by (subst search_loop.simps) (simp add: h_def Let_def)
      have "least_in f (h + 1) j (search_loop f (h + 1) j)"
        using h by (intro "1.IH"(1) [OF True h_def] False upward_sub [OF "1.prems"(1)]) auto
      moreover have "\<not> f m" if "i \<le> m" "m \<le> h" for m
        using "1.prems"(1) that h False unfolding upward_def by blast
      moreover have "h + 1 \<le> m" if "\<not> m \<le> h" for m using that by simp
      ultimately have "\<forall>m. i \<le> m \<and> m < search_loop f (h + 1) j \<longrightarrow> \<not> f m" unfolding least_in_def by blast
      then show ?thesis using h \<open>least_in f (h + 1) j (search_loop f (h + 1) j)\<close> unfolding eq least_in_def by simp
    next
      case fh: True
      have eq: "search_loop f i j = search_loop f i h"
        using True fh by (subst search_loop.simps) (simp add: h_def Let_def)
      have "least_in f i h (search_loop f i h)"
        using h fh by (intro "1.IH"(2) [OF True h_def] upward_sub [OF "1.prems"(1)]) auto
      moreover from this have "f (search_loop f i h)"
        using fh unfolding least_in_def by (cases "search_loop f i h = h") simp_all
      ultimately show ?thesis using h unfolding eq least_in_def by simp
    qed
  qed
qed

definition index_fits :: "zstd \<Rightarrow> terms \<Rightarrow> bool" where
  "index_fits Z ts \<longleftrightarrow>
     list_all (\<lambda>t. length t < 2 ^ 16 \<and> int (length (posting_deltas (terms_get ts t) 0 [])) \<le> MaxBlockBytes) (map fst ts) \<and>
     length ts < 2 ^ 32 \<and>
     length (concat (map term_entry_bytes (term_entries Z ts 0 (sort (map fst ts))))) < 2 ^ 32 \<and>
     length (concat (map (postings Z ts) (sort (map fst ts)))) < 2 ^ 32"

definition opened :: "zstd \<Rightarrow> terms \<Rightarrow> nat \<Rightarrow> IndexReader" where
  "opened Z ts n = \<lparr>rterms = term_entries Z ts 0 (sort (map fst ts)),
     postingsData = concat (map (postings Z ts) (sort (map fst ts))), entryCount = n\<rparr>"

lemma open_index:
  assumes "index_fits Z ts" "n < 2 ^ 32"
  shows "OpenIndex (IndexWrite Z ts n) = Inr (opened Z ts n)"
proof -
  let ?ks = "sort (map fst ts)"
  define es where "es = term_entries Z ts 0 ?ks"
  define tt where "tt = concat (map term_entry_bytes es)"
  let ?pb = "concat (map (postings Z ts) ?ks)"
  have d: "IndexWrite Z ts n = bytes_of_string ''OTIX'' @ put_u32 (of_nat (length ?ks)) @ put_u32 (of_nat n) @
      put_u32 (of_nat (length tt)) @ tt @ ?pb"
    by (simp add: IndexWrite_def build_postings_eq Let_def es_def tt_def)
  have u: "unat (of_nat (length ts) :: u32) = length ts" "unat (of_nat n :: u32) = n" "unat (of_nat (length tt) :: u32) = length tt"
    using assms by (simp_all add: index_fits_def unat_of_nat_small tt_def es_def)
  have short: "list_all (\<lambda>te. length (iterm te) < 2 ^ 16) es"
  proof -
    have "\<forall>t \<in> set (map iterm es). length t < 2 ^ 16"
      using assms(1) by (simp add: es_def term_entries_terms index_fits_def list_all_iff)
    then show ?thesis by (simp add: list_all_iff)
  qed
  have loop: "term_table_loop 0 (length ts) tt 0 = Inr es"
    using term_table_roundtrip [OF short, of 0 "[]"] by (simp add: tt_def es_def)
  have four: "length (bytes_of_string ''OTIX'') = 4" by simp
  show ?thesis
    using u loop unfolding OpenIndex_def d
    by (simp add: four Let_def go_slice_def) (simp add: opened_def es_def)
qed

lemma strict_sorted_terms: "distinct (map fst ts) \<Longrightarrow> sorted_wrt (<) (sort (map fst (ts :: terms)))"
  by (simp add: strict_sorted_iff)

lemma lookup_opened:
  assumes Z: "zstd_lib Z" and inv: "terms_inv ts" and fits: "index_fits Z ts"
  shows "lookup Z (opened Z ts n) t = Inr (terms_get ts t)"
proof -
  let ?ks = "sort (map fst ts)" and ?es = "rterms (opened Z ts n)"
  have es: "?es = term_entries Z ts 0 ?ks" by (simp add: opened_def)
  have tm: "iterm (?es ! i) = ?ks ! i" if "i < length ?ks" for i
    using that term_entries_terms [of Z ts 0 ?ks] by (metis es length_term_entries nth_map)
  have sorted: "sorted_wrt (<) ?ks" using inv by (intro strict_sorted_terms) (simp add: terms_inv_def)
  let ?f = "\<lambda>i. t \<le> iterm (?es ! i)"
  define idx where "idx = sort_Search (length ?es) ?f"
  have len: "length ?es = length ?ks" by (simp add: es)
  have "upward ?f 0 (length ?es)"
    unfolding upward_def
  proof (intro allI impI)
    fix m n assume a: "0 \<le> m \<and> m \<le> n \<and> n < length ?es \<and> ?f m"
    then have "?ks ! m \<le> ?ks ! n" by (intro sorted_nth_mono) (auto simp: len)
    then show "?f n" using a len tm [of m] tm [of n] by auto
  qed
  then have "least_in ?f 0 (length ?ks) idx"
    unfolding idx_def sort_Search_def len by (intro search_loop_least) simp_all
  then have idx: "idx \<le> length ?ks" "\<And>m. m < idx \<Longrightarrow> \<not> ?f m" "idx < length ?ks \<Longrightarrow> ?f idx"
    unfolding least_in_def by blast+
  show ?thesis
  proof (cases "t \<in> set ?ks")
    case False
    then have "terms_get ts t = []" using inv by (auto simp: terms_inv_def)
    moreover have "idx < length ?ks \<Longrightarrow> iterm (?es ! idx) \<noteq> t" using False tm by (metis nth_mem)
    ultimately show ?thesis unfolding lookup_def Let_def idx_def [symmetric] by (auto simp: len)
  next
    case True
    then obtain k where k: "k < length ?ks" "?ks ! k = t" by (metis in_set_conv_nth)
    have fk: "?f k" using k tm by simp
    have "idx = k"
    proof (rule ccontr)
      assume "idx \<noteq> k"
      then consider "k < idx" | "idx < k" by linarith
      then show False
      proof cases
        case 1 then show False using idx(2) fk by blast
      next
        case 2
        then have "?ks ! idx < t" using sorted k by (metis sorted_wrt_nth_less)
        moreover have "t \<le> ?ks ! idx" using idx(3) tm 2 k by simp
        ultimately show False by simp
      qed
    qed
    define pre where "pre = concat (map (postings Z ts) (take k ?ks))"
    define post where "post = concat (map (postings Z ts) (drop (Suc k) ?ks))"
    have split: "?ks = take k ?ks @ t # drop (Suc k) ?ks" using k by (metis id_take_nth_drop)
    have data: "postingsData (opened Z ts n) = pre @ postings Z ts t @ post"
      unfolding opened_def pre_def post_def by (subst split) simp
    have te: "?es ! k = \<lparr>iterm = t, postingsOffset = of_nat (length pre), postingsLen = of_nat (length (postings Z ts t))\<rparr>"
    proof -
      have "?es = term_entries Z ts 0 (take k ?ks) @ term_entries Z ts (length pre) (t # drop (Suc k) ?ks)"
        unfolding es pre_def by (subst split) (simp add: term_entries_append)
      then show ?thesis using k by (simp add: nth_append)
    qed
    have "length (pre @ postings Z ts t @ post) < 2 ^ 32" using fits data by (simp add: index_fits_def opened_def)
    then have small: "length pre + length (postings Z ts t) < 2 ^ 32" by simp
    then have u: "unat (of_nat (length pre) :: u32) = length pre" "unat (of_nat (length (postings Z ts t)) :: u32) = length (postings Z ts t)"
      "unat (of_nat (length pre) + of_nat (length (postings Z ts t)) :: u32) = length pre + length (postings Z ts t)"
      by (simp_all add: unat_of_nat_small flip: of_nat_add)
    have "int (length (posting_deltas (terms_get ts t) 0 [])) \<le> MaxBlockBytes"
      using fits True by (auto simp: index_fits_def list_all_iff)
    then have "rbind (Decompress Z (postings Z ts t)) (\<lambda>raw. posting_ids raw 0 0) = Inr (terms_get ts t)"
      unfolding postings_def using Z by (intro posting_ids_postings)
    then obtain raw where raw: "Decompress Z (postings Z ts t) = Inr raw" "posting_ids raw 0 0 = Inr (terms_get ts t)" by auto
    show ?thesis unfolding lookup_def Let_def idx_def [symmetric]
      using \<open>idx = k\<close> k te u data raw by (simp add: len)
  qed
qed

section \<open>Intersection\<close>

lemma intersect_loop_filter:
  "sorted_wrt (<) a \<Longrightarrow> sorted_wrt (<) b \<Longrightarrow> intersect_loop a b = filter (\<lambda>x. x \<in> set b) a"
proof (induction a b rule: intersect_loop.induct)
  case (1 a as b bs)
  consider "a = b" | "a < b" | "b < a" using less_linear by blast
  then show ?case
  proof cases
    case 1
    have "filter (\<lambda>x. x \<in> set (b # bs)) as = filter (\<lambda>x. x \<in> set bs) as"
      using "1.prems" \<open>a = b\<close> by (intro filter_cong) auto
    then show ?thesis using "1.IH"(1) "1.prems" \<open>a = b\<close> by simp
  next
    case 2
    then have "a \<notin> set (b # bs)" using "1.prems"(2) by auto
    then show ?thesis using "1.IH"(2) "1.prems" 2 by simp
  next
    case 3
    then have "filter (\<lambda>x. x \<in> set (b # bs)) (a # as) = filter (\<lambda>x. x \<in> set bs) (a # as)"
      using "1.prems"(1) by (intro filter_cong) auto
    moreover have "intersect_loop (a # as) (b # bs) = intersect_loop (a # as) bs" using 3 by auto
    moreover have "intersect_loop (a # as) bs = filter (\<lambda>x. x \<in> set bs) (a # as)"
      using "1.IH"(3) "1.prems" 3 by auto
    ultimately show ?thesis by simp
  qed
qed auto

lemma intersect_all_filter:
  "sorted_wrt (<) a \<Longrightarrow> \<forall>l \<in> set ls. sorted_wrt (<) l \<Longrightarrow> intersect_all a ls = filter (\<lambda>x. \<forall>l \<in> set ls. x \<in> set l) a"
proof (induction ls arbitrary: a)
  case Nil
  show ?case by simp
next
  case (Cons l ls)
  have step: "intersectSorted a l = filter (\<lambda>x. x \<in> set l) a"
    using Cons.prems by (simp add: intersectSorted_def intersect_loop_filter)
  have "intersect_all (filter (\<lambda>x. x \<in> set l) a) ls = filter (\<lambda>x. \<forall>l \<in> set ls. x \<in> set l) (filter (\<lambda>x. x \<in> set l) a)"
    using Cons.prems by (intro Cons.IH sorted_wrt_filter) auto
  moreover have "(if filter P a = [] then [] else filter Q (filter P a)) = filter Q (filter P a)" for P Q :: "u32 \<Rightarrow> bool"
    by (cases "filter P a = []") simp_all
  ultimately have "intersect_all a (l # ls) = filter (\<lambda>x. \<forall>l \<in> set ls. x \<in> set l) (filter (\<lambda>x. x \<in> set l) a)"
    by (simp add: step Let_def del: filter_filter)
  then show ?case by (simp add: conj_commute)
qed

section \<open>Searching a built index\<close>

definition rows_matching :: "unicode \<Rightarrow> string list \<Rightarrow> string set \<Rightarrow> nat list" where
  "rows_matching U msgs qs = filter (\<lambda>i. qs \<subseteq> set (TokenizeUnique U (msgs ! i))) [0..<length msgs]"

lemma gather_spec:
  assumes "\<And>t. lookup Z r t = Inr (ids t)"
  shows "gather Z r qts = Inr (if (\<exists>t \<in> set qts. ids t = []) then None else Some (map ids qts))"
  by (induction qts) (auto simp: assms)

lemma of_nat_rows_sorted:
  assumes "n \<le> 2 ^ 32"
  shows "sorted_wrt (<) (map (of_nat :: nat \<Rightarrow> u32) (filter P [0..<n]))"
proof -
  have "sorted_wrt (<) (filter P [0..<n])" by (intro sorted_wrt_filter) simp
  moreover have "(of_nat a :: u32) < of_nat b" if "a < b" "b < n" for a b
    using that assms by (simp add: word_less_nat_alt unat_of_nat_small)
  ultimately show ?thesis
    unfolding sorted_wrt_map by (rule sorted_wrt_mono_rel [rotated]) auto
qed

lemma of_nat_mem_iff:
  assumes "n \<le> 2 ^ 32" "i < n"
  shows "(of_nat i :: u32) \<in> set (map of_nat (filter P [0..<n])) \<longleftrightarrow> P i"
proof -
  have inj: "i = j" if "(of_nat i :: u32) = of_nat j" "j < n" for j
  proof -
    have "unat (of_nat i :: u32) = i" "unat (of_nat j :: u32) = j"
      using that(2) assms by (simp_all add: unat_of_nat_small)
    then show ?thesis using that(1) by metis
  qed
  show ?thesis
  proof
    assume "(of_nat i :: u32) \<in> set (map of_nat (filter P [0..<n]))"
    then obtain j where "(of_nat i :: u32) = of_nat j" "j < n" "P j" by auto
    then show "P i" using inj by blast
  next
    assume "P i"
    then have "i \<in> set (filter P [0..<n])" using assms(2) by simp
    then show "(of_nat i :: u32) \<in> set (map of_nat (filter P [0..<n]))" unfolding set_map by (rule imageI)
  qed
qed

lemma search_built:
  assumes Z: "zstd_lib Z" and n: "length msgs \<le> 2 ^ 32" and fits: "index_fits Z (build_index U msgs)"
    and q: "TokenizeUnique U query \<noteq> []"
  shows "Search U Z (opened Z (build_index U msgs) k) query
    = Inr (map of_nat (rows_matching U msgs (set (TokenizeUnique U query))))"
proof -
  let ?qts = "TokenizeUnique U query" and ?n = "length msgs"
  let ?has = "\<lambda>t i. t \<in> set (TokenizeUnique U (msgs ! i))"
  define ids :: "string \<Rightarrow> u32 list" where "ids t = map of_nat (filter (?has t) [0..<?n])" for t
  have lk: "lookup Z (opened Z (build_index U msgs) k) t = Inr (ids t)" for t
    using lookup_opened [OF Z _ fits] build_index_spec [of U msgs] by (simp add: ids_def rows_with_def)
  have sorted: "sorted_wrt (<) (ids t)" for t unfolding ids_def by (rule of_nat_rows_sorted [OF n])
  obtain t ts where qts: "?qts = t # ts" using q by (cases ?qts) auto
  have rows: "map of_nat (rows_matching U msgs (set ?qts)) = filter (\<lambda>x. \<forall>l \<in> set (map ids ts). x \<in> set l) (ids t)"
  proof -
    have "filter (\<lambda>x. \<forall>l \<in> set (map ids ts). x \<in> set l) (ids t)
        = map of_nat (filter (\<lambda>i. \<forall>u \<in> set ts. (of_nat i :: u32) \<in> set (ids u)) (filter (?has t) [0..<?n]))"
      by (simp add: ids_def filter_map comp_def)
    also have "\<dots> = map of_nat (filter (\<lambda>i. \<forall>u \<in> set ts. ?has u i) (filter (?has t) [0..<?n]))"
      using of_nat_mem_iff [OF n] by (intro arg_cong [where f = "map of_nat"] filter_cong) (auto simp: ids_def)
    also have "\<dots> = map of_nat (rows_matching U msgs (set ?qts))"
      by (simp add: rows_matching_def qts subset_eq conj_commute)
    finally show ?thesis by simp
  qed
  have inter: "intersect_all (ids t) (map ids ts) = map of_nat (rows_matching U msgs (set ?qts))"
    unfolding rows using sorted by (intro intersect_all_filter) auto
  show ?thesis
  proof (cases "\<exists>u \<in> set ?qts. ids u = []")
    case True
    then obtain u where u: "u \<in> set (t # ts)" "ids u = []" unfolding qts by blast
    have "filter (\<lambda>x. \<forall>l \<in> set (map ids ts). x \<in> set l) (ids t) = []"
    proof (cases "u = t")
      case False
      then have "ids u \<in> set (map ids ts)" using u(1) by simp
      then show ?thesis using u(2) by (auto simp only: filter_empty_conv list.set empty_iff)
    qed (use u(2) in simp)
    then have "map of_nat (rows_matching U msgs (set ?qts)) = ([] :: u32 list)"
      unfolding rows .
    moreover have "gather Z (opened Z (build_index U msgs) k) ?qts = Inr None"
      using True by (simp add: gather_spec [OF lk])
    ultimately show ?thesis using q by (simp add: Search_def)
  next
    case False
    then have "gather Z (opened Z (build_index U msgs) k) ?qts = Inr (Some (map ids ?qts))"
      by (simp add: gather_spec [OF lk])
    then show ?thesis using inter q unfolding Search_def Let_def by (cases ts) (simp_all add: qts del: gather.simps)
  qed
qed

section \<open>Arbitrary index files\<close>

lemma term_at_no_panic: "term_at i tt off \<noteq> Inl Panic"
  by (auto simp: term_at_def Let_def rbind_Panic_iff get_u16_def get_u32_def)

lemma term_table_no_panic: "term_table_loop i k tt off \<noteq> Inl Panic"
  by (induction k arbitrary: i off) (auto simp: rbind_Panic_iff term_at_no_panic)

lemma open_index_no_panic: "OpenIndex data \<noteq> Inl Panic"
proof (cases "length data < 16")
  case False
  then have "4 \<le> length data - 12" "4 \<le> length data - 8" "4 \<le> length data - 4" by linarith+
  with False show ?thesis
    by (simp add: OpenIndex_def Let_def rbind_Panic_iff get_u32_def term_table_no_panic)
qed (simp add: OpenIndex_def)

lemma posting_ids_no_panic: "posting_ids raw prev off \<noteq> Inl Panic"
proof (induction "length raw - off" arbitrary: prev off rule: less_induct)
  case less
  show ?case
  proof (cases "off < length raw")
    case False
    then show ?thesis by (subst posting_ids.simps) simp
  next
    case True
    obtain d n where u: "uvarint (drop off raw) = (d, n)" by fastforce
    have "0 < n \<Longrightarrow> posting_ids raw (prev + ucast d) (off + nat n) \<noteq> Inl Panic"
      using True by (intro less) simp
    then show ?thesis using True u
      by (subst posting_ids.simps) (auto simp: rbind_Panic_iff Let_def)
  qed
qed

lemma lookup_no_panic:
  assumes "length (postingsData r) < 2 ^ 32"
  shows "lookup Z r t \<noteq> Inl Panic"
proof -
  have "unat (a + b) = unat a + unat b" if "unat a + unat b \<le> length (postingsData r)" for a b :: u32
    using that assms by (simp add: unat_word_ariths)
  then show ?thesis
    by (auto simp: lookup_def Let_def rbind_Panic_iff Decompress_def decompress_no_panic posting_ids_no_panic go_slice_def)
qed

section \<open>Properties\<close>

text \<open>C7: Full-text search over a sealed chunk is exact: the index the sealer writes for the messages of a
  chunk opens again, and searching it for a query with at least one token returns, in ascending order, the
  rows whose message has every token of the query, and no others.\<close>

theorem index_search_exact:
  assumes "zstd_lib Z" and "length msgs < 2 ^ 32" and "index_fits Z (build_index U msgs)"
    and "TokenizeUnique U query \<noteq> []"
  shows "\<exists>r. OpenIndex (IndexWrite Z (build_index U msgs) (length msgs)) = Inr r \<and>
    Search U Z r query = Inr (map of_nat (rows_matching U msgs (set (TokenizeUnique U query))))"
  using assms open_index [of Z "build_index U msgs" "length msgs"] search_built [of Z msgs U query "length msgs"] by auto

definition two_messages :: "string list" where
  "two_messages = [''disk full'', ''Disk ok'']"

lemma two_messages_index: "build_index ascii_unicode two_messages = [(''disk'', [0, 1]), (''full'', [0]), (''ok'', [1])]"
  by code_simp

theorem index_search_exact_witness:
  "\<exists>r. OpenIndex (IndexWrite stored_zstd (build_index ascii_unicode two_messages) 2) = Inr r \<and>
    Search ascii_unicode stored_zstd r ''DISK, ok!'' = Inr [1]"
proof -
  have fits: "index_fits stored_zstd (build_index ascii_unicode two_messages)"
    unfolding two_messages_index
    by (simp add: index_fits_def terms_get_def PutUvarint_def zstd_consts Compress_stored postings_def term_entry_bytes_def
        put_uvarint.simps [of 0] put_uvarint.simps [of 1])
  have q: "TokenizeUnique ascii_unicode ''DISK, ok!'' = [''disk'', ''ok'']" by code_simp
  have m: "rows_matching ascii_unicode two_messages {''disk'', ''ok''} = [1]" by code_simp
  have n: "length two_messages = 2" by (simp add: two_messages_def)
  show ?thesis
    using index_search_exact [OF stored_zstd_lib _ fits, of "''DISK, ok!''"] by (simp add: q m n)
qed

text \<open>C39: A token of exactly 65,536 bytes is lost: its 16-bit length is written as zero, so the index of a
  one-message chunk opens without an error and a search for that very message finds nothing.\<close>

theorem long_token_lost:
  assumes "TokenizeUnique U m = [t]" and "length t = 65536"
  shows "\<exists>r. OpenIndex (IndexWrite Z (build_index U [m]) 1) = Inr r \<and>
    rows_matching U [m] (set (TokenizeUnique U m)) = [0] \<and> Search U Z r m = Inr []"
proof -
  have ts: "build_index U [m] = [(t, [0])]"
    using assms by (simp add: build_index_def Add_def terms_get_def)
  define pb where "pb = postings Z [(t, [0])] t"
  define tt where "tt = term_entry_bytes \<lparr>iterm = t, postingsOffset = 0, postingsLen = of_nat (length pb)\<rparr>"
  have w: "IndexWrite Z [(t, [0])] 1 = bytes_of_string ''OTIX'' @ put_u32 1 @ put_u32 1 @ put_u32 (of_nat (length tt)) @ tt @ pb"
    by (simp add: IndexWrite_def build_postings_eq Let_def tt_def pb_def)
  have len: "length tt = 65546" using assms(2) by (simp add: tt_def term_entry_bytes_def)
  have head: "get_u16 tt = Inr 0" by (simp add: tt_def term_entry_bytes_def assms(2))
  obtain po pl where u: "get_u32 (drop 2 tt) = Inr po" "get_u32 (drop 6 tt) = Inr pl"
    using get_u32_no_panic [of "drop 2 tt"] get_u32_no_panic [of "drop 6 tt"] len by auto
  have four: "length (bytes_of_string ''OTIX'') = 4" by simp
  define r where "r = \<lparr>rterms = [\<lparr>iterm = [], postingsOffset = po, postingsLen = pl\<rparr>], postingsData = pb, entryCount = 1\<rparr>"
  have "term_at 0 tt 0 = Inr (\<lparr>iterm = [], postingsOffset = po, postingsLen = pl\<rparr>, 10)"
    using head u len by (simp add: term_at_def string_of_bytes_def numeral_2_eq_2)
  then have loop: "term_table_loop 0 1 tt 0 = Inr (rterms r)" by (simp add: r_def)
  have "OpenIndex (IndexWrite Z [(t, [0])] 1) = Inr r"
    using loop len unfolding OpenIndex_def w by (simp add: four Let_def go_slice_def r_def)
  moreover have "lookup Z r t = Inr []"
    using assms(2) by (auto simp: lookup_def r_def sort_Search_def search_loop.simps)
  ultimately show ?thesis using assms ts by (simp add: Search_def rows_matching_def)
qed

lemma tokenize_replicate: "2 \<le> n \<Longrightarrow> TokenizeUnique ascii_unicode (replicate n CHR ''a'') = [replicate n CHR ''a'']"
  by (intro tokenize_one_word) (simp_all add: ascii_unicode_def list_all_iff)

theorem long_token_lost_witness:
  "\<exists>r. OpenIndex (IndexWrite stored_zstd (build_index ascii_unicode [replicate 65536 CHR ''a'']) 1) = Inr r \<and>
    Search ascii_unicode stored_zstd r (replicate 65536 CHR ''a'') = Inr []"
proof -
  have n: "(2 :: nat) \<le> 65536" by simp
  show ?thesis
    using long_token_lost [OF tokenize_replicate [OF n] length_replicate, of stored_zstd] by blast
qed

end
