(* ===== verification/Lru.thy ===== *)
theory Lru
  imports Prelude
begin

text \<open>
  The byte-bounded LRU caches: parsed indexes (\<open>internal/logstore/index/cache.go\<close>) and decoded
  columns (\<open>internal/logstore/engine/colcache.go\<close>). The two keep the same state, a map \<open>items\<close> and a
  recency list \<open>lru\<close> (front = most recently used); they differ in the share of the budget one value may
  take. A list element is its entry: the keys in a list are distinct. Sizes are \<open>int64\<close> values far
  from the limits of the type, here \<open>int\<close>; the calls of one cache are serialised by its mutex.
\<close>

section \<open>State and operations\<close>

record ('k, 'v) cache_entry =
  ekey :: 'k
  evalue :: 'v
  ebytes :: int

record ('k, 'v) lru_cache =
  budget :: int
  used :: int
  items :: "'k \<Rightarrow> ('k, 'v) cache_entry option"
  lru :: "('k, 'v) cache_entry list"

text \<open>\<open>NewCache\<close> and \<open>newColumnCache\<close>: no cache (the nil pointer) for a budget that is not positive.\<close>

definition NewCache :: "int \<Rightarrow> ('k, 'v) lru_cache option" where
  "NewCache b = (if b \<le> 0 then None else Some \<lparr>budget = b, used = 0, items = (\<lambda>_. None), lru = []\<rparr>)"

definition newColumnCache :: "int \<Rightarrow> ('k, 'v) lru_cache option" where
  "newColumnCache b = (if b \<le> 0 then None else Some \<lparr>budget = b, used = 0, items = (\<lambda>_. None), lru = []\<rparr>)"

definition MoveToFront :: "('k, 'v) cache_entry \<Rightarrow> ('k, 'v) cache_entry list \<Rightarrow> ('k, 'v) cache_entry list" where
  "MoveToFront el l = el # remove1 el l"

definition cache_get :: "('k, 'v) lru_cache \<Rightarrow> 'k \<Rightarrow> 'v option \<times> ('k, 'v) lru_cache" where
  "cache_get c k =
     (case items c k of
        None \<Rightarrow> (None, c)
      | Some el \<Rightarrow> (Some (evalue el), c\<lparr>lru := MoveToFront el (lru c)\<rparr>))"

definition columnCache_get :: "('k, 'v) lru_cache option \<Rightarrow> 'k \<Rightarrow> 'v option \<times> ('k, 'v) lru_cache option" where
  "columnCache_get c k = (case c of None \<Rightarrow> (None, None) | Some c \<Rightarrow> map_prod id Some (cache_get c k))"

text \<open>The eviction loop of \<open>put\<close>; the flag is false when it returns early on an empty list.\<close>

function evict :: "int \<Rightarrow> ('k, 'v) lru_cache \<Rightarrow> bool \<times> ('k, 'v) lru_cache" where
  "evict sz c =
     (if used c + sz > budget c
      then if lru c = [] then (False, c)
           else let oldest = last (lru c)
                in evict sz (c\<lparr>items := (items c)(ekey oldest := None), lru := butlast (lru c), used := used c - ebytes oldest\<rparr>)
      else (True, c))"
  by pat_completeness auto
termination
  by (relation "measure (\<lambda>(sz, c). length (lru c))") auto

declare evict.simps [simp del]

definition push_entry :: "('k, 'v) lru_cache \<Rightarrow> ('k, 'v) cache_entry \<Rightarrow> ('k, 'v) lru_cache" where
  "push_entry c el = c\<lparr>items := (items c)(ekey el \<mapsto> el), lru := el # lru c, used := used c + ebytes el\<rparr>"

definition put_locked :: "('k, 'v) lru_cache \<Rightarrow> 'k \<Rightarrow> 'v \<Rightarrow> int \<Rightarrow> ('k, 'v) lru_cache" where
  "put_locked c k v sz =
     (case items c k of
        Some el \<Rightarrow> c\<lparr>lru := MoveToFront el (lru c)\<rparr>
      | None \<Rightarrow>
          let (room, c) = evict sz c
          in if room then push_entry c \<lparr>ekey = k, evalue = v, ebytes = sz\<rparr> else c)"

definition cache_put :: "('k, 'v) lru_cache \<Rightarrow> 'k \<Rightarrow> 'v \<Rightarrow> int \<Rightarrow> ('k, 'v) lru_cache" where
  "cache_put c k v sz = (if sz \<le> 0 \<or> sz > budget c div 2 then c else put_locked c k v sz)"

definition maxColumnShareOfBudget :: int where "maxColumnShareOfBudget = 4"

definition columnCache_put :: "('k, 'v) lru_cache option \<Rightarrow> 'k \<Rightarrow> 'v \<Rightarrow> int \<Rightarrow> ('k, 'v) lru_cache option" where
  "columnCache_put c k v sz =
     (case c of
        None \<Rightarrow> None
      | Some c \<Rightarrow> Some (if sz \<le> 0 \<or> sz > budget c div maxColumnShareOfBudget then c else put_locked c k v sz))"

definition cache_Stats :: "('k, 'v) lru_cache option \<Rightarrow> nat \<times> int" where
  "cache_Stats c = (case c of None \<Rightarrow> (0, 0) | Some c \<Rightarrow> (card (dom (items c)), used c))"

section \<open>Invariant\<close>

text \<open>
  The map and the list hold the same entries, the accounted bytes are the sum of the entries' sizes, and
  they stay within the budget.
\<close>

definition total_bytes :: "('k, 'v) cache_entry list \<Rightarrow> int" where
  "total_bytes l = sum_list (map ebytes l)"

definition lru_inv :: "('k, 'v) lru_cache \<Rightarrow> bool" where
  "lru_inv c \<longleftrightarrow>
     0 < budget c \<and> distinct (map ekey (lru c)) \<and> list_all (\<lambda>e. 0 < ebytes e) (lru c) \<and>
     (\<forall>k. items c k = find (\<lambda>e. ekey e = k) (lru c)) \<and>
     used c = total_bytes (lru c) \<and> used c \<le> budget c"

definition view :: "('k, 'v) lru_cache \<Rightarrow> 'k \<Rightarrow> 'v option" where
  "view c k = map_option evalue (items c k)"

lemma total_bytes_simps [simp]: "total_bytes [] = 0" "total_bytes (e # l) = ebytes e + total_bytes l"
  "total_bytes (l @ l') = total_bytes l + total_bytes l'"
  by (simp_all add: total_bytes_def)

lemma total_bytes_remove1: "e \<in> set l \<Longrightarrow> total_bytes (remove1 e l) = total_bytes l - ebytes e"
  by (induction l) auto

lemma find_ekey_Some: "find (\<lambda>e. ekey e = k) l = Some e \<Longrightarrow> e \<in> set l \<and> ekey e = k"
  by (induction l) (auto split: if_splits)

lemma find_ekey_None: "find (\<lambda>e. ekey e = k) l = None \<longleftrightarrow> k \<notin> ekey ` set l"
  by (auto simp: find_None_iff)

lemma find_ekey_iff: "distinct (map ekey l) \<Longrightarrow> find (\<lambda>e. ekey e = k) l = Some e \<longleftrightarrow> e \<in> set l \<and> ekey e = k"
  by (induction l) (auto split: if_splits simp: rev_image_eqI)

lemma find_ekey_set:
  assumes "distinct (map ekey l)" "distinct (map ekey l')" "set l = set l'"
  shows "find (\<lambda>e. ekey e = k) l = find (\<lambda>e. ekey e = k) l'"
proof (cases "find (\<lambda>e. ekey e = k) l")
  case None
  then show ?thesis using assms(3) by (metis find_ekey_None)
next
  case (Some e)
  then show ?thesis using assms by (metis find_ekey_iff)
qed

lemma distinct_map_remove1: "distinct (map f l) \<Longrightarrow> distinct (map f (remove1 x l))"
  by (induction l) (use notin_set_remove1 in \<open>auto simp: image_iff\<close>)

lemma MoveToFront_facts:
  assumes "distinct (map ekey l)" "el \<in> set l"
  shows "distinct (map ekey (MoveToFront el l))" and "set (MoveToFront el l) = set l"
    and "total_bytes (MoveToFront el l) = total_bytes l"
proof -
  have d: "distinct l" using assms(1) by (simp add: distinct_map)
  have "ekey el \<notin> ekey ` set (remove1 el l)"
    using assms d by (auto simp: distinct_map inj_on_def)
  then show "distinct (map ekey (MoveToFront el l))"
    using assms(1) by (simp add: MoveToFront_def distinct_map_remove1)
  show "set (MoveToFront el l) = set l" using assms d by (auto simp: MoveToFront_def)
  show "total_bytes (MoveToFront el l) = total_bytes l"
    using assms by (simp add: MoveToFront_def total_bytes_remove1)
qed

lemma move_inv:
  assumes inv: "lru_inv c" and el: "items c k = Some el"
  shows "lru_inv (c\<lparr>lru := MoveToFront el (lru c)\<rparr>)"
proof -
  have d: "distinct (map ekey (lru c))" and it: "\<And>k. items c k = find (\<lambda>e. ekey e = k) (lru c)"
    using inv by (simp_all add: lru_inv_def)
  have m: "el \<in> set (lru c)" using el it find_ekey_Some by metis
  note f = MoveToFront_facts [OF d m]
  have "items c k = find (\<lambda>e. ekey e = k) (MoveToFront el (lru c))" for k
    unfolding it by (rule find_ekey_set) (use d f in simp_all)
  then show ?thesis using inv f by (simp add: lru_inv_def list_all_iff)
qed

section \<open>Eviction\<close>

lemma find_butlast:
  assumes "distinct (map ekey l)" "l \<noteq> []"
  shows "find (\<lambda>e. ekey e = k) (butlast l) = (if k = ekey (last l) then None else find (\<lambda>e. ekey e = k) l)"
proof -
  obtain l' x where l: "l = l' @ [x]" using assms(2) by (metis rev_exhaust)
  have "find P (l' @ [x]) = (case find P l' of None \<Rightarrow> if P x then Some x else None | Some e \<Rightarrow> Some e)" for P
    by (induction l') auto
  moreover have "ekey x \<notin> ekey ` set l'" using assms(1) l by auto
  ultimately show ?thesis unfolding l
    by (auto split: option.split simp: find_ekey_None dest!: find_ekey_Some)
qed

text \<open>Eviction drops the shortest suffix of the recency list that leaves room for \<open>sz\<close> more bytes.\<close>

definition evicts :: "int \<Rightarrow> ('k, 'v) cache_entry list \<Rightarrow> int \<Rightarrow> nat \<Rightarrow> bool" where
  "evicts b l sz n \<longleftrightarrow> n \<le> length l \<and> total_bytes (take n l) + sz \<le> b \<and> (n < length l \<longrightarrow> b < total_bytes (take (Suc n) l) + sz)"

lemma evicts_snoc: "evicts b l sz n \<Longrightarrow> b < total_bytes (l @ [x]) + sz \<Longrightarrow> evicts b (l @ [x]) sz n"
  by (cases "n = length l") (simp_all add: evicts_def)

lemma evict_spec:
  assumes "lru_inv c" "0 < sz" "sz \<le> budget c"
  shows "\<exists>n c'. evict sz c = (True, c') \<and> lru_inv c' \<and> budget c' = budget c \<and> lru c' = take n (lru c) \<and>
    evicts (budget c) (lru c) sz n"
  using assms
proof (induction sz c rule: evict.induct)
  case (1 sz c)
  show ?case
  proof (cases "used c + sz > budget c")
    case False
    then show ?thesis using "1.prems"
      by (intro exI [of _ "length (lru c)"] exI [of _ c]) (simp add: evict.simps lru_inv_def evicts_def)
  next
    case True
    then have ne: "lru c \<noteq> []" using "1.prems" by (auto simp: lru_inv_def)
    define d where "d = c\<lparr>items := (items c)(ekey (last (lru c)) := None), lru := butlast (lru c), used := used c - ebytes (last (lru c))\<rparr>"
    have split: "lru c = lru d @ [last (lru c)]" using ne by (simp add: d_def)
    have "total_bytes (lru c) = total_bytes (lru d) + ebytes (last (lru c))" by (subst split) simp
    moreover have "0 < ebytes (last (lru c))" using "1.prems"(1) ne by (simp add: lru_inv_def list_all_iff)
    moreover have "total_bytes (lru c) \<le> budget c" using "1.prems"(1) by (simp add: lru_inv_def)
    ultimately have "total_bytes (lru d) \<le> budget c" "total_bytes (lru d) = used d"
      using "1.prems"(1) by (simp_all add: lru_inv_def d_def)
    then have "lru_inv d" using "1.prems"(1) ne
      by (simp add: lru_inv_def d_def find_butlast map_butlast distinct_butlast list_all_iff in_set_butlastD)
    then have "\<exists>n c'. evict sz d = (True, c') \<and> lru_inv c' \<and> budget c' = budget d \<and> lru c' = take n (lru d) \<and>
        evicts (budget d) (lru d) sz n"
      using "1.IH" [OF True ne refl] "1.prems" by (simp add: d_def)
    then obtain n c' where e: "evict sz d = (True, c')" "lru_inv c'" "budget c' = budget d" "lru c' = take n (lru d)"
        "evicts (budget d) (lru d) sz n"
      by blast
    have step: "evict sz c = evict sz d" using True ne by (subst evict.simps) (simp add: d_def Let_def)
    have bd: "budget d = budget c" by (simp add: d_def)
    have "total_bytes (lru d @ [last (lru c)]) + sz > budget c"
      using True "1.prems"(1) unfolding split [symmetric] by (simp add: lru_inv_def)
    then have "evicts (budget c) (lru d @ [last (lru c)]) sz n"
      using e(5) bd by (intro evicts_snoc) simp_all
    then have ev: "evicts (budget c) (lru c) sz n" unfolding split [symmetric] .
    have "take n (lru d @ [last (lru c)]) = take n (lru d)" using e(5) by (simp add: evicts_def)
    then have "take n (lru d) = take n (lru c)" unfolding split [symmetric] by simp
    then show ?thesis using e ev bd step by (intro exI [of _ n] exI [of _ c']) simp
  qed
qed

lemma put_locked_spec:
  assumes inv: "lru_inv c" and sz: "0 < sz" "sz \<le> budget c" and new: "items c k = None"
  shows "\<exists>n. evicts (budget c) (lru c) sz n \<and> lru_inv (put_locked c k v sz) \<and>
    lru (put_locked c k v sz) = \<lparr>ekey = k, evalue = v, ebytes = sz\<rparr> # take n (lru c)"
proof -
  let ?el = "\<lparr>ekey = k, evalue = v, ebytes = sz\<rparr>"
  obtain n c' where e: "evict sz c = (True, c')" "lru_inv c'" "budget c' = budget c" "lru c' = take n (lru c)"
      "evicts (budget c) (lru c) sz n"
    using evict_spec [OF inv sz] by blast
  have p: "put_locked c k v sz = push_entry c' ?el" using new e(1) by (simp add: put_locked_def)
  have "k \<notin> ekey ` set (lru c)" using inv new by (simp add: lru_inv_def find_ekey_None)
  then have fresh: "k \<notin> ekey ` set (lru c')" using e(4) set_take_subset [of n "lru c"] by auto
  have "lru_inv (push_entry c' ?el)"
    using e(2,5) fresh sz(1) e(3,4) by (auto simp: lru_inv_def push_entry_def evicts_def)
  then show ?thesis using p e by (auto simp: push_entry_def)
qed

section \<open>The contract of a cache\<close>

text \<open>
  What the users of a cache rely on: \<open>get\<close> answers from the cached entries and changes none of them, and
  \<open>put\<close> adds at most the entry it is given. Entries may disappear at any \<open>put\<close>.
\<close>

locale byte_lru =
  fixes get :: "'c \<Rightarrow> 'k \<Rightarrow> 'v option \<times> 'c"
    and put :: "'c \<Rightarrow> 'k \<Rightarrow> 'v \<Rightarrow> int \<Rightarrow> 'c"
    and invar :: "'c \<Rightarrow> bool"
    and entries :: "'c \<Rightarrow> 'k \<Rightarrow> 'v option"
  assumes get_result: "invar c \<Longrightarrow> fst (get c k) = entries c k"
    and get_entries: "invar c \<Longrightarrow> entries (snd (get c k)) = entries c"
    and get_invar: "invar c \<Longrightarrow> invar (snd (get c k))"
    and put_invar: "invar c \<Longrightarrow> invar (put c k v sz)"
    and put_entries: "invar c \<Longrightarrow> entries (put c k v sz) k' = Some w \<Longrightarrow> entries c k' = Some w \<or> (k' = k \<and> w = v)"
begin

definition coherent :: "('k \<Rightarrow> 'v res) \<Rightarrow> 'c \<Rightarrow> bool" where
  "coherent load c \<longleftrightarrow> invar c \<and> (\<forall>k v. entries c k = Some v \<longrightarrow> load k = Inr v)"

lemma coherent_get: "coherent load c \<Longrightarrow> coherent load (snd (get c k))"
  by (simp add: coherent_def get_entries get_invar)

lemma coherent_put: "coherent load c \<Longrightarrow> load k = Inr v \<Longrightarrow> coherent load (put c k v sz)"
  unfolding coherent_def using put_entries put_invar by blast

lemma coherent_hit: "coherent load c \<Longrightarrow> get c k = (Some v, c') \<Longrightarrow> load k = Inr v"
  unfolding coherent_def using get_result by (metis fst_conv)

end

text \<open>
  Loading through a cache, as \<open>Cache.Open\<close> and \<open>memoColumn\<close> do it. The inner load, the function given
  to \<open>singleflight\<close>, looks up again, loads and stores; for a single caller \<open>singleflight\<close> is the call of
  that function.
\<close>

definition load_once ::
  "('c \<Rightarrow> 'k \<Rightarrow> 'v option \<times> 'c) \<Rightarrow> ('c \<Rightarrow> 'k \<Rightarrow> 'v \<Rightarrow> int \<Rightarrow> 'c) \<Rightarrow> ('k \<Rightarrow> 'v res) \<Rightarrow> ('k \<Rightarrow> 'v \<Rightarrow> int) \<Rightarrow> 'c \<Rightarrow> 'k \<Rightarrow> 'v res \<times> 'c" where
  "load_once get put load sizeOf c k =
     (case get c k of
        (Some v, c) \<Rightarrow> (Inr v, c)
      | (None, c) \<Rightarrow>
          (case load k of
             Inl e \<Rightarrow> (Inl e, c)
           | Inr v \<Rightarrow> (Inr v, put c k v (sizeOf k v))))"

definition memo_load ::
  "('c \<Rightarrow> 'k \<Rightarrow> 'v option \<times> 'c) \<Rightarrow> ('c \<Rightarrow> 'k \<Rightarrow> 'v \<Rightarrow> int \<Rightarrow> 'c) \<Rightarrow> ('k \<Rightarrow> 'v res) \<Rightarrow> ('k \<Rightarrow> 'v \<Rightarrow> int) \<Rightarrow> 'c \<Rightarrow> 'k \<Rightarrow> 'v res \<times> 'c" where
  "memo_load get put load sizeOf c k =
     (case get c k of
        (Some v, c) \<Rightarrow> (Inr v, c)
      | (None, c) \<Rightarrow> load_once get put load sizeOf c k)"

context byte_lru
begin

lemma load_once_transparent:
  assumes "coherent load c"
  shows "fst (load_once get put load sizeOf c k) = load k \<and> coherent load (snd (load_once get put load sizeOf c k))"
proof -
  obtain r c' where g: "get c k = (r, c')" by fastforce
  have c': "coherent load c'" using coherent_get [OF assms, of k] g by simp
  show ?thesis
    using coherent_hit [OF assms, of k] coherent_put [OF c', of k] c' g
    by (auto simp: load_once_def split: option.split sum.split)
qed

lemma memo_transparent:
  assumes "coherent load c"
  shows "fst (memo_load get put load sizeOf c k) = load k \<and> coherent load (snd (memo_load get put load sizeOf c k))"
proof -
  obtain r c' where g: "get c k = (r, c')" by fastforce
  have c': "coherent load c'" using coherent_get [OF assms, of k] g by simp
  show ?thesis
    using coherent_hit [OF assms, of k] load_once_transparent [OF c', of sizeOf k] c' g
    by (auto simp: memo_load_def split: option.split)
qed

end

lemma get_view: "lru_inv c \<Longrightarrow> fst (cache_get c k) = view c k \<and> view (snd (cache_get c k)) = view c \<and> lru_inv (snd (cache_get c k))"
proof (cases "items c k")
  case (Some el)
  moreover assume "lru_inv c"
  ultimately show ?thesis using move_inv [of c k el] by (simp add: cache_get_def view_def fun_eq_iff)
qed (simp add: cache_get_def view_def)

lemma view_put_locked:
  assumes "lru_inv c" "0 < sz" "sz \<le> budget c" "view (put_locked c k v sz) k' = Some w"
  shows "view c k' = Some w \<or> (k' = k \<and> w = v)"
proof (cases "items c k")
  case (Some el)
  then show ?thesis using assms(4) by (simp add: put_locked_def view_def)
next
  case None
  then obtain n where n: "lru_inv (put_locked c k v sz)"
      "lru (put_locked c k v sz) = \<lparr>ekey = k, evalue = v, ebytes = sz\<rparr> # take n (lru c)"
    using put_locked_spec [OF assms(1-3)] by blast
  obtain e where it: "items (put_locked c k v sz) k' = Some e" and w: "w = evalue e"
    using assms(4) by (auto simp: view_def)
  have "items (put_locked c k v sz) k' = find (\<lambda>e. ekey e = k') (lru (put_locked c k v sz))"
    using n(1) by (simp add: lru_inv_def)
  with it have e: "e \<in> set (lru (put_locked c k v sz))" "ekey e = k'"
    using find_ekey_Some [of k' _ e] by simp_all
  then show ?thesis
  proof (cases "e \<in> set (lru c)")
    case True
    then have "items c k' = Some e" using e(2) assms(1) by (simp add: lru_inv_def find_ekey_iff)
    then show ?thesis using w by (simp add: view_def)
  next
    case False
    then have "e = \<lparr>ekey = k, evalue = v, ebytes = sz\<rparr>"
      using e(1) unfolding n(2) by (auto dest: in_set_takeD)
    then show ?thesis using e(2) w by simp
  qed
qed

lemma put_locked_inv:
  assumes "lru_inv c" "0 < sz" "sz \<le> budget c"
  shows "lru_inv (put_locked c k v sz)"
proof (cases "items c k")
  case (Some el)
  then show ?thesis using move_inv [OF assms(1), of k el] by (simp add: put_locked_def)
next
  case None
  then show ?thesis using put_locked_spec [OF assms None] by blast
qed

text \<open>The two caches of the log store satisfy the contract.\<close>

interpretation index_cache: byte_lru cache_get cache_put lru_inv view
proof
  fix c :: "('k, 'v) lru_cache" and k k' v w sz
  assume inv: "lru_inv c"
  show "fst (cache_get c k) = view c k" "view (snd (cache_get c k)) = view c" "lru_inv (snd (cache_get c k))"
    using get_view [OF inv] by auto
  have sz: "sz \<le> budget c" if "0 < sz" "\<not> budget c div 2 < sz" using that inv by (simp add: lru_inv_def)
  show "lru_inv (cache_put c k v sz)" using inv sz by (auto simp: cache_put_def intro!: put_locked_inv)
  show "view c k' = Some w \<or> (k' = k \<and> w = v)" if "view (cache_put c k v sz) k' = Some w"
    using that inv sz view_put_locked [of c sz k v k' w] by (auto simp: cache_put_def split: if_splits)
qed

definition column_inv :: "('k, 'v) lru_cache option \<Rightarrow> bool" where
  "column_inv c = (case c of None \<Rightarrow> True | Some c \<Rightarrow> lru_inv c)"

definition column_view :: "('k, 'v) lru_cache option \<Rightarrow> 'k \<Rightarrow> 'v option" where
  "column_view c k = (case c of None \<Rightarrow> None | Some c \<Rightarrow> view c k)"

interpretation column_cache: byte_lru columnCache_get columnCache_put column_inv column_view
proof
  fix c :: "('k, 'v) lru_cache option" and k k' v w sz
  assume inv: "column_inv c"
  show "fst (columnCache_get c k) = column_view c k" "column_view (snd (columnCache_get c k)) = column_view c"
    "column_inv (snd (columnCache_get c k))"
    using inv by (cases c; simp add: columnCache_get_def column_view_def column_inv_def fun_eq_iff get_view)+
  have sz: "sz \<le> budget d" if "0 < sz" "\<not> budget d div maxColumnShareOfBudget < sz" "lru_inv d" for d :: "('k, 'v) lru_cache"
    using that by (simp add: lru_inv_def maxColumnShareOfBudget_def)
  show "column_inv (columnCache_put c k v sz)"
    using inv sz by (auto simp: columnCache_put_def column_inv_def intro!: put_locked_inv split: option.split)
  show "column_view c k' = Some w \<or> (k' = k \<and> w = v)" if "column_view (columnCache_put c k v sz) k' = Some w"
    using that inv sz view_put_locked [of "the c" sz k v k' w] by (auto simp: columnCache_put_def column_inv_def column_view_def split: option.splits if_splits)
qed

lemma NewCache_inv: "NewCache b = Some c \<Longrightarrow> lru_inv c \<and> view c = (\<lambda>_. None)"
  by (auto simp: NewCache_def lru_inv_def view_def split: if_splits)

lemma newColumnCache_inv: "column_inv (newColumnCache b) \<and> column_view (newColumnCache b) = (\<lambda>_. None)"
  by (auto simp: newColumnCache_def column_inv_def column_view_def lru_inv_def view_def split: option.split)

section \<open>Properties\<close>

text \<open>C24: Storing a new value that fits half of the budget evicts from the cold end only, and no more than it
  must: the list becomes the new entry followed by the longest prefix of the old list that leaves room, and
  the invariant (map and list agree, accounted bytes exact, budget kept) holds again.\<close>

theorem lru_put_exact:
  assumes "lru_inv c" and "0 < sz" and "sz \<le> budget c div 2" and "items c k = None"
  shows "\<exists>n. evicts (budget c) (lru c) sz n \<and> lru_inv (cache_put c k v sz) \<and>
    lru (cache_put c k v sz) = \<lparr>ekey = k, evalue = v, ebytes = sz\<rparr> # take n (lru c)"
proof -
  have "0 < budget c" using assms(1) by (simp add: lru_inv_def)
  then have "sz \<le> budget c" using assms(3) by linarith
  then show ?thesis using put_locked_spec [OF assms(1,2) _ assms(4)] assms(2,3) by (simp add: cache_put_def)
qed

definition two_entries :: "(string, nat) lru_cache" where
  "two_entries = the (NewCache 10)\<lparr>used := 8, items := [''a'' \<mapsto> \<lparr>ekey = ''a'', evalue = 1, ebytes = 5\<rparr>, ''b'' \<mapsto> \<lparr>ekey = ''b'', evalue = 2, ebytes = 3\<rparr>],
     lru := [\<lparr>ekey = ''a'', evalue = 1, ebytes = 5\<rparr>, \<lparr>ekey = ''b'', evalue = 2, ebytes = 3\<rparr>]\<rparr>"

theorem lru_put_exact_witness:
  "\<exists>n. evicts 10 (lru two_entries) 4 n \<and> lru (cache_put two_entries ''c'' 3 4) = \<lparr>ekey = ''c'', evalue = 3, ebytes = 4\<rparr> # take n (lru two_entries) \<and> lru_inv (cache_put two_entries ''c'' 3 4)"
proof -
  have inv: "lru_inv two_entries" by (auto simp: two_entries_def NewCache_def lru_inv_def)
  have b: "budget two_entries = 10" "items two_entries ''c'' = None" by (simp_all add: two_entries_def NewCache_def)
  show ?thesis using lru_put_exact [OF inv, of 4 "''c''" 3] b by auto
qed

end
