(* ===== verification/Index_Cache.thy ===== *)
theory Index_Cache
  imports Index Lru
begin

text \<open>
  Opening an index through the cache, \<open>internal/logstore/index/cache.go\<close>. The files are a parameter:
  \<open>ReadFile\<close> gives the bytes of a path or the error of the read, \<open>Stat\<close> its size. An index file is
  written once, so the same function answers every call.
\<close>

definition OpenIndexFile :: "(string \<Rightarrow> bytes res) \<Rightarrow> string \<Rightarrow> IndexReader res" where
  "OpenIndexFile ReadFile path = rbind (wrapf ''read index'' [] (ReadFile path)) OpenIndex"

definition index_size :: "(string \<Rightarrow> int option) \<Rightarrow> string \<Rightarrow> IndexReader \<Rightarrow> int" where
  "index_size Stat path r =
     (case Stat path of Some n \<Rightarrow> n | None \<Rightarrow> 0) + sum_list (map (\<lambda>t. int (length (iterm t)) + 24) (rterms r))"

definition Cache_Open ::
  "(string \<Rightarrow> bytes res) \<Rightarrow> (string \<Rightarrow> int option) \<Rightarrow> (string, IndexReader) lru_cache option \<Rightarrow> string \<Rightarrow>
   IndexReader res \<times> (string, IndexReader) lru_cache option" where
  "Cache_Open ReadFile Stat c path =
     (case c of
        None \<Rightarrow> (OpenIndexFile ReadFile path, None)
      | Some c \<Rightarrow> map_prod id Some (memo_load cache_get cache_put (OpenIndexFile ReadFile) (index_size Stat) c path))"

text \<open>A sequence of calls on one cache.\<close>

fun open_all ::
  "(string \<Rightarrow> bytes res) \<Rightarrow> (string \<Rightarrow> int option) \<Rightarrow> (string, IndexReader) lru_cache option \<Rightarrow> string list \<Rightarrow> IndexReader res list" where
  "open_all ReadFile Stat c [] = []"
| "open_all ReadFile Stat c (p # ps) =
     (let (r, c) = Cache_Open ReadFile Stat c p in r # open_all ReadFile Stat c ps)"

lemma Cache_Open_ok:
  "pred_option (index_cache.coherent (OpenIndexFile rf)) c \<Longrightarrow>
   fst (Cache_Open rf st c p) = OpenIndexFile rf p \<and> pred_option (index_cache.coherent (OpenIndexFile rf)) (snd (Cache_Open rf st c p))"
  using index_cache.memo_transparent [of "OpenIndexFile rf"] by (auto simp: Cache_Open_def split: option.split)

lemma open_all_coherent:
  "pred_option (index_cache.coherent (OpenIndexFile rf)) c \<Longrightarrow> open_all rf st c ps = map (OpenIndexFile rf) ps"
proof (induction ps arbitrary: c)
  case Nil
  show ?case by simp
next
  case (Cons p ps)
  show ?case using Cache_Open_ok [OF Cons.prems, of st p] Cons.IH by (auto split: prod.split)
qed

text \<open>C26: The index cache is invisible: whatever the budget, any sequence of opens through a fresh cache
  returns for every path exactly what parsing the file returns, errors included.\<close>

theorem index_cache_transparent:
  "open_all ReadFile Stat (NewCache b) paths = map (OpenIndexFile ReadFile) paths"
proof (rule open_all_coherent)
  show "pred_option (index_cache.coherent (OpenIndexFile ReadFile)) (NewCache b)"
    using NewCache_inv [of b] by (cases "NewCache b :: (string, IndexReader) lru_cache option") (auto simp: index_cache.coherent_def)
qed

end
