(* ===== verification/Entry.thy ===== *)
theory Entry
  imports Prelude
begin

text \<open>
  The log entry and the column schema, \<open>internal/logstore/chunk/schema.go\<close>. The fields keep
  the source's names and order; Go's \<open>int\<close> and \<open>int64\<close> are 64-bit words read in two's
  complement, \<open>*bool\<close> is an option, and the raw JSON body is its bytes (empty when absent).
\<close>

record Entry =
  ID :: int64
  Ts :: int64
  ReceivedAt :: int64
  Level :: string
  Service :: string
  Message :: string
  Env :: string
  Version :: string
  Host :: string
  Kind :: string
  EventType :: string
  TraceID :: string
  SpanID :: string
  ParentSpanID :: string
  RequestID :: string
  UserID :: string
  TenantID :: string
  SessionID :: string
  Method :: string
  Path :: string
  Route :: string
  Handler :: string
  Status :: int64
  DurationMs :: int64
  DbMs :: int64
  DbCount :: int64
  CacheMs :: int64
  CacheHits :: int64
  CacheMisses :: int64
  ExtMs :: int64
  ExtCount :: int64
  RenderMs :: int64
  AllocCount :: int64
  MemDeltaMb :: int64
  NPlusOne :: "bool option"
  SlowQueries :: int64
  DupQueries :: int64
  ErrorClass :: string
  ErrorMessage :: string
  SourceFile :: string
  SourceLine :: int64
  ErrorFingerprint :: string
  JobClass :: string
  JobQueue :: string
  JobID :: string
  QueueMs :: int64
  Body :: bytes

definition zero_entry :: Entry where
  "zero_entry = \<lparr>
     ID = 0,
     Ts = 0,
     ReceivedAt = 0,
     Level = [],
     Service = [],
     Message = [],
     Env = [],
     Version = [],
     Host = [],
     Kind = [],
     EventType = [],
     TraceID = [],
     SpanID = [],
     ParentSpanID = [],
     RequestID = [],
     UserID = [],
     TenantID = [],
     SessionID = [],
     Method = [],
     Path = [],
     Route = [],
     Handler = [],
     Status = 0,
     DurationMs = 0,
     DbMs = 0,
     DbCount = 0,
     CacheMs = 0,
     CacheHits = 0,
     CacheMisses = 0,
     ExtMs = 0,
     ExtCount = 0,
     RenderMs = 0,
     AllocCount = 0,
     MemDeltaMb = 0,
     NPlusOne = None,
     SlowQueries = 0,
     DupQueries = 0,
     ErrorClass = [],
     ErrorMessage = [],
     SourceFile = [],
     SourceLine = 0,
     ErrorFingerprint = [],
     JobClass = [],
     JobQueue = [],
     JobID = [],
     QueueMs = 0,
     Body = []\<rparr>"

datatype ColumnType =
    ColDeltaVarint
  | ColZstdInt64
  | ColDictBitpack
  | ColDictZstd
  | ColZstdBlock
  | ColSparseString
  | ColSparseInt64
  | ColSparseBool
  | ColSparseBytes
  | ColSparseDictZstd

definition column_type_code :: "ColumnType \<Rightarrow> byte" where
  "column_type_code t = (case t of ColDeltaVarint \<Rightarrow> 1 | ColZstdInt64 \<Rightarrow> 2 | ColDictBitpack \<Rightarrow> 3
     | ColDictZstd \<Rightarrow> 4 | ColZstdBlock \<Rightarrow> 5 | ColSparseString \<Rightarrow> 6 | ColSparseInt64 \<Rightarrow> 7
     | ColSparseBool \<Rightarrow> 8 | ColSparseBytes \<Rightarrow> 9 | ColSparseDictZstd \<Rightarrow> 10)"

definition Schema :: "(string \<times> ColumnType) list" where
  "Schema =
    [(''id'', ColDeltaVarint),
     (''ts'', ColZstdInt64),
     (''received_at'', ColDeltaVarint),
     (''level'', ColDictBitpack),
     (''service'', ColDictZstd),
     (''message'', ColZstdBlock),
     (''env'', ColDictZstd),
     (''version'', ColSparseDictZstd),
     (''host'', ColSparseDictZstd),
     (''kind'', ColDictZstd),
     (''event_type'', ColSparseDictZstd),
     (''trace_id'', ColSparseString),
     (''span_id'', ColSparseString),
     (''parent_span_id'', ColSparseString),
     (''request_id'', ColSparseString),
     (''user_id'', ColSparseString),
     (''tenant_id'', ColSparseDictZstd),
     (''session_id'', ColSparseString),
     (''method'', ColSparseDictZstd),
     (''path'', ColSparseString),
     (''route'', ColSparseDictZstd),
     (''handler'', ColSparseDictZstd),
     (''status'', ColSparseDictZstd),
     (''duration_ms'', ColSparseInt64),
     (''db_ms'', ColSparseInt64),
     (''db_count'', ColSparseInt64),
     (''cache_ms'', ColSparseInt64),
     (''cache_hits'', ColSparseInt64),
     (''cache_misses'', ColSparseInt64),
     (''ext_ms'', ColSparseInt64),
     (''ext_count'', ColSparseInt64),
     (''render_ms'', ColSparseInt64),
     (''alloc_count'', ColSparseInt64),
     (''mem_delta_mb'', ColSparseInt64),
     (''n_plus_one'', ColSparseBool),
     (''slow_queries'', ColSparseInt64),
     (''dup_queries'', ColSparseInt64),
     (''error_class'', ColSparseDictZstd),
     (''error_message'', ColSparseString),
     (''source_file'', ColSparseString),
     (''source_line'', ColSparseInt64),
     (''error_fingerprint'', ColSparseString),
     (''job_class'', ColSparseDictZstd),
     (''job_queue'', ColSparseDictZstd),
     (''job_id'', ColSparseString),
     (''queue_ms'', ColSparseInt64),
     (''body'', ColSparseBytes)]"

lemma column_type_code_inj: "column_type_code s = column_type_code t \<longleftrightarrow> s = t"
  by (cases s; cases t) (simp_all add: column_type_code_def)

lemma schema_columns: "length Schema = 47" "distinct (map fst Schema)"
  by (simp_all add: Schema_def)

end
