(* ===== verification/Strlen.thy ===== *)
theory Strlen
  imports Go_Binary
begin

text \<open>
  Length-prefixed values, \<open>internal/logstore/encoding/strlen.go\<close>: the prefix is a \<open>uint16\<close>, and in
  the extended format the value \<open>0xFFFF\<close> escapes to a following \<open>uint32\<close>. The writer always uses
  the extended format; the readers take the format of the file.
\<close>

datatype LenFormat = LenUint16 | LenExtended

definition extendedLenMarker :: nat where "extendedLenMarker = 0xFFFF"
definition maxUint16Len :: nat where "maxUint16Len = extendedLenMarker - 1"
definition MaxValueBytes :: nat where "MaxValueBytes = 2 ^ 30"

definition appendLen :: "bytes \<Rightarrow> nat \<Rightarrow> bytes" where
  "appendLen buf n =
     (if n \<le> maxUint16Len then buf @ put_u16 (of_nat n)
      else (buf @ put_u16 (of_nat extendedLenMarker)) @ put_u32 (of_nat n))"

definition AppendLenString :: "bytes \<Rightarrow> string \<Rightarrow> bytes" where
  "AppendLenString buf s = appendLen buf (length s) @ bytes_of_string s"

definition AppendLenBytes :: "bytes \<Rightarrow> bytes \<Rightarrow> bytes" where
  "AppendLenBytes buf b = appendLen buf (length b) @ b"

definition ReadLen :: "LenFormat \<Rightarrow> bytes \<Rightarrow> nat \<Rightarrow> (nat \<times> nat) res" where
  "ReadLen f data off =
     (if off + 2 > length data
      then Inl (Errorf ''truncated length prefix at offset %d'' [D (int off)])
      else rbind (rbind (go_from data off) get_u16) (\<lambda>w.
        let n = unat w; off = off + 2;
            checked = (\<lambda>n off.
              if n > MaxValueBytes
              then Inl (Errorf ''value length %d out of range at offset %d'' [D (int n), D (int off)])
              else Inr (n, off))
        in if f = LenExtended \<and> n = extendedLenMarker
           then if off + 4 > length data
                then Inl (Errorf ''truncated extended length prefix at offset %d'' [D (int off)])
                else rbind (rbind (go_from data off) get_u32) (\<lambda>w. checked (unat w) (off + 4))
           else checked n off))"

definition ReadValue :: "LenFormat \<Rightarrow> bytes \<Rightarrow> nat \<Rightarrow> (bytes \<times> nat) res" where
  "ReadValue f data off =
     rbind (ReadLen f data off) (\<lambda>(n, off).
       if off + n > length data
       then Inl (Errorf ''truncated value at offset %d: need %d bytes, have %d''
                   [D (int off), D (int n), D (int (length data) - int off)])
       else rbind (go_slice data off (off + n)) (\<lambda>v. Inr (v, off + n)))"

definition ReadString :: "LenFormat \<Rightarrow> bytes \<Rightarrow> nat \<Rightarrow> (string \<times> nat) res" where
  "ReadString f data off = rbind (ReadValue f data off) (\<lambda>(v, next). Inr (string_of_bytes v, next))"

section \<open>Lemmas\<close>

lemmas strlen_consts = extendedLenMarker_def maxUint16Len_def MaxValueBytes_def

lemma appendLen_buf: "appendLen buf n = buf @ appendLen [] n"
  by (simp add: appendLen_def)

lemma AppendLenString_buf: "AppendLenString buf s = buf @ AppendLenString [] s"
  by (simp add: AppendLenString_def appendLen_buf [of buf])

lemma length_appendLen: "length (appendLen [] n) = (if n \<le> maxUint16Len then 2 else 6)"
  by (simp add: appendLen_def)

lemma length_AppendLenString:
  "length (AppendLenString [] s) = length s + (if length s \<le> maxUint16Len then 2 else 6)"
  by (simp add: AppendLenString_def length_appendLen)

lemma AppendLenString_nonempty: "AppendLenString [] s \<noteq> []"
  using length_AppendLenString [of s] by (auto split: if_splits)

lemma fold_AppendLenString:
  "fold (\<lambda>s buf. AppendLenString buf s) ss buf = buf @ concat (map (AppendLenString []) ss)"
proof (induction ss arbitrary: buf)
  case Nil
  show ?case by simp
next
  case (Cons s ss)
  show ?case using Cons [of "AppendLenString buf s"] by (simp add: AppendLenString_buf [of buf])
qed

lemma read_appendLen:
  assumes "n \<le> MaxValueBytes"
  shows "ReadLen LenExtended (p @ appendLen [] n @ q) (length p) = Inr (n, length p + length (appendLen [] n))"
proof (cases "n \<le> maxUint16Len")
  case True
  then have "unat (of_nat n :: u16) = n" "n \<noteq> extendedLenMarker"
    by (auto simp: strlen_consts unat_of_nat)
  then show ?thesis using True assms
    by (simp add: ReadLen_def appendLen_def Let_def)
next
  case False
  have "unat (of_nat n :: u32) = n" using assms by (simp add: strlen_consts unat_of_nat)
  moreover have "unat (of_nat extendedLenMarker :: u16) = extendedLenMarker"
    by (simp add: strlen_consts)
  ultimately show ?thesis using False assms
    by (simp add: ReadLen_def appendLen_def Let_def)
qed

lemma read_AppendLenString:
  assumes "length s \<le> MaxValueBytes"
  shows "ReadString LenExtended (p @ AppendLenString [] s @ q) (length p)
           = Inr (s, length p + length (AppendLenString [] s))"
proof -
  have "ReadLen LenExtended (p @ AppendLenString [] s @ q) (length p)
          = Inr (length s, length p + length (appendLen [] (length s)))"
    using read_appendLen [OF assms, of p "bytes_of_string s @ q"] by (simp add: AppendLenString_def)
  then show ?thesis
    by (simp add: ReadString_def ReadValue_def AppendLenString_def)
qed

interpretation len_string: offset_codec "AppendLenString []" "ReadString LenExtended" "\<lambda>s. length s \<le> MaxValueBytes"
  by unfold_locales (rule read_AppendLenString)

lemma ReadLen_safe:
  "ReadLen f data off \<noteq> Inl Panic \<and> (\<forall>n off'. ReadLen f data off = Inr (n, off') \<longrightarrow> off \<le> off' \<and> off' \<le> length data)"
  by (auto simp: ReadLen_def Let_def rbind_Panic_iff get_u16_def get_u32_def split: if_splits)

lemma ReadString_safe:
  "ReadString f data off \<noteq> Inl Panic \<and> (\<forall>s off'. ReadString f data off = Inr (s, off') \<longrightarrow> off \<le> off' \<and> off' \<le> length data)"
  using ReadLen_safe [of f data off]
  by (fastforce simp: ReadString_def ReadValue_def rbind_Panic_iff split: if_splits)

interpretation len_reader: safe_reader "ReadString f" for f
  using ReadString_safe [of f] by unfold_locales auto

section \<open>Properties\<close>

text \<open>A length-prefixed string reads back wherever it stands in a buffer, with the offset just
  past it; up to 65534 bytes the legacy reader agrees, since the prefix is then a plain \<open>uint16\<close>.\<close>

lemma strlen_roundtrip:
  assumes "length s \<le> MaxValueBytes" and "f = LenExtended \<or> length s \<le> maxUint16Len"
  shows "ReadString f (p @ AppendLenString [] s @ q) (length p) = Inr (s, length p + length (AppendLenString [] s))"
proof (cases f)
  case LenExtended
  then show ?thesis using assms(1) by (simp add: read_AppendLenString)
next
  case LenUint16
  then have short: "length s \<le> maxUint16Len" using assms(2) by simp
  then have "unat (of_nat (length s) :: u16) = length s" by (simp add: strlen_consts unat_of_nat)
  then show ?thesis using LenUint16 short
    by (simp add: ReadString_def ReadValue_def ReadLen_def AppendLenString_def appendLen_def Let_def strlen_consts)
qed

lemma strlen_roundtrip_witness:
  "ReadString LenUint16 ([7] @ AppendLenString [] ''abc'' @ [9]) 1 = Inr (''abc'', 6)"
  using strlen_roundtrip [of "''abc''" LenUint16 "[7]" "[9]"]
  by (simp add: strlen_consts length_AppendLenString)

end
