(* ===== verification/Dictionary.thy ===== *)
theory Dictionary
  imports Strlen Zstd
begin

text \<open>
  Dictionary encoding of low-cardinality string columns,
  \<open>internal/logstore/encoding/dictionary.go\<close>: building the dictionary under a cap, its
  serialised form, and the lookup. The lemmas show that the lookup gives every value back
  unless the cap was reached, in which case exactly the values outside the dictionary come
  back empty, and that the serialised form reads back.
\<close>

definition MaxDictEntries :: nat where "MaxDictEntries = 65535"

record DictEncoded =
  Dict :: "string list"
  Indices :: "u16 list"

fun dict_encode_loop :: "nat \<Rightarrow> string list \<Rightarrow> (string \<rightharpoonup> u16) \<Rightarrow> string list \<Rightarrow> u16 list \<times> string list" where
  "dict_encode_loop limit [] dict order = ([], order)"
| "dict_encode_loop limit (v # vs) dict order =
     (case dict v of
        Some idx \<Rightarrow>
          (let (is, order') = dict_encode_loop limit vs dict order in (idx # is, order'))
      | None \<Rightarrow>
          if length order \<ge> limit
          then (let (is, order') = dict_encode_loop limit vs dict order in (0 # is, order'))
          else (let idx = of_nat (length order);
                    (is, order') = dict_encode_loop limit vs (dict(v \<mapsto> idx)) (order @ [v])
                in (idx # is, order')))"

definition dict_limit :: "int \<Rightarrow> nat" where
  "dict_limit limit = (if limit < 1 \<or> limit > int MaxDictEntries then MaxDictEntries else nat limit)"

definition DictEncodeLimit :: "string list \<Rightarrow> int \<Rightarrow> DictEncoded" where
  "DictEncodeLimit values limit =
     (let (indices, order) = dict_encode_loop (dict_limit limit) values [[] \<mapsto> 0] [[]]
      in \<lparr>Dict = order, Indices = indices\<rparr>)"

definition DictEncode :: "string list \<Rightarrow> DictEncoded" where
  "DictEncode values = DictEncodeLimit values (int MaxDictEntries)"

definition DictMarshal :: "zstd \<Rightarrow> DictEncoded \<Rightarrow> bytes" where
  "DictMarshal Z d =
     (let entries = (if length (Dict d) > MaxDictEntries then take MaxDictEntries (Dict d) else Dict d);
          dictBuf = fold (\<lambda>s buf. AppendLenString buf s) entries (put_u16 (of_nat (length entries)));
          idxBuf = concat (map put_u16 (Indices d));
          compressedIdx = Compress Z idxBuf
      in (put_u32 (of_nat (length dictBuf)) @ dictBuf) @ compressedIdx)"

text \<open>The loop that fills \<open>indices\<close>: an index past the data stays zero.\<close>

fun dict_indices_loop :: "nat \<Rightarrow> nat \<Rightarrow> bytes \<Rightarrow> u16 list res" where
  "dict_indices_loop i 0 rawIdx = Inr []"
| "dict_indices_loop i (Suc k) rawIdx =
     (if i * 2 + 1 < length rawIdx
      then rbind (rbind (go_from rawIdx (i * 2)) get_u16) (\<lambda>w.
             rbind (dict_indices_loop (Suc i) k rawIdx) (\<lambda>ws. Inr (w # ws)))
      else Inr (replicate (Suc k) 0))"

definition DictUnmarshal :: "zstd \<Rightarrow> bytes \<Rightarrow> nat \<Rightarrow> LenFormat \<Rightarrow> DictEncoded res" where
  "DictUnmarshal Z data count f =
     (if length data < 4 then Inl (Errorf ''dict data too short: %d bytes'' [D (int (length data))])
      else rbind (rbind (go_slice data 0 4) get_u32) (\<lambda>w.
        let dictSize = unat w
        in if 4 + dictSize > length data
           then Inl (Errorf ''dict size %d exceeds data length %d'' [D (int dictSize), D (int (length data))])
           else rbind (go_slice data 4 (4 + dictSize)) (\<lambda>dictBuf.
             if length dictBuf < 2 then Inl (Errorf ''dict buffer too short'' [])
             else rbind (rbind (go_slice dictBuf 0 2) get_u16) (\<lambda>dictLen.
               rbind (read_loop ''dict entry %d'' (ReadString f) 0 (unat dictLen) dictBuf 2) (\<lambda>(dict, offset).
               rbind (go_from data (4 + dictSize)) (\<lambda>compressedIdx.
               rbind (wrapf ''decompress dict indices'' []
                        (DecompressBounded Z compressedIdx (DecodeCeiling (int count) 2))) (\<lambda>rawIdx.
               rbind (dict_indices_loop 0 count rawIdx) (\<lambda>indices.
                 Inr \<lparr>Dict = dict, Indices = indices\<rparr>))))))))"

definition DictLookup :: "DictEncoded \<Rightarrow> string list" where
  "DictLookup d = map (\<lambda>idx. if unat idx < length (Dict d) then Dict d ! unat idx else []) (Indices d)"

section \<open>Encoding and lookup\<close>

text \<open>
  The map and the list of the loop describe one dictionary: the map sends exactly the
  listed strings to their positions, position 0 is the empty string, and the list never
  outgrows the limit.
\<close>

definition dict_inv :: "nat \<Rightarrow> (string \<rightharpoonup> u16) \<Rightarrow> string list \<Rightarrow> bool" where
  "dict_inv limit dict order \<longleftrightarrow>
     order \<noteq> [] \<and> hd order = [] \<and> distinct order \<and> length order \<le> limit \<and> dom dict = set order \<and>
     (\<forall>i < length order. dict (order ! i) = Some (of_nat i))"

lemma dict_inv_init: "1 \<le> limit \<Longrightarrow> dict_inv limit [[] \<mapsto> 0] [[]]"
  by (simp add: dict_inv_def)

lemma dict_inv_grow:
  assumes "dict_inv limit dict order" "dict v = None" "length order < limit"
  shows "dict_inv limit (dict(v \<mapsto> of_nat (length order))) (order @ [v])"
proof -
  have v: "v \<notin> set order" using assms(1,2) by (auto simp: dict_inv_def)
  then have "order ! i \<noteq> v" if "i < length order" for i using that by (metis nth_mem)
  then show ?thesis using assms v by (auto simp: dict_inv_def nth_append less_Suc_eq)
qed

lemma dict_inv_index:
  assumes "dict_inv limit dict order" "dict v = Some idx" "limit \<le> MaxDictEntries"
  shows "unat idx < length order \<and> order ! unat idx = v"
proof -
  have "v \<in> set order" using assms by (auto simp: dict_inv_def)
  then obtain i where i: "i < length order" "order ! i = v" by (auto simp: in_set_conv_nth)
  then have "idx = of_nat i" using assms by (auto simp: dict_inv_def)
  moreover have "i < 2 ^ 16" using i assms by (auto simp: dict_inv_def MaxDictEntries_def)
  ultimately show ?thesis using i by (simp add: unat_of_nat_small)
qed

lemma dict_encode_loop_spec:
  assumes "dict_inv limit dict order" "limit \<le> MaxDictEntries" "dict_encode_loop limit vs dict order = (is, order')"
  shows "(\<exists>dict'. dict_inv limit dict' order') \<and> (\<exists>more. order' = order @ more) \<and> set order' \<subseteq> set order \<union> set vs \<and>
     length is = length vs \<and>
     list_all2 (\<lambda>v idx. unat idx < length order' \<and> order' ! unat idx = (if v \<in> set order' then v else [])) vs is \<and>
     (length order' < limit \<longrightarrow> set vs \<subseteq> set order')"
  using assms
proof (induction vs arbitrary: dict order "is" order')
  case Nil
  then show ?case by auto
next
  case (Cons v vs)
  show ?case
  proof (cases "dict v")
    case (Some idx)
    then obtain is' where r: "dict_encode_loop limit vs dict order = (is', order')" and is_eq: "is = idx # is'"
      using Cons.prems(3) by (auto split: prod.splits)
    from Cons.IH [OF Cons.prems(1,2) r] have ih: "\<exists>dict'. dict_inv limit dict' order'" "\<exists>more. order' = order @ more"
      "set order' \<subseteq> set order \<union> set vs" "length is' = length vs"
      "list_all2 (\<lambda>v idx. unat idx < length order' \<and> order' ! unat idx = (if v \<in> set order' then v else [])) vs is'"
      "length order' < limit \<longrightarrow> set vs \<subseteq> set order'" by blast+
    have v: "unat idx < length order" "order ! unat idx = v"
      using dict_inv_index [OF Cons.prems(1) Some Cons.prems(2)] by auto
    then have "v \<in> set order" by (metis nth_mem)
    then show ?thesis using ih v is_eq by (auto simp: nth_append)
  next
    case None
    show ?thesis
    proof (cases "length order \<ge> limit")
      case full: True
      then obtain is' where r: "dict_encode_loop limit vs dict order = (is', order')" and is_eq: "is = 0 # is'"
        using Cons.prems(3) None by (auto split: prod.splits)
      note ih = Cons.IH [OF Cons.prems(1,2) r]
      then obtain more where more: "order' = order @ more" by blast
      have "length order' \<le> limit" using ih by (auto simp: dict_inv_def)
      moreover have "length order' = length order + length more" using more by simp
      ultimately have "length more = 0" using full by linarith
      then have "order' = order" using more by simp
      moreover have "order ! 0 = []" "order \<noteq> []" "v \<notin> set order"
        using Cons.prems(1) None by (auto simp: dict_inv_def hd_conv_nth)
      ultimately show ?thesis using ih is_eq full by auto
    next
      case room: False
      let ?idx = "of_nat (length order) :: u16"
      obtain is' where r: "dict_encode_loop limit vs (dict(v \<mapsto> ?idx)) (order @ [v]) = (is', order')"
        and is_eq: "is = ?idx # is'"
        using Cons.prems(3) None room by (auto simp: Let_def split: prod.splits)
      have inv: "dict_inv limit (dict(v \<mapsto> ?idx)) (order @ [v])"
        using room by (intro dict_inv_grow Cons.prems None) simp
      note ih = Cons.IH [OF inv Cons.prems(2) r]
      have "unat ?idx = length order"
        using room Cons.prems(2) by (intro unat_of_nat_small) (simp add: MaxDictEntries_def)
      then show ?thesis using ih is_eq by (auto simp: nth_append)
    qed
  qed
qed

lemma dict_limit_range: "1 \<le> dict_limit limit \<and> dict_limit limit \<le> MaxDictEntries"
  by (auto simp: dict_limit_def MaxDictEntries_def)

lemma dict_encode_limit_spec:
  fixes vs :: "string list" and limit :: int
  defines "d \<equiv> DictEncodeLimit vs limit"
  shows "distinct (Dict d) \<and> [] \<in> set (Dict d) \<and> set (Dict d) \<subseteq> insert [] (set vs) \<and>
    length (Dict d) \<le> dict_limit limit \<and> length (Indices d) = length vs \<and>
    (\<forall>idx \<in> set (Indices d). unat idx < length (Dict d)) \<and>
    DictLookup d = map (\<lambda>v. if v \<in> set (Dict d) then v else []) vs \<and>
    (card (insert [] (set vs)) \<le> dict_limit limit \<longrightarrow> set vs \<subseteq> set (Dict d))"
proof -
  obtain "is" order where r: "dict_encode_loop (dict_limit limit) vs [[] \<mapsto> 0] [[]] = (is, order)"
    by (cases "dict_encode_loop (dict_limit limit) vs [[] \<mapsto> 0] [[]]")
  have d: "Dict d = order" "Indices d = is" by (simp_all add: d_def DictEncodeLimit_def r)
  from dict_encode_loop_spec [OF dict_inv_init _ r] dict_limit_range [of limit]
  have spec: "\<exists>dict. dict_inv (dict_limit limit) dict order" "set order \<subseteq> insert [] (set vs)" "length is = length vs"
    "list_all2 (\<lambda>v idx. unat idx < length order \<and> order ! unat idx = (if v \<in> set order then v else [])) vs is"
    "length order < dict_limit limit \<longrightarrow> set vs \<subseteq> set order"
    by auto
  from spec(1) have inv: "distinct order" "[] \<in> set order" "length order \<le> dict_limit limit"
    using hd_in_set [of order] by (auto simp: dict_inv_def)
  have "set vs \<subseteq> set order" if c: "card (insert [] (set vs)) \<le> dict_limit limit"
  proof (rule ccontr)
    assume out: "\<not> set vs \<subseteq> set order"
    then have "set order \<subset> insert [] (set vs)" using spec(2) inv(2) by auto
    then have "card (set order) < card (insert [] (set vs))" by (intro psubset_card_mono) auto
    moreover have "card (set order) = length order" by (rule distinct_card [OF inv(1)])
    ultimately show False using c spec(5) out by linarith
  qed
  moreover have "DictLookup d = map (\<lambda>v. if v \<in> set order then v else []) vs"
    using spec(4) by (intro nth_equalityI) (auto simp: DictLookup_def d list_all2_conv_all_nth)
  moreover have "\<forall>idx \<in> set is. unat idx < length order"
    using spec(4) by (auto simp: list_all2_conv_all_nth in_set_conv_nth)
  ultimately show ?thesis using d spec inv by simp
qed

lemma dict_lookup_encode:
  "card (insert [] (set vs)) \<le> dict_limit limit \<Longrightarrow> DictLookup (DictEncodeLimit vs limit) = vs"
  using dict_encode_limit_spec [of vs limit] by (auto intro!: map_idI)

section \<open>Serialisation\<close>

lemma dict_indices_loop_put:
  "dict_indices_loop i (length ws) (p @ concat (map put_u16 ws)) = Inr ws" if "length p = i * 2"
  using that
proof (induction ws arbitrary: i p)
  case Nil
  then show ?case by simp
next
  case (Cons w ws)
  have "dict_indices_loop (Suc i) (length ws) ((p @ put_u16 w) @ concat (map put_u16 ws)) = Inr ws"
    using Cons.prems by (intro Cons.IH) simp
  then show ?case using Cons.prems by simp
qed

lemma dict_indices_loop_length: "dict_indices_loop i k raw = Inr ws \<Longrightarrow> length ws = k"
  by (induction k arbitrary: i ws) (auto split: if_splits)

lemma dict_indices_loop_no_panic: "dict_indices_loop i k raw \<noteq> Inl Panic"
  by (induction k arbitrary: i) (auto simp: rbind_Panic_iff get_u16_def)

definition dict_buf :: "string list \<Rightarrow> bytes" where
  "dict_buf entries = put_u16 (of_nat (length entries)) @ concat (map (AppendLenString []) entries)"

lemma length_concat_put_u16 [simp]: "length (concat (map put_u16 ws)) = 2 * length ws"
  by (induction ws) auto

lemma dict_unmarshal_marshal:
  assumes Z: "zstd_lib Z" and n: "length (Dict d) \<le> MaxDictEntries"
    and vals: "\<forall>s \<in> set (Dict d). length s \<le> MaxValueBytes" and size: "length (dict_buf (Dict d)) < 2 ^ 32"
    and idx: "2 * int (length (Indices d)) \<le> MaxBlockBytes"
  shows "DictUnmarshal Z (DictMarshal Z d) (length (Indices d)) LenExtended = Inr d"
proof -
  let ?buf = "dict_buf (Dict d)" and ?raw = "concat (map put_u16 (Indices d))"
  have m: "DictMarshal Z d = put_u32 (of_nat (length ?buf)) @ ?buf @ Compress Z ?raw"
    using n by (simp add: DictMarshal_def Let_def fold_AppendLenString dict_buf_def)
  have sz: "unat (of_nat (length ?buf) :: u32) = length ?buf" using size by (simp add: unat_of_nat_small)
  have dl: "unat (of_nat (length (Dict d)) :: u16) = length (Dict d)"
    using n by (simp add: unat_of_nat_small MaxDictEntries_def)
  have rd: "read_loop ''dict entry %d'' (ReadString LenExtended) 0 (length (Dict d)) ?buf 2 = Inr (Dict d, length ?buf)"
    using len_string.read_loop_concat [of "Dict d" "''dict entry %d''" 0 "put_u16 (of_nat (length (Dict d)))" "[]"] vals
    by (simp add: dict_buf_def list_all_iff)
  have "int (length ?raw) \<le> DecodeCeiling (int (length (Indices d))) 2"
    using idx by (intro decode_ceiling_admits) auto
  then have de: "DecompressBounded Z (Compress Z ?raw) (DecodeCeiling (int (length (Indices d))) 2) = Inr ?raw"
    using decode_ceiling_range [of "int (length (Indices d))" 2] Z
    by (intro decompress_compress) (auto simp: minDecodeCeiling_def)
  have ix: "dict_indices_loop 0 (length (Indices d)) ?raw = Inr (Indices d)"
    using dict_indices_loop_put [of "[]" 0 "Indices d"] by simp
  have "get_u16 (take 2 ?buf) = Inr (of_nat (length (Dict d)))" "2 \<le> length ?buf"
    by (simp_all add: dict_buf_def)
  then show ?thesis
    using sz dl rd de ix by (simp add: DictUnmarshal_def m Let_def)
qed

lemma dict_unmarshal_no_panic [no_panic]: "DictUnmarshal Z data count f \<noteq> Inl Panic"
  by (auto simp: DictUnmarshal_def Let_def rbind_Panic_iff get_u32_def get_u16_def
    decompress_no_panic dict_indices_loop_no_panic len_reader.read_loop_no_panic split: prod.splits)

section \<open>Properties\<close>

text \<open>C31: The dictionary lists distinct strings, starts with the empty one and stays within its cap; a
  value looks up to itself if it is in the dictionary and to the empty string if it is not, and when
  the distinct values (with the empty string) do not exceed the cap no value is lost.\<close>

theorem dict_encode_exact:
  fixes vs :: "string list" and limit :: int
  defines "d \<equiv> DictEncodeLimit vs limit"
  shows "distinct (Dict d) \<and> [] \<in> set (Dict d) \<and> length (Dict d) \<le> dict_limit limit \<and>
    DictLookup d = map (\<lambda>v. if v \<in> set (Dict d) then v else []) vs \<and>
    (card (insert [] (set vs)) \<le> dict_limit limit \<longrightarrow> DictLookup d = vs)"
  using dict_encode_limit_spec [of vs limit] dict_lookup_encode [of vs limit] unfolding d_def by blast

theorem dict_encode_exact_witness:
  "DictLookup (DictEncodeLimit [''a'', ''b'', ''a''] 3) = [''a'', ''b'', ''a'']"
proof -
  have "card (insert [] (set [''a'', ''b'', ''a''])) \<le> dict_limit 3"
    by (simp add: dict_limit_def MaxDictEntries_def insert_commute card_insert_if)
  then show ?thesis using dict_encode_exact [of "[''a'', ''b'', ''a'']" 3] by blast
qed

text \<open>A dictionary column survives serialisation: what \<open>DictMarshal\<close> writes, \<open>DictUnmarshal\<close> reads back
  as the same dictionary and the same indices.\<close>

lemma dict_marshal_roundtrip:
  assumes "zstd_lib Z" and "length (Dict d) \<le> MaxDictEntries"
    and "\<forall>s \<in> set (Dict d). length s \<le> MaxValueBytes" and "length (dict_buf (Dict d)) < 2 ^ 32"
    and "2 * int (length (Indices d)) \<le> MaxBlockBytes"
  shows "DictUnmarshal Z (DictMarshal Z d) (length (Indices d)) LenExtended = Inr d"
  using assms by (rule dict_unmarshal_marshal)

lemma dict_marshal_roundtrip_witness:
  "DictUnmarshal stored_zstd (DictMarshal stored_zstd \<lparr>Dict = [[], ''web''], Indices = [1, 0, 1]\<rparr>) 3 LenExtended
     = Inr \<lparr>Dict = [[], ''web''], Indices = [1, 0, 1]\<rparr>"
  using dict_marshal_roundtrip [of stored_zstd "\<lparr>Dict = [[], ''web''], Indices = [1, 0, 1]\<rparr>"] stored_zstd_lib
  by (simp add: MaxDictEntries_def MaxBlockBytes_def MaxValueBytes_def dict_buf_def length_AppendLenString strlen_consts numeral_3_eq_3)

end
