(* ===== verification/Bitpack.thy ===== *)
theory Bitpack
  imports Go_Binary
begin

text \<open>
  Bit packing of small indices, \<open>internal/logstore/encoding/bitpack.go\<close>. A packed buffer is read
  through \<open>pbit\<close>, bit \<open>k\<close> of the whole buffer: one encoder step writes the bits of one value at
  its position and leaves the others alone, and one decoder step reads them back.
\<close>

definition bit_mask :: "nat \<Rightarrow> byte" where
  "bit_mask bitsPerValue = ucast (push_bit bitsPerValue (1 :: int64) - 1)"

fun bitpack_encode_loop :: "nat \<Rightarrow> byte list \<Rightarrow> nat \<Rightarrow> bytes \<Rightarrow> bytes res" where
  "bitpack_encode_loop bitsPerValue [] bitPos packed = Inr packed"
| "bitpack_encode_loop bitsPerValue (idx # indices) bitPos packed =
     (let val = idx AND bit_mask bitsPerValue;
          byteIdx = bitPos div 8;
          bitOffset = bitPos mod 8
      in rbind (go_index packed byteIdx) (\<lambda>b.
         let packed = packed[byteIdx := b OR push_bit bitOffset val]
         in if bitOffset + bitsPerValue > 8 \<and> byteIdx + 1 < length packed
            then rbind (go_index packed (byteIdx + 1)) (\<lambda>b'.
                   bitpack_encode_loop bitsPerValue indices (bitPos + bitsPerValue)
                     (packed[byteIdx + 1 := b' OR drop_bit (8 - bitOffset) val]))
            else bitpack_encode_loop bitsPerValue indices (bitPos + bitsPerValue) packed))"

definition BitpackEncode :: "byte list \<Rightarrow> nat \<Rightarrow> bytes res" where
  "BitpackEncode indices bitsPerValue =
     (if bitsPerValue < 1 \<or> bitsPerValue > 8 then Inl Panic
      else let totalBits = length indices * bitsPerValue;
               packedSize = (totalBits + 7) div 8
           in rbind (bitpack_encode_loop bitsPerValue indices 0 (replicate packedSize 0)) (\<lambda>packed.
                Inr ([of_nat bitsPerValue] @ put_u32 (of_nat (length indices)) @ packed)))"

text \<open>The decoding loop, on the number of values still wanted; a \<open>break\<close> leaves the rest zero.\<close>

fun bitpack_decode_loop :: "nat \<Rightarrow> bytes \<Rightarrow> nat \<Rightarrow> nat \<Rightarrow> byte list res" where
  "bitpack_decode_loop bitsPerValue packed 0 bitPos = Inr []"
| "bitpack_decode_loop bitsPerValue packed (Suc k) bitPos =
     (let byteIdx = bitPos div 8; bitOffset = bitPos mod 8
      in if byteIdx \<ge> length packed then Inr (replicate (Suc k) 0)
         else rbind (go_index packed byteIdx) (\<lambda>b.
           rbind (if bitOffset + bitsPerValue > 8 \<and> byteIdx + 1 < length packed
                  then rbind (go_index packed (byteIdx + 1)) (\<lambda>b'.
                         Inr (drop_bit bitOffset b OR push_bit (8 - bitOffset) b'))
                  else Inr (drop_bit bitOffset b)) (\<lambda>val.
           rbind (bitpack_decode_loop bitsPerValue packed k (bitPos + bitsPerValue)) (\<lambda>vs.
             Inr ((val AND bit_mask bitsPerValue) # vs)))))"

definition BitpackDecode :: "bytes \<Rightarrow> byte list res" where
  "BitpackDecode data =
     (if length data < 5 then Inl (Errorf ''bitpack data too short: %d bytes'' [D (int (length data))])
      else rbind (go_index data 0) (\<lambda>b0.
        let bitsPerValue = unat b0
        in if bitsPerValue < 1 \<or> bitsPerValue > 8
           then Inl (Errorf ''bitpack: invalid bitsPerValue %d'' [D (int bitsPerValue)])
           else rbind (rbind (go_slice data 1 5) get_u32) (\<lambda>w.
             rbind (go_from data 5) (\<lambda>packed.
               let count = unat w; maxCount = length packed * 8 div bitsPerValue
               in if count > maxCount
                  then Inl (Errorf ''bitpack: count %d exceeds %d values encodable in %d packed bytes at %d bits''
                              [D (int count), D (int maxCount), D (int (length packed)), D (int bitsPerValue)])
                  else bitpack_decode_loop bitsPerValue packed count 0))))"

function bits_needed_loop :: "nat \<Rightarrow> nat \<Rightarrow> nat" where
  "bits_needed_loop bits v = (if v > 0 then bits_needed_loop (bits + 1) (v div 2) else bits)"
  by pat_completeness auto
termination
  by (relation "measure (\<lambda>(bits, v). v)") auto

definition BitsNeeded :: "nat \<Rightarrow> nat" where
  "BitsNeeded n = (if n \<le> 1 then 1 else bits_needed_loop 0 (n - 1))"

declare bits_needed_loop.simps [simp del]

section \<open>The mask\<close>

lemma bit_mask_eq: "b \<le> 8 \<Longrightarrow> bit_mask b = mask b"
proof (rule bit_word_eqI)
  fix n assume b: "b \<le> 8" and "n < LENGTH(8)"
  have "push_bit b (1 :: int64) - 1 = mask b"
    by (simp add: mask_eq_exp_minus_1 push_bit_eq_mult)
  then show "bit (bit_mask b) n = bit (mask b :: byte) n"
    by (auto simp: bit_mask_def bit_simps)
qed

lemma and_bit_mask: "b \<le> 8 \<Longrightarrow> x AND bit_mask b = take_bit b x"
  by (simp add: bit_mask_eq take_bit_eq_mask)

section \<open>Bits of a packed buffer\<close>

definition pbit :: "bytes \<Rightarrow> nat \<Rightarrow> bool" where
  "pbit packed k = (k < 8 * length packed \<and> bit (packed ! (k div 8)) (k mod 8))"

lemma pbit_replicate [simp]: "\<not> pbit (replicate n 0) k"
  by (auto simp: pbit_def)

lemma byte_bit_ge [simp]: "8 \<le> n \<Longrightarrow> \<not> bit (b :: byte) n"
  using bit_imp_le_length [of b n] by auto

text \<open>One value OR-ed into the buffer at \<open>bitPos\<close>, as the encoder does it.\<close>

definition put_value :: "nat \<Rightarrow> nat \<Rightarrow> byte \<Rightarrow> bytes \<Rightarrow> bytes" where
  "put_value b pos val packed =
     (let packed' = packed[pos div 8 := packed ! (pos div 8) OR push_bit (pos mod 8) val]
      in if pos mod 8 + b > 8 \<and> pos div 8 + 1 < length packed
         then packed'[pos div 8 + 1 := packed' ! (pos div 8 + 1) OR drop_bit (8 - pos mod 8) val]
         else packed')"

lemma length_put_value [simp]: "length (put_value b pos val packed) = length packed"
  by (simp add: put_value_def Let_def)

lemma encode_step:
  "pos div 8 < length packed \<Longrightarrow>
   bitpack_encode_loop b (idx # indices) pos packed
     = bitpack_encode_loop b indices (pos + b) (put_value b pos (idx AND bit_mask b) packed)"
  by (simp add: put_value_def Let_def)

lemma pbit_put_value:
  assumes b: "1 \<le> b" "b \<le> 8" and val: "take_bit b val = val" and fits: "pos + b \<le> 8 * length packed"
  shows "pbit (put_value b pos val packed) k
           \<longleftrightarrow> pbit packed k \<or> (pos \<le> k \<and> k < pos + b \<and> bit val (k - pos))"
proof (cases "k < 8 * length packed")
  case False
  then show ?thesis using fits by (auto simp: pbit_def)
next
  case True
  let ?i = "pos div 8" and ?o = "pos mod 8"
  have i: "?i < length packed" using fits b by linarith
  have hi: "bit val t \<Longrightarrow> t < b" for t
    using val by (metis bit_take_bit_iff)
  have kdec: "k = 8 * (k div 8) + k mod 8" and pdec: "pos = 8 * ?i + ?o" by simp_all
  have o8: "?o < 8" and k8: "k mod 8 < 8" by simp_all
  consider (same) "k div 8 = ?i" | (succ) "k div 8 = ?i + 1" | (other) "k div 8 \<noteq> ?i" "k div 8 \<noteq> ?i + 1"
    by blast
  then show ?thesis
  proof cases
    case same
    have "put_value b pos val packed ! (k div 8) = packed ! ?i OR push_bit ?o val"
      using i by (simp add: put_value_def Let_def same)
    then have "pbit (put_value b pos val packed) k
                 \<longleftrightarrow> pbit packed k \<or> (?o \<le> k mod 8 \<and> bit val (k mod 8 - ?o))"
      using True same k8 by (auto simp: pbit_def bit_simps)
    moreover have "(?o \<le> k mod 8 \<and> bit val (k mod 8 - ?o)) \<longleftrightarrow> (pos \<le> k \<and> k < pos + b \<and> bit val (k - pos))"
    proof -
      have "?o \<le> k mod 8 \<longleftrightarrow> pos \<le> k" using kdec pdec same by linarith
      moreover have "pos \<le> k \<Longrightarrow> k mod 8 - ?o = k - pos" using kdec pdec same by linarith
      moreover have "pos \<le> k \<Longrightarrow> bit val (k - pos) \<Longrightarrow> k < pos + b" using hi [of "k - pos"] by linarith
      ultimately show ?thesis by auto
    qed
    ultimately show ?thesis by simp
  next
    case succ
    have len: "?i + 1 < length packed" using True succ by linarith
    have d: "k - pos = 8 - ?o + k mod 8" "pos \<le> k" using kdec pdec succ o8 by linarith+
    show ?thesis
    proof (cases "?o + b > 8")
      case spill: True
      have "put_value b pos val packed ! (k div 8) = packed ! (?i + 1) OR drop_bit (8 - ?o) val"
        using i len spill by (simp add: put_value_def Let_def succ)
      then have "pbit (put_value b pos val packed) k \<longleftrightarrow> pbit packed k \<or> bit val (8 - ?o + k mod 8)"
        using True succ by (auto simp: pbit_def bit_simps)
      then show ?thesis using d hi [of "k - pos"] by auto
    next
      case nospill: False
      have "put_value b pos val packed ! (k div 8) = packed ! (k div 8)"
        using nospill by (simp add: put_value_def Let_def succ)
      moreover have "\<not> bit val (k - pos)" using hi [of "k - pos"] d nospill by linarith
      ultimately show ?thesis by (simp add: pbit_def)
    qed
  next
    case other
    have "put_value b pos val packed ! (k div 8) = packed ! (k div 8)"
      using other by (simp add: put_value_def Let_def)
    moreover have "\<not> (pos \<le> k \<and> k < pos + b)"
    proof
      assume k: "pos \<le> k \<and> k < pos + b"
      then have "k div 8 < ?i + 2" and "?i < k div 8 + 1" using kdec pdec o8 k8 b by linarith+
      then show False using other by linarith
    qed
    ultimately show ?thesis by (auto simp: pbit_def)
  qed
qed

definition get_value :: "nat \<Rightarrow> bytes \<Rightarrow> nat \<Rightarrow> byte" where
  "get_value b packed pos =
     ((if pos mod 8 + b > 8 \<and> pos div 8 + 1 < length packed
       then drop_bit (pos mod 8) (packed ! (pos div 8)) OR push_bit (8 - pos mod 8) (packed ! (pos div 8 + 1))
       else drop_bit (pos mod 8) (packed ! (pos div 8))) AND bit_mask b)"

lemma div_mod_8: "(r :: nat) < 8 \<Longrightarrow> n = 8 * i + r \<Longrightarrow> n div 8 = i \<and> n mod 8 = r"
  by simp

lemma spill_pos:
  "(r :: nat) < 8 \<Longrightarrow> t < b \<Longrightarrow> b \<le> 8 \<Longrightarrow> \<not> r + t < 8 \<Longrightarrow>
   8 * i + r + t = 8 * (i + 1) + (r + t - 8) \<and> r + t - 8 < 8 \<and> 8 - r \<le> t \<and> t - (8 - r) = r + t - 8 \<and> t < 8"
  by auto

lemma bit_get_value:
  assumes b: "1 \<le> b" "b \<le> 8" and fits: "pos + b \<le> 8 * length packed"
  shows "bit (get_value b packed pos) t \<longleftrightarrow> t < b \<and> pbit packed (pos + t)"
proof (cases "t < b")
  case False
  then show ?thesis using b by (simp add: get_value_def and_bit_mask bit_take_bit_iff)
next
  case True
  let ?i = "pos div 8" and ?o = "pos mod 8"
  have pdec: "pos = 8 * ?i + ?o" and o8: "?o < 8" by simp_all
  show ?thesis
  proof (cases "?o + t < 8")
    case low: True
    have "pos + t = 8 * ?i + (?o + t)" using pdec by linarith
    with low have "(pos + t) div 8 = ?i" "(pos + t) mod 8 = ?o + t"
      using div_mod_8 [of "?o + t" "pos + t" ?i] by blast+
    moreover have "\<not> 8 - ?o \<le> t" using low by linarith
    then have "bit (get_value b packed pos) t \<longleftrightarrow> bit (packed ! ?i) (?o + t)"
      using True b by (simp add: get_value_def and_bit_mask bit_take_bit_iff bit_or_iff
        bit_drop_bit_eq bit_push_bit_iff)
    ultimately show ?thesis using True fits by (simp add: pbit_def)
  next
    case high: False
    have e: "pos + t = 8 * (?i + 1) + (?o + t - 8)" and lt: "?o + t - 8 < 8"
      using spill_pos [OF o8 True b(2) high, of ?i] by simp_all
    have d: "(pos + t) div 8 = ?i + 1" and m: "(pos + t) mod 8 = ?o + t - 8"
      using div_mod_8 [OF lt e] by blast+
    have len: "?i + 1 < length packed"
      using less_mult_imp_div_less [of "pos + t" "length packed" 8] fits True d by simp
    have "8 - ?o \<le> t" "t - (8 - ?o) = ?o + t - 8" "t < 8"
      using spill_pos [OF o8 True b(2) high] by blast+
    then have "bit (get_value b packed pos) t \<longleftrightarrow> bit (packed ! (?i + 1)) (?o + t - 8)"
      using True high len b o8 by (simp add: get_value_def and_bit_mask bit_take_bit_iff bit_or_iff
        bit_drop_bit_eq bit_push_bit_iff)
    then show ?thesis using True len fits by (simp add: pbit_def d m)
  qed
qed

section \<open>The two loops\<close>

lemma bitpack_encode_loop_bits:
  assumes b: "1 \<le> b" "b \<le> 8"
  shows "pos + length vs * b \<le> 8 * length packed \<Longrightarrow>
    \<exists>packed'. bitpack_encode_loop b vs pos packed = Inr packed' \<and> length packed' = length packed \<and>
      (\<forall>k. pbit packed' k \<longleftrightarrow> pbit packed k \<or>
           (\<exists>i<length vs. pos + i * b \<le> k \<and> k < pos + i * b + b \<and> bit (vs ! i) (k - (pos + i * b))))"
proof (induction vs arbitrary: pos packed)
  case Nil
  then show ?case by simp
next
  case (Cons v vs)
  have fits: "pos + b \<le> 8 * length packed" and rest: "pos + b + length vs * b \<le> 8 * length packed"
    using Cons.prems by simp_all
  let ?v = "take_bit b v" and ?p = "put_value b pos (take_bit b v) packed"
  have step: "bitpack_encode_loop b (v # vs) pos packed = bitpack_encode_loop b vs (pos + b) ?p"
    using fits b by (subst encode_step) (simp_all add: and_bit_mask)
  from Cons.IH [of "pos + b" ?p] rest obtain packed' where
    p': "bitpack_encode_loop b vs (pos + b) ?p = Inr packed'" "length packed' = length packed" and
    bits: "\<And>k. pbit packed' k \<longleftrightarrow> pbit ?p k \<or>
           (\<exists>i<length vs. pos + b + i * b \<le> k \<and> k < pos + b + i * b + b \<and> bit (vs ! i) (k - (pos + b + i * b)))"
    by auto
  have first: "pbit ?p k \<longleftrightarrow> pbit packed k \<or> (pos \<le> k \<and> k < pos + b \<and> bit v (k - pos))" for k
    using pbit_put_value [OF b _ fits, of ?v k] by (auto simp: bit_take_bit_iff)
  have "(\<exists>i<length (v # vs). pos + i * b \<le> k \<and> k < pos + i * b + b \<and> bit ((v # vs) ! i) (k - (pos + i * b)))
        \<longleftrightarrow> (pos \<le> k \<and> k < pos + b \<and> bit v (k - pos)) \<or>
          (\<exists>i<length vs. pos + b + i * b \<le> k \<and> k < pos + b + i * b + b \<and> bit (vs ! i) (k - (pos + b + i * b)))" for k
    by (simp add: Ex_less_Suc2 add.assoc del: ex_simps)
  then show ?case using step p' bits first by simp
qed

lemma bitpack_decode_loop_eq:
  assumes b: "1 \<le> b"
  shows "pos + n * b \<le> 8 * length packed \<Longrightarrow>
    bitpack_decode_loop b packed n pos = Inr (map (\<lambda>i. get_value b packed (pos + i * b)) [0..<n])"
proof (induction n arbitrary: pos)
  case 0
  then show ?case by simp
next
  case (Suc n)
  have i: "pos div 8 < length packed" using Suc.prems b by simp
  have "map (\<lambda>i. get_value b packed (pos + i * b)) [0..<Suc n]
        = get_value b packed pos # map (\<lambda>i. get_value b packed (pos + b + i * b)) [0..<n]"
    by (simp add: upt_conv_Cons map_Suc_upt [symmetric] del: upt_Suc) (simp add: add.assoc comp_def)
  then show ?case using i Suc.IH [of "pos + b"] Suc.prems
    by (simp add: Let_def get_value_def add.assoc)
qed

lemma index_unique:
  assumes "i * b \<le> k" "k < i * b + b" "j * b \<le> k" "k < j * b + (b :: nat)"
  shows "i = j"
proof -
  have "k div b = i" "k div b = j"
    using assms by (auto intro!: div_nat_eqI simp: algebra_simps)
  then show ?thesis by simp
qed

lemma bitpack_loops_roundtrip:
  assumes b: "1 \<le> b" "b \<le> 8" and fits: "length vs * b \<le> 8 * n" and small: "\<forall>v\<in>set vs. take_bit b v = v"
  shows "\<exists>packed. bitpack_encode_loop b vs 0 (replicate n 0) = Inr packed \<and> length packed = n \<and>
           bitpack_decode_loop b packed (length vs) 0 = Inr vs"
proof -
  from bitpack_encode_loop_bits [OF b, of 0 vs "replicate n 0"] fits obtain packed where
    p: "bitpack_encode_loop b vs 0 (replicate n 0) = Inr packed" "length packed = n" and
    bits: "\<And>k. pbit packed k \<longleftrightarrow> (\<exists>i<length vs. i * b \<le> k \<and> k < i * b + b \<and> bit (vs ! i) (k - i * b))"
    by auto
  have "get_value b packed (i * b) = vs ! i" if i: "i < length vs" for i
  proof (rule bit_word_eqI)
    fix t
    have "Suc i * b \<le> length vs * b" using i by (intro mult_le_mono) auto
    then have pos: "i * b + b \<le> 8 * length packed" using fits p by simp
    have "t < b \<Longrightarrow> pbit packed (i * b + t) \<longleftrightarrow> bit (vs ! i) t"
      unfolding bits using i index_unique [of _ b "i * b + t" i] by fastforce
    moreover have "bit (vs ! i) t \<Longrightarrow> t < b"
      using small i nth_mem [of i vs] by (metis bit_take_bit_iff)
    ultimately show "bit (get_value b packed (i * b)) t = bit (vs ! i) t"
      using bit_get_value [OF b pos, of t] by auto
  qed
  then have "map (\<lambda>i. get_value b packed (i * b)) [0..<length vs] = vs"
    by (intro nth_equalityI) auto
  then show ?thesis
    using p fits bitpack_decode_loop_eq [OF b(1), of 0 "length vs" packed] by auto
qed

section \<open>Round trip, safety and the number of bits\<close>

lemma packed_size_fits: "m \<le> 8 * ((m + 7) div (8 :: nat))"
  by presburger

lemma bitpack_roundtrip_lemma:
  assumes b: "1 \<le> b" "b \<le> 8" and len: "length vs < 2 ^ 32" and small: "\<forall>v\<in>set vs. unat v < 2 ^ b"
  shows "rbind (BitpackEncode vs b) BitpackDecode = Inr vs"
proof -
  let ?n = "(length vs * b + 7) div 8"
  have small': "\<forall>v\<in>set vs. take_bit b v = v"
  proof
    fix v assume "v \<in> set vs"
    then have "unat v < 2 ^ b" using small by blast
    then show "take_bit b v = v"
      by (simp add: word_unat_eq_iff unsigned_take_bit_eq take_bit_nat_eq_self)
  qed
  obtain packed where p: "bitpack_encode_loop b vs 0 (replicate ?n 0) = Inr packed" "length packed = ?n"
    "bitpack_decode_loop b packed (length vs) 0 = Inr vs"
    using bitpack_loops_roundtrip [OF b packed_size_fits small'] by blast
  have "length vs \<le> length packed * 8 div b"
    using b p(2) packed_size_fits [of "length vs * b"] by (simp add: less_eq_div_iff_mult_less_eq mult.commute)
  moreover have "unat (of_nat b :: byte) = b" using b by (simp add: unat_of_nat_small)
  moreover have "unat (of_nat (length vs) :: u32) = length vs" using len by (simp add: unat_of_nat_small)
  ultimately show ?thesis
    using b p by (simp add: BitpackEncode_def BitpackDecode_def Let_def length_put go_slice_def go_from_def go_index_def)
qed

lemma bitpack_decode_loop_no_panic [no_panic]: "bitpack_decode_loop b packed n pos \<noteq> Inl Panic"
proof (induction n arbitrary: pos)
  case 0
  then show ?case by simp
next
  case (Suc n)
  then show ?case by (auto simp: Let_def rbind_Panic_iff go_index_def)
qed

lemma bitpack_decode_no_panic_lemma [no_panic]: "BitpackDecode data \<noteq> Inl Panic"
proof (cases "length data < 5")
  case True
  then show ?thesis by (simp add: BitpackDecode_def)
next
  case False
  then show ?thesis
    by (auto simp: BitpackDecode_def Let_def rbind_Panic_iff go_index_def go_slice_def go_from_def
      get_u32_def bitpack_decode_loop_no_panic)
qed

lemma bitpack_decode_loop_length:
  "bitpack_decode_loop b packed n pos = Inr vs \<Longrightarrow> length vs = n"
proof (induction n arbitrary: pos vs)
  case 0
  then show ?case by simp
next
  case (Suc n)
  then show ?case by (auto simp: Let_def split: if_splits)
qed

lemma bits_needed_loop_spec:
  "\<exists>k. bits_needed_loop a v = a + k \<and> v < 2 ^ k \<and> (\<forall>j<k. 2 ^ j \<le> v)"
proof (induction a v rule: bits_needed_loop.induct)
  case (1 a v)
  show ?case
  proof (cases "v > 0")
    case False
    then show ?thesis by (subst bits_needed_loop.simps) (auto intro!: exI [of _ 0])
  next
    case True
    with 1 obtain k where k: "bits_needed_loop (a + 1) (v div 2) = a + 1 + k" "v div 2 < 2 ^ k" "\<forall>j<k. 2 ^ j \<le> v div 2"
      by auto
    have "2 ^ j \<le> v" if "j < Suc k" for j
      using k(3) that True by (cases j) (auto dest!: spec)
    moreover have "bits_needed_loop a v = a + Suc k" using k(1) True by (subst bits_needed_loop.simps) simp
    moreover have "v < 2 ^ Suc k" using k(2) by simp
    ultimately show ?thesis by blast
  qed
qed

lemma bits_needed_least:
  "1 \<le> BitsNeeded n \<and> n \<le> 2 ^ BitsNeeded n \<and> (\<forall>b\<ge>1. n \<le> 2 ^ b \<longrightarrow> BitsNeeded n \<le> b)"
proof (cases "n \<le> 1")
  case True
  then show ?thesis by (simp add: BitsNeeded_def)
next
  case False
  from bits_needed_loop_spec [of 0 "n - 1"] obtain k where
    k: "bits_needed_loop 0 (n - 1) = k" "n - 1 < 2 ^ k" "\<forall>j<k. 2 ^ j \<le> n - 1" by auto
  have "k \<noteq> 0" using k(2) False by (intro notI) simp
  moreover have "k \<le> b" if "n \<le> 2 ^ b" for b
    using k(3) that False by (metis Suc_pred' diff_less_Suc le_less_trans not_le not_less_eq_eq One_nat_def Suc_pred zero_less_iff_neq_zero bot_nat_0.extremum_strict le_0_eq less_Suc_eq_le)
  ultimately show ?thesis using k False by (auto simp: BitsNeeded_def)
qed

lemma bits_needed_le_8: "n \<le> 256 \<Longrightarrow> BitsNeeded n \<le> 8"
  using bits_needed_least [of n] by (auto dest!: spec [of _ 8])

section \<open>Properties\<close>

text \<open>Indices that fit in the chosen number of bits survive packing and unpacking, for every width
  from 1 to 8 bits and every number of indices the header can count.\<close>

lemma bitpack_roundtrip:
  assumes "1 \<le> b" and "b \<le> 8" and "length vs < 2 ^ 32" and "\<forall>v \<in> set vs. unat v < 2 ^ b"
  shows "rbind (BitpackEncode vs b) BitpackDecode = Inr vs"
  using assms by (rule bitpack_roundtrip_lemma)

lemma bitpack_roundtrip_witness:
  "rbind (BitpackEncode [5, 0, 7, 2] 3) BitpackDecode = Inr [5, 0, 7, 2]"
  using bitpack_roundtrip [of 3 "[5, 0, 7, 2]"] by simp

end
