(* ===== verification/Sparse.thy ===== *)
theory Sparse
  imports Strlen Delta Bitpack
begin

text \<open>
  Sparse columns, \<open>internal/logstore/encoding/sparse.go\<close>, and plain zstd blocks,
  \<open>internal/logstore/encoding/zstdblock.go\<close>. A sparse column is a bitmap of the values that
  are present, followed by the present values one after the other. An absent string is the
  empty string; an absent integer, boolean or blob is Go's \<open>nil\<close>, here \<open>None\<close>.
\<close>

section \<open>Bitmaps\<close>

text \<open>The four \<open>buildBitmap\<close> functions of the source differ only in the test for presence.\<close>

fun bitmap_loop :: "('a \<Rightarrow> bool) \<Rightarrow> nat \<Rightarrow> 'a list \<Rightarrow> bytes \<Rightarrow> nat \<Rightarrow> (bytes \<times> nat) res" where
  "bitmap_loop isPresent i [] bitmap nonNullCount = Inr (bitmap, nonNullCount)"
| "bitmap_loop isPresent i (v # vs) bitmap nonNullCount =
     (if isPresent v
      then rbind (go_index bitmap (i div 8)) (\<lambda>b.
             bitmap_loop isPresent (Suc i) vs (bitmap[i div 8 := b OR push_bit (i mod 8) 1]) (nonNullCount + 1))
      else bitmap_loop isPresent (Suc i) vs bitmap nonNullCount)"

definition buildBitmap :: "'a list \<Rightarrow> ('a \<Rightarrow> bool) \<Rightarrow> (bytes \<times> nat) res" where
  "buildBitmap values isPresent = bitmap_loop isPresent 0 values (replicate ((length values + 7) div 8) 0) 0"

definition buildBitmapPtr :: "int64 option list \<Rightarrow> (bytes \<times> nat) res" where
  "buildBitmapPtr values = bitmap_loop (\<lambda>v. v \<noteq> None) 0 values (replicate ((length values + 7) div 8) 0) 0"

definition buildBitmapPtrBool :: "bool option list \<Rightarrow> (bytes \<times> nat) res" where
  "buildBitmapPtrBool values = bitmap_loop (\<lambda>v. v \<noteq> None) 0 values (replicate ((length values + 7) div 8) 0) 0"

definition buildBitmapBytes :: "bytes option list \<Rightarrow> (bytes \<times> nat) res" where
  "buildBitmapBytes values = bitmap_loop (\<lambda>v. v \<noteq> None) 0 values (replicate ((length values + 7) div 8) 0) 0"

definition getBit :: "bytes \<Rightarrow> nat \<Rightarrow> bool" where
  "getBit bitmap i =
     (if i div 8 \<ge> length bitmap then False
      else (bitmap ! (i div 8)) AND push_bit (i mod 8) 1 \<noteq> 0)"

definition marshalSparse :: "nat \<Rightarrow> bytes \<Rightarrow> bytes \<Rightarrow> bytes" where
  "marshalSparse nonNullCount bitmap values =
     put_u32 (of_nat nonNullCount) @ put_u32 (of_nat (length bitmap)) @ bitmap @ values"

definition unmarshalSparse :: "bytes \<Rightarrow> (nat \<times> bytes \<times> bytes) res" where
  "unmarshalSparse data =
     (if length data < 8 then Inl (Errorf ''sparse data too short: %d bytes'' [D (int (length data))])
      else rbind (rbind (go_slice data 0 4) get_u32) (\<lambda>w.
           rbind (rbind (go_slice data 4 8) get_u32) (\<lambda>w'.
             let nonNullCount = unat w; bitmapSize = unat w'
             in if 8 + bitmapSize > length data
                then Inl (Errorf ''bitmap size %d exceeds data length %d'' [D (int bitmapSize), D (int (length data))])
                else rbind (go_slice data 8 (8 + bitmapSize)) (\<lambda>bitmap.
                     rbind (go_from data (8 + bitmapSize)) (\<lambda>values.
                       Inr (nonNullCount, bitmap, values))))))"

section \<open>Columns\<close>

text \<open>
  The decoding loop shared by the string, integer and blob columns: where the bitmap has
  a bit it reads one value with \<open>dec\<close> and moves the offset on.
\<close>

fun sparse_read_loop :: "(nat \<Rightarrow> bytes \<Rightarrow> nat \<Rightarrow> ('a \<times> nat) res) \<Rightarrow> bytes \<Rightarrow> nat \<Rightarrow> nat \<Rightarrow> bytes \<Rightarrow> nat
    \<Rightarrow> 'a option list res" where
  "sparse_read_loop dec bitmap i 0 raw offset = Inr []"
| "sparse_read_loop dec bitmap i (Suc k) raw offset =
     (if getBit bitmap i
      then rbind (dec i raw offset) (\<lambda>(v, offset').
             rbind (sparse_read_loop dec bitmap (Suc i) k raw offset') (\<lambda>vs. Inr (Some v # vs)))
      else rbind (sparse_read_loop dec bitmap (Suc i) k raw offset) (\<lambda>vs. Inr (None # vs)))"

definition sparse_raw :: "zstd \<Rightarrow> string \<Rightarrow> nat \<Rightarrow> bytes \<Rightarrow> int \<Rightarrow> bytes res" where
  "sparse_raw Z msg nonNullCount compressedValues ceiling =
     (if nonNullCount > 0 then wrapf msg [] (DecompressBounded Z compressedValues ceiling) else Inr [])"

definition SparseStrings :: "zstd \<Rightarrow> string list \<Rightarrow> bytes res" where
  "SparseStrings Z values =
     rbind (buildBitmap values (\<lambda>v. v \<noteq> [])) (\<lambda>(bitmap, nonNullCount).
       let buf = fold (\<lambda>v buf. if v \<noteq> [] then AppendLenString buf v else buf) values [];
           compressed = Compress Z buf
       in Inr (marshalSparse nonNullCount bitmap compressed))"

definition sparse_string_at :: "LenFormat \<Rightarrow> nat \<Rightarrow> bytes \<Rightarrow> nat \<Rightarrow> (string \<times> nat) res" where
  "sparse_string_at f i raw offset = wrapf ''sparse string %d'' [D (int i)] (ReadString f raw offset)"

definition UnsparseStrings :: "zstd \<Rightarrow> bytes \<Rightarrow> nat \<Rightarrow> LenFormat \<Rightarrow> string list res" where
  "UnsparseStrings Z data count f =
     rbind (unmarshalSparse data) (\<lambda>(nonNullCount, bitmap, compressedValues).
     rbind (sparse_raw Z ''decompress sparse strings'' nonNullCount compressedValues
              (DecodeCeiling (int count) (MaxColumnValueBytes + MaxLenFramingBytes))) (\<lambda>raw.
     rbind (sparse_read_loop (sparse_string_at f) bitmap 0 count raw 0) (\<lambda>vs.
       Inr (map (case_option [] (\<lambda>v. v)) vs))))"

definition SparseInt64 :: "zstd \<Rightarrow> int64 option list \<Rightarrow> bytes res" where
  "SparseInt64 Z values =
     rbind (buildBitmapPtr values) (\<lambda>(bitmap, nonNullCount).
       let buf = fold (\<lambda>v buf. case v of Some v \<Rightarrow> PutVarint buf v | None \<Rightarrow> buf) values [];
           compressed = Compress Z buf
       in Inr (marshalSparse nonNullCount bitmap compressed))"

definition sparse_int64_at :: "nat \<Rightarrow> bytes \<Rightarrow> nat \<Rightarrow> (int64 \<times> nat) res" where
  "sparse_int64_at i raw offset =
     (if offset \<ge> length raw
      then Inl (Errorf ''sparse int64 %d: truncated at offset %d'' [D (int i), D (int offset)])
      else rbind (go_from raw offset) (\<lambda>rest.
        let (v, n) = varint rest
        in if n \<le> 0 then Inl (Errorf ''sparse int64 %d: invalid varint'' [D (int i)])
           else Inr (v, offset + nat n)))"

definition UnsparseInt64 :: "zstd \<Rightarrow> bytes \<Rightarrow> nat \<Rightarrow> int64 option list res" where
  "UnsparseInt64 Z data count =
     rbind (unmarshalSparse data) (\<lambda>(nonNullCount, bitmap, compressedValues).
     rbind (sparse_raw Z ''decompress sparse int64'' nonNullCount compressedValues
              (DecodeCeiling (int count) MaxVarintBytes)) (\<lambda>raw.
       sparse_read_loop sparse_int64_at bitmap 0 count raw 0))"

text \<open>The value bitmap of a boolean column, filled at the position among the present values.\<close>

fun value_bitmap_loop :: "nat \<Rightarrow> bool option list \<Rightarrow> bytes \<Rightarrow> bytes res" where
  "value_bitmap_loop idx [] valueBitmap = Inr valueBitmap"
| "value_bitmap_loop idx (None # vs) valueBitmap = value_bitmap_loop idx vs valueBitmap"
| "value_bitmap_loop idx (Some v # vs) valueBitmap =
     (if v
      then rbind (go_index valueBitmap (idx div 8)) (\<lambda>b.
             value_bitmap_loop (Suc idx) vs (valueBitmap[idx div 8 := b OR push_bit (idx mod 8) 1]))
      else value_bitmap_loop (Suc idx) vs valueBitmap)"

definition SparseBool :: "bool option list \<Rightarrow> bytes res" where
  "SparseBool values =
     rbind (buildBitmapPtrBool values) (\<lambda>(nullBitmap, nonNullCount).
     rbind (value_bitmap_loop 0 values (replicate ((nonNullCount + 7) div 8) 0)) (\<lambda>valueBitmap.
       Inr (marshalSparse nonNullCount nullBitmap valueBitmap)))"

fun unsparse_bool_loop :: "bytes \<Rightarrow> bytes \<Rightarrow> nat \<Rightarrow> nat \<Rightarrow> nat \<Rightarrow> bool option list" where
  "unsparse_bool_loop nullBitmap valueBitmap i 0 idx = []"
| "unsparse_bool_loop nullBitmap valueBitmap i (Suc k) idx =
     (if getBit nullBitmap i
      then Some (getBit valueBitmap idx) # unsparse_bool_loop nullBitmap valueBitmap (Suc i) k (Suc idx)
      else None # unsparse_bool_loop nullBitmap valueBitmap (Suc i) k idx)"

definition UnsparseBool :: "bytes \<Rightarrow> nat \<Rightarrow> bool option list res" where
  "UnsparseBool data count =
     rbind (unmarshalSparse data) (\<lambda>(_, nullBitmap, valueBitmap).
       Inr (unsparse_bool_loop nullBitmap valueBitmap 0 count 0))"

definition SparseBytes :: "zstd \<Rightarrow> bytes option list \<Rightarrow> bytes res" where
  "SparseBytes Z values =
     rbind (buildBitmapBytes values) (\<lambda>(bitmap, nonNullCount).
       let buf = fold (\<lambda>v buf. case v of Some v \<Rightarrow> (buf @ put_u32 (of_nat (length v))) @ v | None \<Rightarrow> buf) values [];
           compressed = Compress Z buf
       in Inr (marshalSparse nonNullCount bitmap compressed))"

definition sparse_bytes_at :: "nat \<Rightarrow> bytes \<Rightarrow> nat \<Rightarrow> (bytes \<times> nat) res" where
  "sparse_bytes_at i raw offset =
     (if offset + 4 > length raw then Inl (Errorf ''sparse bytes %d: truncated length'' [D (int i)])
      else rbind (rbind (go_from raw offset) get_u32) (\<lambda>w.
        let bLen = unat w; offset = offset + 4
        in if offset + bLen > length raw then Inl (Errorf ''sparse bytes %d: truncated data'' [D (int i)])
           else rbind (go_slice raw offset (offset + bLen)) (\<lambda>val. Inr (val, offset + bLen))))"

definition UnsparseBytes :: "zstd \<Rightarrow> bytes \<Rightarrow> nat \<Rightarrow> bytes option list res" where
  "UnsparseBytes Z data count =
     rbind (unmarshalSparse data) (\<lambda>(nonNullCount, bitmap, compressedValues).
     rbind (sparse_raw Z ''decompress sparse bytes'' nonNullCount compressedValues
              (DecodeCeiling (int count) (MaxColumnValueBytes + MaxLenFramingBytes))) (\<lambda>raw.
       sparse_read_loop sparse_bytes_at bitmap 0 count raw 0))"

section \<open>Zstd blocks\<close>

definition ZstdBlockEncodeStrings :: "zstd \<Rightarrow> string list \<Rightarrow> bytes" where
  "ZstdBlockEncodeStrings Z values = Compress Z (fold (\<lambda>v buf. AppendLenString buf v) values [])"

definition ZstdBlockDecodeStrings :: "zstd \<Rightarrow> bytes \<Rightarrow> nat \<Rightarrow> LenFormat \<Rightarrow> string list res" where
  "ZstdBlockDecodeStrings Z data count f =
     rbind (wrapf ''decompress zstd block strings'' []
              (DecompressBounded Z data (DecodeCeiling (int count) (MaxColumnValueBytes + MaxLenFramingBytes)))) (\<lambda>raw.
     rbind (read_loop ''zstd block string %d'' (ReadString f) 0 count raw 0) (\<lambda>(result, _). Inr result))"

definition ZstdBlockEncodeInt64 :: "zstd \<Rightarrow> int64 list \<Rightarrow> bytes" where
  "ZstdBlockEncodeInt64 Z values = Compress Z (concat (map put_u64 values))"

fun zstd_int64_loop :: "nat \<Rightarrow> nat \<Rightarrow> bytes \<Rightarrow> int64 list res" where
  "zstd_int64_loop i 0 raw = Inr []"
| "zstd_int64_loop i (Suc k) raw =
     (if i * 8 + 8 > length raw then Inr (replicate (Suc k) 0)
      else rbind (rbind (go_from raw (i * 8)) get_u64) (\<lambda>w.
             rbind (zstd_int64_loop (Suc i) k raw) (\<lambda>ws. Inr (w # ws))))"

definition ZstdBlockDecodeInt64 :: "zstd \<Rightarrow> bytes \<Rightarrow> nat \<Rightarrow> int64 list res" where
  "ZstdBlockDecodeInt64 Z data count =
     rbind (wrapf ''decompress zstd block int64'' []
              (DecompressBounded Z data (DecodeCeiling (int count) 8))) (\<lambda>raw.
       zstd_int64_loop 0 count raw)"

section \<open>Lemmas on bitmaps\<close>

lemma getBit_pbit: "getBit bitmap i = pbit bitmap i"
proof (cases "i div 8 < length bitmap")
  case False
  then have "\<not> i < 8 * length bitmap" by (simp add: less_mult_imp_div_less mult.commute)
  then show ?thesis using False by (simp add: getBit_def pbit_def)
next
  case True
  have i: "i < 8 * length bitmap" using True by (simp add: div_less_iff_less_mult mult.commute)
  have "(bitmap ! (i div 8)) AND push_bit (i mod 8) 1 \<noteq> 0 \<longleftrightarrow> bit (bitmap ! (i div 8)) (i mod 8)"
    by (simp add: and_exp_eq_0_iff_not_bit push_bit_eq_mult)
  then show ?thesis using True i by (simp add: getBit_def pbit_def)
qed

lemma pbit_set:
  assumes "i < 8 * length bitmap"
  shows "pbit (bitmap[i div 8 := bitmap ! (i div 8) OR push_bit (i mod 8) 1]) k \<longleftrightarrow> pbit bitmap k \<or> k = i"
proof -
  have i: "i div 8 < length bitmap" using assms by (simp add: div_less_iff_less_mult mult.commute)
  have same: "k div 8 = i div 8 \<Longrightarrow> k mod 8 = i mod 8 \<Longrightarrow> k = i"
    by (metis mult_div_mod_eq)
  show ?thesis
  proof (cases "k div 8 = i div 8")
    case True
    have "bit (push_bit (i mod 8) 1 :: byte) (k mod 8) \<longleftrightarrow> k mod 8 = i mod 8"
      by (auto simp: push_bit_eq_mult bit_exp_iff)
    then show ?thesis using True i assms same by (auto simp: pbit_def bit_or_iff)
  next
    case False
    then show ?thesis by (auto simp: pbit_def)
  qed
qed

lemma bitmap_loop_spec:
  "i + length vs \<le> 8 * length bitmap \<Longrightarrow>
   \<exists>bitmap'. bitmap_loop P i vs bitmap n = Inr (bitmap', n + length (filter P vs)) \<and> length bitmap' = length bitmap \<and>
     (\<forall>k. pbit bitmap' k \<longleftrightarrow> pbit bitmap k \<or> (i \<le> k \<and> k < i + length vs \<and> P (vs ! (k - i))))"
proof (induction vs arbitrary: i bitmap n)
  case Nil
  then show ?case by auto
next
  case (Cons v vs)
  have i: "i < 8 * length bitmap" "i div 8 < length bitmap"
    using Cons.prems by (simp_all add: div_less_iff_less_mult mult.commute)
  have shift: "(i \<le> k \<and> k < i + length (v # vs) \<and> P ((v # vs) ! (k - i)))
      \<longleftrightarrow> (k = i \<and> P v) \<or> (Suc i \<le> k \<and> k < Suc i + length vs \<and> P (vs ! (k - Suc i)))" for k
    by (cases "k = i") (auto simp: nth_Cons' Suc_diff_le)
  show ?case
  proof (cases "P v")
    case True
    let ?b = "bitmap[i div 8 := bitmap ! (i div 8) OR push_bit (i mod 8) 1]"
    from Cons.IH [of "Suc i" ?b "n + 1"] Cons.prems obtain bitmap' where
      r: "bitmap_loop P (Suc i) vs ?b (n + 1) = Inr (bitmap', n + 1 + length (filter P vs))" "length bitmap' = length bitmap"
        "\<And>k. pbit bitmap' k \<longleftrightarrow> pbit ?b k \<or> (Suc i \<le> k \<and> k < Suc i + length vs \<and> P (vs ! (k - Suc i)))"
      by auto
    then have "pbit bitmap' k \<longleftrightarrow> pbit bitmap k \<or> (i \<le> k \<and> k < i + length (v # vs) \<and> P ((v # vs) ! (k - i)))" for k
      unfolding shift using pbit_set [OF i(1), of k] True by blast
    then show ?thesis using True i r(1,2) by simp
  next
    case False
    from Cons.IH [of "Suc i" bitmap n] Cons.prems obtain bitmap' where
      r: "bitmap_loop P (Suc i) vs bitmap n = Inr (bitmap', n + length (filter P vs))" "length bitmap' = length bitmap"
        "\<And>k. pbit bitmap' k \<longleftrightarrow> pbit bitmap k \<or> (Suc i \<le> k \<and> k < Suc i + length vs \<and> P (vs ! (k - Suc i)))"
      by auto
    then have "pbit bitmap' k \<longleftrightarrow> pbit bitmap k \<or> (i \<le> k \<and> k < i + length (v # vs) \<and> P ((v # vs) ! (k - i)))" for k
      unfolding shift using False by blast
    then show ?thesis using False r(1,2) by simp
  qed
qed

lemma bitmap_spec:
  "\<exists>bitmap. bitmap_loop P 0 vs (replicate ((length vs + 7) div 8) 0) 0 = Inr (bitmap, length (filter P vs)) \<and>
     length bitmap = (length vs + 7) div 8 \<and> (\<forall>k. getBit bitmap k \<longleftrightarrow> k < length vs \<and> P (vs ! k))"
  using bitmap_loop_spec [of 0 vs "replicate ((length vs + 7) div 8) 0" P 0] packed_size_fits [of "length vs"]
  by (auto simp: getBit_pbit)

lemma unmarshal_marshal_sparse:
  assumes "n < 2 ^ 32" "length bitmap < 2 ^ 32"
  shows "unmarshalSparse (marshalSparse n bitmap values) = Inr (n, bitmap, values)"
proof -
  have "unat (of_nat n :: u32) = n" "unat (of_nat (length bitmap) :: u32) = length bitmap"
    using assms by (simp_all add: unat_of_nat_small)
  then show ?thesis by (simp add: unmarshalSparse_def marshalSparse_def Let_def)
qed

lemma unmarshal_sparse_no_panic: "unmarshalSparse data \<noteq> Inl Panic"
  by (auto simp: unmarshalSparse_def Let_def rbind_Panic_iff get_u32_def)

section \<open>The shared reading loop\<close>

text \<open>The contract of a reader of one present value; the index is for its error messages only.\<close>

locale indexed_codec =
  fixes enc :: "'a \<Rightarrow> bytes"
    and dec :: "nat \<Rightarrow> bytes \<Rightarrow> nat \<Rightarrow> ('a \<times> nat) res"
    and valid :: "'a \<Rightarrow> bool"
  assumes dec_enc: "valid v \<Longrightarrow> dec i (p @ enc v @ q) (length p) = Inr (v, length p + length (enc v))"
    and dec_no_panic: "off \<le> length data \<Longrightarrow> dec i data off \<noteq> Inl Panic"
    and dec_bounds: "dec i data off = Inr (v, off') \<Longrightarrow> off \<le> length data \<Longrightarrow> off' \<le> length data"
begin

lemma sparse_loop_concat:
  "\<forall>v. Some v \<in> set os \<longrightarrow> valid v \<Longrightarrow> \<forall>k < length os. getBit bitmap (i + k) \<longleftrightarrow> os ! k \<noteq> None \<Longrightarrow>
   sparse_read_loop dec bitmap i (length os) (p @ concat (map (case_option [] enc) os)) (length p) = Inr os"
proof (induction os arbitrary: i p)
  case Nil
  show ?case by simp
next
  case (Cons x os)
  have bits: "\<forall>k < length os. getBit bitmap (Suc i + k) \<longleftrightarrow> os ! k \<noteq> None"
    using Cons.prems(2) by (auto dest: spec [of _ "Suc _"])
  have now: "getBit bitmap i \<longleftrightarrow> x \<noteq> None" using Cons.prems(2) by (auto dest: spec [of _ 0])
  show ?case
  proof (cases x)
    case None
    then show ?thesis using Cons.IH [OF _ bits, of p] Cons.prems(1) now by simp
  next
    case (Some v)
    have "dec i (p @ enc v @ concat (map (case_option [] enc) os)) (length p) = Inr (v, length p + length (enc v))"
      using Cons.prems(1) Some by (intro dec_enc) simp
    then show ?thesis using Cons.IH [OF _ bits, of "p @ enc v"] Cons.prems(1) now Some by simp
  qed
qed

lemma sparse_loop_no_panic: "off \<le> length raw \<Longrightarrow> sparse_read_loop dec bitmap i k raw off \<noteq> Inl Panic"
proof (induction k arbitrary: i off)
  case 0
  show ?case by simp
next
  case (Suc k)
  then show ?case
    using dec_no_panic [of off raw i] dec_bounds [of i raw off]
    by (auto simp: rbind_Panic_iff split: prod.splits)
qed

end

interpretation sparse_string: indexed_codec "AppendLenString []" "sparse_string_at LenExtended" "\<lambda>s. length s \<le> MaxValueBytes"
proof unfold_locales
  fix s i p q
  show "length s \<le> MaxValueBytes \<Longrightarrow> sparse_string_at LenExtended i (p @ AppendLenString [] s @ q) (length p)
      = Inr (s, length p + length (AppendLenString [] s))"
    by (simp add: sparse_string_at_def read_AppendLenString)
next
  fix off data i v off'
  show "off \<le> length data \<Longrightarrow> sparse_string_at LenExtended i data off \<noteq> Inl Panic"
    using ReadString_safe by (simp add: sparse_string_at_def)
  show "sparse_string_at LenExtended i data off = Inr (v, off') \<Longrightarrow> off \<le> length data \<Longrightarrow> off' \<le> length data"
    using ReadString_safe by (simp add: sparse_string_at_def)
qed

lemma varint_consumed: "varint buf = (v, n) \<Longrightarrow> n \<le> int (length buf)"
  using uvarint_consumed by (fastforce simp: varint_def Let_def split: prod.splits)

interpretation sparse_int: indexed_codec put_varint sparse_int64_at "\<lambda>_. True"
proof unfold_locales
  fix v :: int64 and i :: nat and p q :: bytes
  have "put_varint v \<noteq> []" by (simp add: put_varint_def Let_def)
  then show "sparse_int64_at i (p @ put_varint v @ q) (length p) = Inr (v, length p + length (put_varint v))"
    by (simp add: sparse_int64_at_def Let_def)
next
  fix data off i v off'
  show "off \<le> length data \<Longrightarrow> sparse_int64_at i data off \<noteq> Inl Panic"
    by (auto simp: sparse_int64_at_def rbind_Panic_iff Let_def split: prod.splits)
  show "sparse_int64_at i data off = Inr (v, off') \<Longrightarrow> off \<le> length data \<Longrightarrow> off' \<le> length data"
    using varint_consumed [of "drop off data"]
    by (fastforce simp: sparse_int64_at_def Let_def split: if_splits prod.splits)
qed

interpretation sparse_blob: indexed_codec "\<lambda>v. put_u32 (of_nat (length v)) @ v" sparse_bytes_at "\<lambda>v. length v < 2 ^ 32"
proof unfold_locales
  fix v :: bytes and i :: nat and p q :: bytes
  assume "length v < 2 ^ 32"
  then have "unat (of_nat (length v) :: u32) = length v" by (simp add: unat_of_nat_small)
  then show "sparse_bytes_at i (p @ (put_u32 (of_nat (length v)) @ v) @ q) (length p)
      = Inr (v, length p + length (put_u32 (of_nat (length v)) @ v))"
    by (simp add: sparse_bytes_at_def Let_def)
qed (auto simp: sparse_bytes_at_def rbind_Panic_iff Let_def get_u32_def split: if_splits)

section \<open>Columns read back\<close>

text \<open>
  What a writer may put in one block so that the reader's ceiling admits it, and that a
  column has few enough values for the \<open>uint32\<close> counts of its header.
\<close>

definition block_fits :: "bytes \<Rightarrow> nat \<Rightarrow> int \<Rightarrow> bool" where
  "block_fits raw count perValue \<longleftrightarrow> int (length raw) \<le> DecodeCeiling (int count) perValue"

lemma decompress_block:
  assumes "zstd_lib Z" "block_fits raw count perValue"
  shows "DecompressBounded Z (Compress Z raw) (DecodeCeiling (int count) perValue) = Inr raw"
  using assms decode_ceiling_range [of "int count" perValue]
  by (intro decompress_compress) (auto simp: block_fits_def minDecodeCeiling_def)

lemma fold_append: "(\<And>v buf. f v buf = buf @ g v) \<Longrightarrow> fold f vs buf = buf @ concat (map g vs)"
  by (induction vs arbitrary: buf) auto

text \<open>The part common to the compressed sparse columns, on the values as options.\<close>

context indexed_codec
begin

lemma sparse_column:
  assumes Z: "zstd_lib Z" and os: "\<forall>v. Some v \<in> set os \<longrightarrow> valid v"
    and fits: "block_fits (concat (map (case_option [] enc) os)) (length os) perValue"
    and bm: "\<forall>k. getBit bitmap k \<longleftrightarrow> k < length os \<and> os ! k \<noteq> None"
    and n: "n = length (filter (\<lambda>v. v \<noteq> None) os)"
  shows "rbind (sparse_raw Z msg n (Compress Z (concat (map (case_option [] enc) os))) (DecodeCeiling (int (length os)) perValue))
           (\<lambda>raw. sparse_read_loop dec bitmap 0 (length os) raw 0) = Inr os"
proof -
  let ?raw = "concat (map (case_option [] enc) os)"
  have "sparse_raw Z msg n (Compress Z ?raw) (DecodeCeiling (int (length os)) perValue) = Inr ?raw"
  proof (cases "n = 0")
    case True
    then have "\<forall>v\<in>set os. v = None" using n by (simp add: filter_empty_conv)
    then have "?raw = []" by (auto split: option.splits)
    then show ?thesis using True by (simp add: sparse_raw_def)
  next
    case False
    then show ?thesis using decompress_block [OF Z fits] by (simp add: sparse_raw_def)
  qed
  moreover have "sparse_read_loop dec bitmap 0 (length os) ?raw 0 = Inr os"
    using sparse_loop_concat [of os bitmap 0 "[]"] os bm by simp
  ultimately show ?thesis by simp
qed

end

lemma filter_length_small: "length vs < 2 ^ 32 \<Longrightarrow> length (filter P vs) < (2 :: nat) ^ 32"
  using length_filter_le [of P vs] by linarith

lemma bitmap_size_small: "n < 2 ^ 32 \<Longrightarrow> (n + 7) div 8 < (2 :: nat) ^ 32"
  by auto

lemma sparse_int64_roundtrip_lemma:
  assumes Z: "zstd_lib Z" and n: "length vs < 2 ^ 32" and fits: "10 * int (length vs) \<le> MaxBlockBytes"
  shows "rbind (SparseInt64 Z vs) (\<lambda>d. UnsparseInt64 Z d (length vs)) = Inr vs"
proof -
  let ?raw = "concat (map (case_option [] put_varint) vs)"
  have each: "length (case_option [] put_varint v) \<le> 10" for v
    by (cases v) (auto simp: put_varint_def Let_def length_put_uvarint_le)
  have "length ?raw \<le> 10 * length vs"
  proof (induction vs)
    case (Cons v vs)
    then show ?case using each [of v] by simp
  qed simp
  then have bf: "block_fits ?raw (length vs) MaxVarintBytes"
    using fits unfolding block_fits_def by (intro decode_ceiling_admits) (auto simp: MaxVarintBytes_def)
  have buf: "fold (\<lambda>v buf. case v of Some v \<Rightarrow> PutVarint buf v | None \<Rightarrow> buf) vs [] = ?raw"
    by (subst fold_append [where g = "case_option [] put_varint"]) (auto simp: PutVarint_def split: option.splits)
  obtain bitmap where bm: "buildBitmapPtr vs = Inr (bitmap, length (filter (\<lambda>v. v \<noteq> None) vs))"
    "length bitmap = (length vs + 7) div 8" "\<forall>k. getBit bitmap k \<longleftrightarrow> k < length vs \<and> vs ! k \<noteq> None"
    using bitmap_spec [of "\<lambda>v. v \<noteq> None" vs] unfolding buildBitmapPtr_def by blast
  have "unmarshalSparse (marshalSparse (length (filter (\<lambda>v. v \<noteq> None) vs)) bitmap (Compress Z ?raw))
      = Inr (length (filter (\<lambda>v. v \<noteq> None) vs), bitmap, Compress Z ?raw)"
    using bm(2) n by (intro unmarshal_marshal_sparse filter_length_small) (simp_all add: bitmap_size_small)
  then show ?thesis
    using sparse_int.sparse_column [OF Z _ bf bm(3) refl] bm(1)
    by (simp add: SparseInt64_def UnsparseInt64_def buf)
qed

lemma sparse_bytes_roundtrip_lemma:
  assumes Z: "zstd_lib Z" and n: "length vs < 2 ^ 32" and small: "\<forall>v. Some v \<in> set vs \<longrightarrow> length v < 2 ^ 32"
    and fits: "block_fits (concat (map (case_option [] (\<lambda>v. put_u32 (of_nat (length v)) @ v)) vs)) (length vs)
      (MaxColumnValueBytes + MaxLenFramingBytes)"
  shows "rbind (SparseBytes Z vs) (\<lambda>d. UnsparseBytes Z d (length vs)) = Inr vs"
proof -
  let ?raw = "concat (map (case_option [] (\<lambda>v. put_u32 (of_nat (length v)) @ v)) vs)"
  have buf: "fold (\<lambda>v buf. case v of Some v \<Rightarrow> (buf @ put_u32 (of_nat (length v))) @ v | None \<Rightarrow> buf) vs [] = ?raw"
    by (subst fold_append [where g = "case_option [] (\<lambda>v. put_u32 (of_nat (length v)) @ v)"]) (auto split: option.splits)
  obtain bitmap where bm: "buildBitmapBytes vs = Inr (bitmap, length (filter (\<lambda>v. v \<noteq> None) vs))"
    "length bitmap = (length vs + 7) div 8" "\<forall>k. getBit bitmap k \<longleftrightarrow> k < length vs \<and> vs ! k \<noteq> None"
    using bitmap_spec [of "\<lambda>v. v \<noteq> None" vs] unfolding buildBitmapBytes_def by blast
  have "unmarshalSparse (marshalSparse (length (filter (\<lambda>v. v \<noteq> None) vs)) bitmap (Compress Z ?raw))
      = Inr (length (filter (\<lambda>v. v \<noteq> None) vs), bitmap, Compress Z ?raw)"
    using bm(2) n by (intro unmarshal_marshal_sparse filter_length_small) (simp_all add: bitmap_size_small)
  then show ?thesis
    using sparse_blob.sparse_column [OF Z small fits bm(3) refl] bm(1)
    by (simp add: SparseBytes_def UnsparseBytes_def buf)
qed

text \<open>A string column as options: the empty string is the absent value.\<close>

definition string_opt :: "string \<Rightarrow> string option" where
  "string_opt s = (if s = [] then None else Some s)"

lemma case_string_opt [simp]: "case_option [] (\<lambda>v. v) (string_opt s) = s"
  by (simp add: string_opt_def)

lemma sparse_strings_roundtrip_lemma:
  assumes Z: "zstd_lib Z" and n: "length vs < 2 ^ 32" and small: "\<forall>v \<in> set vs. length v \<le> MaxValueBytes"
    and fits: "block_fits (concat (map (\<lambda>v. if v = [] then [] else AppendLenString [] v) vs)) (length vs)
      (MaxColumnValueBytes + MaxLenFramingBytes)"
  shows "rbind (SparseStrings Z vs) (\<lambda>d. UnsparseStrings Z d (length vs) LenExtended) = Inr vs"
proof -
  let ?os = "map string_opt vs"
  let ?raw = "concat (map (case_option [] (AppendLenString [])) ?os)"
  have raw: "?raw = concat (map (\<lambda>v. if v = [] then [] else AppendLenString [] v) vs)"
    by (rule arg_cong [where f = concat]) (simp add: string_opt_def)
  have fits': "block_fits ?raw (length ?os) (MaxColumnValueBytes + MaxLenFramingBytes)"
    unfolding raw using fits by simp
  have buf: "fold (\<lambda>v buf. if v \<noteq> [] then AppendLenString buf v else buf) vs [] = ?raw"
    unfolding raw by (subst fold_append [where g = "\<lambda>v. if v = [] then [] else AppendLenString [] v"])
      (auto simp: AppendLenString_buf [symmetric])
  have len: "length (filter (\<lambda>v. v \<noteq> []) vs) = length (filter (\<lambda>v. v \<noteq> None) ?os)"
    by (simp add: filter_map comp_def string_opt_def)
  obtain bitmap where bm: "buildBitmap vs (\<lambda>v. v \<noteq> []) = Inr (bitmap, length (filter (\<lambda>v. v \<noteq> []) vs))"
    "length bitmap = (length vs + 7) div 8" "\<forall>k. getBit bitmap k \<longleftrightarrow> k < length vs \<and> vs ! k \<noteq> []"
    using bitmap_spec [of "\<lambda>v. v \<noteq> []" vs] unfolding buildBitmap_def by blast
  have bm': "\<forall>k. getBit bitmap k \<longleftrightarrow> k < length ?os \<and> ?os ! k \<noteq> None"
    by (simp add: bm(3) string_opt_def cong: conj_cong)
  have "unmarshalSparse (marshalSparse (length (filter (\<lambda>v. v \<noteq> []) vs)) bitmap (Compress Z ?raw))
      = Inr (length (filter (\<lambda>v. v \<noteq> []) vs), bitmap, Compress Z ?raw)"
    using bm(2) n by (intro unmarshal_marshal_sparse filter_length_small) (simp_all add: bitmap_size_small)
  moreover
  have "rbind (sparse_raw Z ''decompress sparse strings'' (length (filter (\<lambda>v. v \<noteq> []) vs)) (Compress Z ?raw)
        (DecodeCeiling (int (length ?os)) (MaxColumnValueBytes + MaxLenFramingBytes)))
        (\<lambda>raw. sparse_read_loop (sparse_string_at LenExtended) bitmap 0 (length ?os) raw 0) = Inr ?os"
    using small by (intro sparse_string.sparse_column [OF Z _ fits' bm' len])
      (auto simp: string_opt_def split: if_splits)
  then obtain raw where "sparse_raw Z ''decompress sparse strings'' (length (filter (\<lambda>v. v \<noteq> []) vs)) (Compress Z ?raw)
        (DecodeCeiling (int (length vs)) (MaxColumnValueBytes + MaxLenFramingBytes)) = Inr raw"
      "sparse_read_loop (sparse_string_at LenExtended) bitmap 0 (length vs) raw 0 = Inr ?os"
    by auto
  ultimately show ?thesis
    using bm(1) by (simp add: SparseStrings_def UnsparseStrings_def buf comp_def)
qed

text \<open>
  A boolean column has no block: the values are a second bitmap, indexed by the position
  among the present values.
\<close>

fun present :: "'a option list \<Rightarrow> 'a list" where
  "present [] = []"
| "present (None # os) = present os"
| "present (Some v # os) = v # present os"

lemma length_present: "length (present os) = length (filter (\<lambda>v. v \<noteq> None) os)"
  by (induction os rule: present.induct) auto

lemma value_bitmap_loop_present:
  "value_bitmap_loop idx vs b = (case bitmap_loop (\<lambda>v. v) idx (present vs) b n of
      Inl e \<Rightarrow> Inl e | Inr (b', _) \<Rightarrow> Inr b')"
  by (induction vs arbitrary: idx b n rule: present.induct) (auto simp: go_index_def split: sum.splits)

lemma unsparse_bool_loop_present:
  "\<forall>k < length os. getBit nullBitmap (i + k) \<longleftrightarrow> os ! k \<noteq> None \<Longrightarrow>
   \<forall>k < length (present os). getBit valueBitmap (idx + k) \<longleftrightarrow> present os ! k \<Longrightarrow>
   unsparse_bool_loop nullBitmap valueBitmap i (length os) idx = os"
proof (induction os arbitrary: i idx)
  case Nil
  show ?case by simp
next
  case (Cons x os)
  have bits: "\<forall>k < length os. getBit nullBitmap (Suc i + k) \<longleftrightarrow> os ! k \<noteq> None"
    using Cons.prems(1) by (auto dest: spec [of _ "Suc _"])
  have now: "getBit nullBitmap i \<longleftrightarrow> x \<noteq> None" using Cons.prems(1) by (auto dest: spec [of _ 0])
  show ?case
  proof (cases x)
    case None
    then show ?thesis using Cons.IH [OF bits] Cons.prems(2) now by simp
  next
    case (Some v)
    have "\<forall>k < length (present os). getBit valueBitmap (Suc idx + k) \<longleftrightarrow> present os ! k"
      using Cons.prems(2) Some by (auto dest: spec [of _ "Suc _"])
    moreover have "getBit valueBitmap idx \<longleftrightarrow> v" using Cons.prems(2) Some by (auto dest: spec [of _ 0])
    ultimately show ?thesis using Cons.IH [OF bits] now Some by simp
  qed
qed

lemma sparse_bool_roundtrip_lemma:
  assumes n: "length vs < 2 ^ 32"
  shows "rbind (SparseBool vs) (\<lambda>d. UnsparseBool d (length vs)) = Inr vs"
proof -
  let ?n = "length (filter (\<lambda>v. v \<noteq> None) vs)"
  obtain bitmap where bm: "buildBitmapPtrBool vs = Inr (bitmap, ?n)"
    "length bitmap = (length vs + 7) div 8" "\<forall>k. getBit bitmap k \<longleftrightarrow> k < length vs \<and> vs ! k \<noteq> None"
    using bitmap_spec [of "\<lambda>v. v \<noteq> None" vs] unfolding buildBitmapPtrBool_def by blast
  obtain vb where vb: "bitmap_loop (\<lambda>v. v) 0 (present vs) (replicate ((?n + 7) div 8) 0) 0 = Inr (vb, length (filter (\<lambda>v. v) (present vs)))"
    "\<forall>k. getBit vb k \<longleftrightarrow> k < length (present vs) \<and> present vs ! k"
    using bitmap_spec [of "\<lambda>v. v" "present vs"] by (auto simp: length_present)
  have "value_bitmap_loop 0 vs (replicate ((?n + 7) div 8) 0) = Inr vb"
    using vb(1) value_bitmap_loop_present [of 0 vs _ 0] by simp
  moreover have "unmarshalSparse (marshalSparse ?n bitmap vb) = Inr (?n, bitmap, vb)"
    using bm(2) n by (intro unmarshal_marshal_sparse filter_length_small) (simp_all add: bitmap_size_small)
  moreover have "unsparse_bool_loop bitmap vb 0 (length vs) 0 = vs"
    using bm(3) vb(2) by (intro unsparse_bool_loop_present) auto
  ultimately show ?thesis using bm(1) by (simp add: SparseBool_def UnsparseBool_def)
qed

section \<open>Zstd blocks read back\<close>

lemma zstd_strings_roundtrip_lemma:
  assumes Z: "zstd_lib Z" and small: "\<forall>v \<in> set vs. length v \<le> MaxValueBytes"
    and fits: "block_fits (concat (map (AppendLenString []) vs)) (length vs) (MaxColumnValueBytes + MaxLenFramingBytes)"
  shows "ZstdBlockDecodeStrings Z (ZstdBlockEncodeStrings Z vs) (length vs) LenExtended = Inr vs"
  using decompress_block [OF Z fits] len_string.read_loop_concat [of vs "''zstd block string %d''" 0 "[]" "[]"] small
  by (simp add: ZstdBlockDecodeStrings_def ZstdBlockEncodeStrings_def fold_AppendLenString list_all_iff)

lemma zstd_int64_loop_put:
  "length p = i * 8 \<Longrightarrow> zstd_int64_loop i (length ws) (p @ concat (map put_u64 ws)) = Inr ws"
proof (induction ws arbitrary: i p)
  case Nil
  then show ?case by simp
next
  case (Cons w ws)
  have "zstd_int64_loop (Suc i) (length ws) ((p @ put_u64 w) @ concat (map put_u64 ws)) = Inr ws"
    using Cons.prems by (intro Cons.IH) simp
  then show ?case using Cons.prems by simp
qed

lemma zstd_int64_loop_no_panic: "zstd_int64_loop i k raw \<noteq> Inl Panic"
  by (induction k arbitrary: i) (auto simp: rbind_Panic_iff get_u64_def)

lemma length_concat_put_u64 [simp]: "length (concat (map put_u64 ws)) = 8 * length ws"
  by (induction ws) auto

lemma zstd_int64_roundtrip_lemma:
  assumes Z: "zstd_lib Z" and fits: "8 * int (length vs) \<le> MaxBlockBytes"
  shows "ZstdBlockDecodeInt64 Z (ZstdBlockEncodeInt64 Z vs) (length vs) = Inr vs"
proof -
  have "block_fits (concat (map put_u64 vs)) (length vs) 8"
    using fits unfolding block_fits_def by (intro decode_ceiling_admits) auto
  then show ?thesis
    using decompress_block [OF Z] zstd_int64_loop_put [of "[]" 0 vs]
    by (simp add: ZstdBlockDecodeInt64_def ZstdBlockEncodeInt64_def)
qed

section \<open>Decoders on arbitrary data\<close>

lemma sparse_raw_no_panic: "sparse_raw Z m n c x \<noteq> Inl Panic"
  by (simp add: sparse_raw_def decompress_no_panic)

lemma sparse_string_at_safe:
  "sparse_string_at f i data off \<noteq> Inl Panic"
  "sparse_string_at f i data off = Inr (v, off') \<Longrightarrow> off' \<le> length data"
  using ReadString_safe [of f data off] by (auto simp: sparse_string_at_def)

lemma sparse_string_loop_no_panic: "sparse_read_loop (sparse_string_at f) bitmap i k raw off \<noteq> Inl Panic"
proof (induction k arbitrary: i off)
  case 0
  show ?case by simp
next
  case (Suc k)
  then show ?case using sparse_string_at_safe(1) [of f i raw off] by (auto simp: rbind_Panic_iff)
qed

lemma unsparse_no_panic [no_panic]:
  "UnsparseStrings Z data count f \<noteq> Inl Panic"
  "UnsparseInt64 Z data count \<noteq> Inl Panic"
  "UnsparseBool data count \<noteq> Inl Panic"
  "UnsparseBytes Z data count \<noteq> Inl Panic"
  "ZstdBlockDecodeStrings Z data count f \<noteq> Inl Panic"
  "ZstdBlockDecodeInt64 Z data count \<noteq> Inl Panic"
  by (auto simp: UnsparseStrings_def UnsparseInt64_def UnsparseBool_def UnsparseBytes_def
    ZstdBlockDecodeStrings_def ZstdBlockDecodeInt64_def rbind_Panic_iff unmarshal_sparse_no_panic
    sparse_raw_no_panic sparse_string_loop_no_panic sparse_int.sparse_loop_no_panic
    sparse_blob.sparse_loop_no_panic decompress_no_panic zstd_int64_loop_no_panic
    len_reader.read_loop_no_panic)

section \<open>Sizes\<close>

lemma length_framed:
  "\<forall>v \<in> set vs. int (length v) \<le> MaxColumnValueBytes \<Longrightarrow>
   int (length (concat (map (\<lambda>v. if v = [] then [] else AppendLenString [] v) vs)))
     \<le> int (length vs) * (MaxColumnValueBytes + MaxLenFramingBytes)"
proof (induction vs)
  case Nil
  show ?case by simp
next
  case (Cons v vs)
  have "int (length (AppendLenString [] v)) \<le> MaxColumnValueBytes + MaxLenFramingBytes"
    using Cons.prems by (auto simp: length_AppendLenString MaxLenFramingBytes_def)
  then show ?case using Cons by (auto simp: distrib_right zstd_consts)
qed

lemma decompress_over_ceiling:
  assumes Z: "zstd_lib Z" and mx: "0 < mx" "mx < MaxBlockBytes" and big: "int (length src) \<ge> 2 * mx"
    "int (length src) > decoderBucketMin"
  shows "\<exists>e. DecompressBounded Z (Compress Z src) mx = Inl e \<and> e \<noteq> Panic"
proof -
  have ne: "src \<noteq> []" using big mx by auto
  have "decoderBucket mx < int (length src)" "0 \<le> decoderBucket mx"
    using decoder_bucket_loop [OF mx(2)] big mx by auto
  then have "DecodeAll Z (nat (decoderBucket mx)) (EncodeAll Z src) = None"
    using Z ne by (auto simp: zstd_lib_def)
  moreover have "EncodeAll Z src \<noteq> []" using Z ne by (simp add: zstd_lib_def)
  ultimately show ?thesis using mx
    by (auto simp: DecompressBounded_def Compress_def Let_def split: option.splits)
qed

section \<open>Properties\<close>

text \<open>A sparse string column decodes to itself, empty strings included, when no value is over the
  1 MiB column limit and the values together can be decoded as one block.\<close>

lemma sparse_strings_roundtrip:
  assumes "zstd_lib Z" and "length vs < 2 ^ 32" and "\<forall>v \<in> set vs. int (length v) \<le> MaxColumnValueBytes"
    and "int (length (concat (map (\<lambda>v. if v = [] then [] else AppendLenString [] v) vs))) \<le> MaxBlockBytes"
  shows "rbind (SparseStrings Z vs) (\<lambda>d. UnsparseStrings Z d (length vs) LenExtended) = Inr vs"
proof -
  let ?raw = "concat (map (\<lambda>v. if v = [] then [] else AppendLenString [] v) vs)"
  have "int (length ?raw) \<le> int (length vs) * (MaxColumnValueBytes + MaxLenFramingBytes)"
    using assms(3) by (rule length_framed)
  then have "block_fits ?raw (length vs) (MaxColumnValueBytes + MaxLenFramingBytes)"
    using assms(4) unfolding block_fits_def by (intro decode_ceiling_admits) (auto simp: zstd_consts)
  moreover have "\<forall>v \<in> set vs. length v \<le> MaxValueBytes"
    using assms(3) by (auto simp: MaxColumnValueBytes_def MaxValueBytes_def)
  ultimately show ?thesis using assms(1,2) by (intro sparse_strings_roundtrip_lemma)
qed

lemma sparse_strings_roundtrip_witness:
  "rbind (SparseStrings stored_zstd [''t1'', [], ''t2'']) (\<lambda>d. UnsparseStrings stored_zstd d 3 LenExtended) = Inr [''t1'', [], ''t2'']"
  using sparse_strings_roundtrip [of stored_zstd "[''t1'', [], ''t2'']"] stored_zstd_lib
  by (simp add: zstd_consts length_AppendLenString strlen_consts numeral_3_eq_3)

text \<open>Sparse integer and boolean columns decode to themselves: every present value and every absent
  one, for all 64-bit integers.\<close>

lemma sparse_values_roundtrip:
  assumes "zstd_lib Z" and "length is < 2 ^ 32" and "10 * int (length is) \<le> MaxBlockBytes" and "length bs < 2 ^ 32"
  shows "rbind (SparseInt64 Z is) (\<lambda>d. UnsparseInt64 Z d (length is)) = Inr is \<and>
         rbind (SparseBool bs) (\<lambda>d. UnsparseBool d (length bs)) = Inr bs"
  using assms sparse_int64_roundtrip_lemma [of Z "is"] sparse_bool_roundtrip_lemma [of bs] by blast

lemma sparse_values_roundtrip_witness:
  "rbind (SparseInt64 stored_zstd [Some 200, None, Some (- 1)]) (\<lambda>d. UnsparseInt64 stored_zstd d 3) = Inr [Some 200, None, Some (- 1)] \<and>
   rbind (SparseBool [None, Some True, Some False]) (\<lambda>d. UnsparseBool d 3) = Inr [None, Some True, Some False]"
  using sparse_values_roundtrip [of stored_zstd "[Some 200, None, Some (- 1)]" "[None, Some True, Some False]"] stored_zstd_lib
  by (simp add: zstd_consts numeral_3_eq_3)

text \<open>C38: The body column of a one-row chunk cannot be read back when the blob exceeds the 2 MiB decoder
  bucket, although the log accepts blobs of up to 8 MiB: encoding succeeds and decoding fails.\<close>

theorem oversized_body_unreadable:
  assumes "zstd_lib Z" and "2 ^ 21 + 16 \<le> length b" and "length b \<le> 8 * 2 ^ 20"
  shows "\<exists>d e. SparseBytes Z [Some b] = Inr d \<and> UnsparseBytes Z d 1 = Inl e \<and> e \<noteq> Panic"
proof -
  let ?raw = "put_u32 (of_nat (length b)) @ b"
  have d: "SparseBytes Z [Some b] = Inr (marshalSparse 1 [1] (Compress Z ?raw))"
    by (simp add: SparseBytes_def buildBitmapBytes_def)
  have u: "unmarshalSparse (marshalSparse 1 [1] (Compress Z ?raw)) = Inr (1, [1], Compress Z ?raw)"
    by (intro unmarshal_marshal_sparse) simp_all
  have "\<exists>e. DecompressBounded Z (Compress Z ?raw) (DecodeCeiling 1 (MaxColumnValueBytes + MaxLenFramingBytes)) = Inl e \<and> e \<noteq> Panic"
    using assms(1,2) by (intro decompress_over_ceiling) (auto simp: DecodeCeiling_def zstd_consts Let_def)
  then obtain e where "DecompressBounded Z (Compress Z ?raw) (DecodeCeiling 1 (MaxColumnValueBytes + MaxLenFramingBytes)) = Inl e"
      "e \<noteq> Panic" by blast
  then show ?thesis using d u
    by (cases e) (auto simp: UnsparseBytes_def sparse_raw_def)
qed

theorem oversized_body_unreadable_witness:
  "\<exists>d e. SparseBytes stored_zstd [Some (replicate 3000000 0)] = Inr d \<and> UnsparseBytes stored_zstd d 1 = Inl e \<and> e \<noteq> Panic"
  using oversized_body_unreadable [of stored_zstd "replicate 3000000 0"] stored_zstd_lib by simp

end
