(* ===== verification/Chunk_Writer.thy ===== *)
theory Chunk_Writer
  imports Entry Dictionary Sparse
begin

text \<open>
  The chunk file writer, \<open>internal/logstore/chunk/writer.go\<close>: a 64-byte header, the encoded
  columns in schema order, and a directory. The file is its bytes; writes succeed (failures of
  the operating system are outside the model).
\<close>

section \<open>Format\<close>

definition Magic :: string where "Magic = ''OTCL''"
definition ChunkVersion :: nat where "ChunkVersion = 2"
definition MinReadableVersion :: nat where "MinReadableVersion = 1"
definition HeaderSize :: nat where "HeaderSize = 64"
definition maxChunkEntries :: nat where "maxChunkEntries = 2 ^ 20"
definition maxChunkColumns :: nat where "maxChunkColumns = 256"
definition maxBitpackDictEntries :: nat where "maxBitpackDictEntries = 256"

lemmas chunk_consts = Magic_def ChunkVersion_def MinReadableVersion_def HeaderSize_def maxChunkEntries_def
  maxChunkColumns_def maxBitpackDictEntries_def

text \<open>A column type is a byte on disk; \<open>RawSize\<close> is never stored and stays zero.\<close>

record DirectoryEntry =
  Name :: string
  Type :: byte
  Offset :: u64
  CompressedSize :: u32
  RawSize :: u32
  NullCount :: u32

record Writer =
  wfile :: bytes
  wentries :: "Entry list"
  woffset :: u64
  wdirectory :: "DirectoryEntry list"

section \<open>Extraction\<close>

text \<open>\<open>fmt.Sprintf("%d", n)\<close> for a natural number.\<close>

fun show_nat :: "nat \<Rightarrow> string" where
  "show_nat n = (if n < 10 then [char_of (48 + n)] else show_nat (n div 10) @ [char_of (48 + n mod 10)])"

declare show_nat.simps [simp del]

definition status_string :: "Entry \<Rightarrow> string" where
  "status_string e = (if 0 <s Status e then show_nat (unat (Status e)) else [])"

definition int64_fields :: "(string \<times> (Entry \<Rightarrow> int64)) list" where
  "int64_fields = [(''id'', ID), (''ts'', Ts), (''received_at'', ReceivedAt)]"

definition extractInt64 :: "Entry list \<Rightarrow> string \<Rightarrow> int64 list" where
  "extractInt64 entries name = map (case map_of int64_fields name of Some f \<Rightarrow> f | None \<Rightarrow> (\<lambda>_. 0)) entries"

definition string_fields :: "(string \<times> (Entry \<Rightarrow> string)) list" where
  "string_fields =
    [(''level'', Level),
     (''service'', Service),
     (''env'', Env),
     (''version'', Version),
     (''message'', Message),
     (''event_type'', EventType),
     (''trace_id'', TraceID),
     (''span_id'', SpanID),
     (''parent_span_id'', ParentSpanID),
     (''request_id'', RequestID),
     (''user_id'', UserID),
     (''tenant_id'', TenantID),
     (''session_id'', SessionID),
     (''method'', Method),
     (''path'', Path),
     (''status'', status_string),
     (''host'', Host),
     (''kind'', Kind),
     (''route'', Route),
     (''handler'', Handler),
     (''error_class'', ErrorClass),
     (''error_message'', ErrorMessage),
     (''source_file'', SourceFile),
     (''error_fingerprint'', ErrorFingerprint),
     (''job_class'', JobClass),
     (''job_queue'', JobQueue),
     (''job_id'', JobID)]"

definition extractString :: "Entry list \<Rightarrow> string \<Rightarrow> string list" where
  "extractString entries name = map (case map_of string_fields name of Some f \<Rightarrow> f | None \<Rightarrow> (\<lambda>_. [])) entries"

definition optional_int64_fields :: "(string \<times> (Entry \<Rightarrow> int64)) list" where
  "optional_int64_fields =
    [(''duration_ms'', DurationMs),
     (''db_ms'', DbMs),
     (''db_count'', DbCount),
     (''slow_queries'', SlowQueries),
     (''dup_queries'', DupQueries),
     (''source_line'', SourceLine),
     (''cache_ms'', CacheMs),
     (''cache_hits'', CacheHits),
     (''cache_misses'', CacheMisses),
     (''ext_ms'', ExtMs),
     (''ext_count'', ExtCount),
     (''render_ms'', RenderMs),
     (''alloc_count'', AllocCount),
     (''mem_delta_mb'', MemDeltaMb),
     (''queue_ms'', QueueMs)]"

definition extractOptionalInt64 :: "Entry list \<Rightarrow> string \<Rightarrow> int64 option list" where
  "extractOptionalInt64 entries name =
     map (case map_of optional_int64_fields name of
            Some f \<Rightarrow> (\<lambda>e. if 0 <s f e then Some (f e) else None)
          | None \<Rightarrow> (\<lambda>_. None)) entries"

definition extractOptionalBool :: "Entry list \<Rightarrow> string \<Rightarrow> bool option list" where
  "extractOptionalBool entries name = map (if name = ''n_plus_one'' then NPlusOne else (\<lambda>_. None)) entries"

definition extractBody :: "Entry list \<Rightarrow> bytes option list" where
  "extractBody entries = map (\<lambda>e. if length (Body e) > 0 then Some (Body e) else None) entries"

section \<open>Encoding\<close>

definition serializeDictOnly :: "string list \<Rightarrow> bytes" where
  "serializeDictOnly dict = fold (\<lambda>s buf. AppendLenString buf s) dict (put_u16 (of_nat (length dict)))"

definition nulls :: "'a option list \<Rightarrow> nat" where
  "nulls vs = length (filter (\<lambda>v. v = None) vs)"

definition encodeDictBitpack :: "string list \<Rightarrow> bytes res" where
  "encodeDictBitpack values =
     (let d = DictEncodeLimit values (int maxBitpackDictEntries);
          bits = BitsNeeded (length (Dict d));
          indices8 = map ucast (Indices d);
          dictBuf = serializeDictOnly (Dict d)
      in rbind (BitpackEncode indices8 bits) (\<lambda>bitpackBytes.
           Inr (put_u32 (of_nat (length dictBuf)) @ dictBuf @ bitpackBytes)))"

definition encodeColumn :: "zstd \<Rightarrow> Entry list \<Rightarrow> string \<times> ColumnType \<Rightarrow> (bytes \<times> nat) res" where
  "encodeColumn Z entries col = (case col of (name, typ) \<Rightarrow>
     (case typ of
        ColDeltaVarint \<Rightarrow> Inr (DeltaEncode Z (extractInt64 entries name), 0)
      | ColZstdInt64 \<Rightarrow> Inr (ZstdBlockEncodeInt64 Z (extractInt64 entries name), 0)
      | ColDictBitpack \<Rightarrow>
          rbind (encodeDictBitpack (extractString entries name)) (\<lambda>result. Inr (result, 0))
      | ColDictZstd \<Rightarrow> Inr (DictMarshal Z (DictEncode (extractString entries name)), 0)
      | ColZstdBlock \<Rightarrow> Inr (ZstdBlockEncodeStrings Z (extractString entries name), 0)
      | ColSparseString \<Rightarrow>
          (let values = extractString entries name; nullCount = length (filter (\<lambda>v. v = []) values)
           in rbind (SparseStrings Z values) (\<lambda>data. Inr (data, nullCount)))
      | ColSparseInt64 \<Rightarrow>
          (let values = extractOptionalInt64 entries name
           in rbind (SparseInt64 Z values) (\<lambda>data. Inr (data, nulls values)))
      | ColSparseBool \<Rightarrow>
          (let values = extractOptionalBool entries name
           in rbind (SparseBool values) (\<lambda>data. Inr (data, nulls values)))
      | ColSparseBytes \<Rightarrow>
          (let values = extractBody entries
           in rbind (SparseBytes Z values) (\<lambda>data. Inr (data, nulls values)))
      | ColSparseDictZstd \<Rightarrow>
          (let values = extractString entries name; nullCount = length (filter (\<lambda>v. v = []) values)
           in rbind (SparseStrings Z values) (\<lambda>data. Inr (data, nullCount)))))"

section \<open>The file\<close>

definition NewWriter :: "Entry list \<Rightarrow> Writer" where
  "NewWriter entries = \<lparr>wfile = replicate HeaderSize 0, wentries = entries, woffset = of_nat HeaderSize, wdirectory = []\<rparr>"

definition write_column :: "zstd \<Rightarrow> string \<times> ColumnType \<Rightarrow> Writer \<Rightarrow> Writer res" where
  "write_column Z col w =
     rbind (wrapf ''encode column %s'' [Q (fst col)] (encodeColumn Z (wentries w) col)) (\<lambda>(data, nullCount).
       let n = length data
       in Inr (w\<lparr>wfile := wfile w @ data,
                 wdirectory := wdirectory w @ [\<lparr>Name = fst col, Type = column_type_code (snd col), Offset = woffset w,
                   CompressedSize = of_nat n, RawSize = 0, NullCount = of_nat nullCount\<rparr>],
                 woffset := woffset w + of_nat n\<rparr>))"

fun write_columns :: "zstd \<Rightarrow> (string \<times> ColumnType) list \<Rightarrow> Writer \<Rightarrow> Writer res" where
  "write_columns Z [] w = Inr w"
| "write_columns Z (col # cols) w = rbind (write_column Z col w) (write_columns Z cols)"

definition WriteAllColumns :: "zstd \<Rightarrow> Writer \<Rightarrow> Writer res" where
  "WriteAllColumns Z w = write_columns Z Schema w"

definition marshal_dir_entry :: "DirectoryEntry \<Rightarrow> bytes" where
  "marshal_dir_entry e =
     [of_nat (length (Name e))] @ bytes_of_string (Name e) @ [Type e] @ put_u64 (Offset e) @
     put_u32 (CompressedSize e) @ put_u32 (NullCount e)"

definition marshalDirectory :: "DirectoryEntry list \<Rightarrow> bytes" where
  "marshalDirectory entries = fold (\<lambda>e buf. buf @ marshal_dir_entry e) entries (put_u16 (of_nat (length entries)))"

text \<open>\<open>overwrite b off x\<close> stores \<open>x\<close> at \<open>off\<close>, inside the bounds of \<open>b\<close>.\<close>

definition overwrite :: "bytes \<Rightarrow> nat \<Rightarrow> bytes \<Rightarrow> bytes" where
  "overwrite b off x = take off b @ x @ drop (off + length x) b"

definition Close :: "Writer \<Rightarrow> bytes" where
  "Close w =
     (let dirOffset = woffset w;
          dirData = marshalDirectory (wdirectory w);
          file = wfile w @ dirData;
          header = replicate HeaderSize 0;
          header = overwrite header 0 (bytes_of_string Magic);
          header = overwrite header 4 (put_u16 (of_nat ChunkVersion));
          header = overwrite header 8 (put_u32 (of_nat (length (wentries w))));
          header = overwrite header 12 (put_u16 (of_nat (length (wdirectory w))));
          header = overwrite header 16 (put_u64 dirOffset)
      in overwrite file 0 header)"

text \<open>The calls of the sealer: create, write all columns, close.\<close>

definition chunk_file :: "zstd \<Rightarrow> Entry list \<Rightarrow> bytes res" where
  "chunk_file Z entries = rbind (WriteAllColumns Z (NewWriter entries)) (\<lambda>w. Inr (Close w))"

end
