(* ===== verification/Chunk_Reader.thy ===== *)
theory Chunk_Reader
  imports Chunk_Writer
begin

text \<open>
  The chunk file reader, \<open>internal/logstore/chunk/reader.go\<close>, and the round trip of a whole
  chunk: every column of a written file reads back. \<open>ReadAt\<close> is the one of \<open>os.File\<close>: it fails
  on a negative offset and when fewer bytes than asked for are left.
\<close>

definition ErrColumnMissing :: err where
  "ErrColumnMissing = Errorf ''column not found in chunk'' []"

text \<open>\<open>errors.Is\<close> along the chain of wrapped errors.\<close>

fun err_Is :: "err \<Rightarrow> err \<Rightarrow> bool" where
  "err_Is (Wrapf m as e) target = err_Is e target"
| "err_Is e target = (e = target)"

definition missingColumn :: "err \<Rightarrow> bool" where
  "missingColumn e = err_Is e ErrColumnMissing"

definition ReadAt :: "bytes \<Rightarrow> nat \<Rightarrow> int64 \<Rightarrow> bytes res" where
  "ReadAt f n off =
     (if off <s 0 then Inl (Errorf ''negative offset'' [])
      else if n = 0 then Inr []
      else if unat off + n \<le> length f then Inr (take n (drop (unat off) f))
      else Inl (Errorf ''EOF'' []))"

record Reader =
  rfile :: bytes
  size :: nat
  EntryCount :: nat
  RVersion :: nat
  lenFormat :: LenFormat
  directory :: "string \<rightharpoonup> DirectoryEntry"

definition readerLenFormat :: "nat \<Rightarrow> LenFormat" where
  "readerLenFormat version = (if version < 2 then LenUint16 else LenExtended)"

text \<open>One directory entry; \<open>i\<close> is the number of entries before it.\<close>

definition dir_entry_at :: "nat \<Rightarrow> bytes \<Rightarrow> nat \<Rightarrow> (DirectoryEntry \<times> nat) res" where
  "dir_entry_at i data offset =
     (if offset \<ge> length data then Inl (Errorf ''directory truncated at entry %d'' [D (int i)])
      else rbind (go_index data offset) (\<lambda>b.
        let nameLen = unat b; offset = offset + 1
        in if offset + nameLen > length data then Inl (Errorf ''directory name truncated'' [])
           else rbind (go_slice data offset (offset + nameLen)) (\<lambda>nm.
             let name = string_of_bytes nm; offset = offset + nameLen
             in if offset + 17 > length data then Inl (Errorf ''directory entry %q truncated'' [Q name])
                else rbind (go_index data offset) (\<lambda>colType.
                     rbind (rbind (go_from data (offset + 1)) get_u64) (\<lambda>colOffset.
                     rbind (rbind (go_from data (offset + 9)) get_u32) (\<lambda>compressedSize.
                     rbind (rbind (go_from data (offset + 13)) get_u32) (\<lambda>nullCount.
                       Inr (\<lparr>Name = name, Type = colType, Offset = colOffset, CompressedSize = compressedSize,
                             RawSize = 0, NullCount = nullCount\<rparr>, offset + 17))))))))"

fun unmarshal_dir_loop :: "nat \<Rightarrow> nat \<Rightarrow> bytes \<Rightarrow> nat \<Rightarrow> DirectoryEntry list res" where
  "unmarshal_dir_loop i 0 data offset = Inr []"
| "unmarshal_dir_loop i (Suc k) data offset =
     rbind (dir_entry_at i data offset) (\<lambda>(e, offset).
     rbind (unmarshal_dir_loop (Suc i) k data offset) (\<lambda>es. Inr (e # es)))"

definition unmarshalDirectory :: "bytes \<Rightarrow> nat \<Rightarrow> DirectoryEntry list res" where
  "unmarshalDirectory data expectedCount =
     (if length data < 2 then Inl (Errorf ''directory too short'' [])
      else rbind (rbind (go_slice data 0 2) get_u16) (\<lambda>w.
        let count = unat w
        in if count \<noteq> expectedCount
           then Inl (Errorf ''directory count mismatch: header says %d, directory says %d'' [D (int expectedCount), D (int count)])
           else unmarshal_dir_loop 0 count data 2))"

definition OpenReader :: "bytes \<Rightarrow> Reader res" where
  "OpenReader f =
     rbind (wrapf ''read header'' [] (ReadAt f HeaderSize 0)) (\<lambda>header.
     rbind (go_slice header 0 4) (\<lambda>magic.
     if string_of_bytes magic \<noteq> Magic then Inl (Errorf ''invalid magic: %q'' [Q (string_of_bytes magic)])
     else rbind (rbind (go_from header 4) get_u16) (\<lambda>v.
       let version = unat v
       in if version < MinReadableVersion \<or> version > ChunkVersion then Inl (Errorf ''unsupported version: %d'' [D (int version)])
          else rbind (rbind (go_from header 8) get_u32) (\<lambda>ec.
               rbind (rbind (go_from header 12) get_u16) (\<lambda>cc.
               rbind (rbind (go_from header 16) get_u64) (\<lambda>dirOffset.
                 let entryCount = unat ec; colCount = unat cc; fsize = length f
                 in if sint dirOffset < int HeaderSize \<or> sint dirOffset > int fsize
                    then Inl (Errorf ''corrupt chunk: directory offset %d out of range (file size %d)'' [D (uint dirOffset), D (int fsize)])
                    else if entryCount > maxChunkEntries
                    then Inl (Errorf ''corrupt chunk: entry count %d out of range'' [D (int entryCount)])
                    else if colCount > maxChunkColumns
                    then Inl (Errorf ''corrupt chunk: column count %d out of range'' [D (int colCount)])
                    else let dirSize = nat (int fsize - sint dirOffset)
                         in rbind (wrapf ''read directory'' [] (ReadAt f dirSize dirOffset)) (\<lambda>dirBuf.
                            rbind (wrapf ''parse directory'' [] (unmarshalDirectory dirBuf colCount)) (\<lambda>dir.
                              Inr \<lparr>rfile = f, size = fsize, EntryCount = entryCount, RVersion = version,
                                   lenFormat = readerLenFormat version,
                                   directory = fold (\<lambda>e m. m(Name e \<mapsto> e)) dir Map.empty\<rparr>))))))))"

definition HasColumn :: "Reader \<Rightarrow> string \<Rightarrow> bool" where
  "HasColumn r name = (directory r name \<noteq> None)"

definition ReaderNullCount :: "Reader \<Rightarrow> string \<Rightarrow> nat" where
  "ReaderNullCount r name = (case directory r name of Some e \<Rightarrow> unat (NullCount e) | None \<Rightarrow> EntryCount r)"

definition readColumnRaw :: "Reader \<Rightarrow> string \<Rightarrow> (bytes \<times> byte) res" where
  "readColumnRaw r name =
     (case directory r name of
        None \<Rightarrow> Inl (Wrapf ''%w: %q'' [Q name] ErrColumnMissing)
      | Some entry \<Rightarrow>
          if unat (CompressedSize entry) > size r
          then Inl (Errorf ''corrupt chunk: column %q size %d exceeds file size %d''
                      [Q name, D (uint (CompressedSize entry)), D (int (size r))])
          else rbind (wrapf ''read column %s at offset %d'' [Q name, D (uint (Offset entry))]
                        (ReadAt (rfile r) (unat (CompressedSize entry)) (Offset entry))) (\<lambda>data.
                 Inr (data, Type entry)))"

text \<open>
  What every \<open>Read\<close> method does around its decoder: a column missing from the directory is all
  defaults, any other failure is reported.
\<close>

definition read_or_default :: "Reader \<Rightarrow> string \<Rightarrow> 'a \<Rightarrow> (bytes \<Rightarrow> 'a list res) \<Rightarrow> 'a list res" where
  "read_or_default r name dflt dec =
     (case readColumnRaw r name of
        Inl e \<Rightarrow> if missingColumn e then Inr (replicate (EntryCount r) dflt) else Inl e
      | Inr (data, _) \<Rightarrow> dec data)"

definition ReadDeltaInt64 :: "zstd \<Rightarrow> Reader \<Rightarrow> string \<Rightarrow> int64 list res" where
  "ReadDeltaInt64 Z r name = read_or_default r name 0 (\<lambda>data. DeltaDecode Z data (EntryCount r))"

definition ReadZstdInt64 :: "zstd \<Rightarrow> Reader \<Rightarrow> string \<Rightarrow> int64 list res" where
  "ReadZstdInt64 Z r name = read_or_default r name 0 (\<lambda>data. ZstdBlockDecodeInt64 Z data (EntryCount r))"

definition deserializeDictOnly :: "bytes \<Rightarrow> LenFormat \<Rightarrow> string list res" where
  "deserializeDictOnly data f =
     (if length data < 2 then Inl (Errorf ''dict too short'' [])
      else rbind (rbind (go_slice data 0 2) get_u16) (\<lambda>w.
           rbind (read_loop ''dict entry %d'' (ReadString f) 0 (unat w) data 2) (\<lambda>(dict, _). Inr dict)))"

definition decodeDictBitpack :: "bytes \<Rightarrow> LenFormat \<Rightarrow> string list res" where
  "decodeDictBitpack data f =
     (if length data < 4 then Inl (Errorf ''dict+bitpack data too short'' [])
      else rbind (rbind (go_slice data 0 4) get_u32) (\<lambda>w.
        let dictLen = unat w
        in if 4 + dictLen > length data then Inl (Errorf ''dict+bitpack: dict overflows data'' [])
           else rbind (go_slice data 4 (4 + dictLen)) (\<lambda>dictData.
                rbind (go_from data (4 + dictLen)) (\<lambda>bitpackData.
                rbind (wrapf ''dict parse'' [] (deserializeDictOnly dictData f)) (\<lambda>dict.
                rbind (wrapf ''bitpack decode'' [] (BitpackDecode bitpackData)) (\<lambda>indices.
                  Inr (map (\<lambda>idx. if unat idx < length dict then dict ! unat idx else []) indices)))))))"

definition ReadDictBitpack :: "Reader \<Rightarrow> string \<Rightarrow> string list res" where
  "ReadDictBitpack r name = read_or_default r name [] (\<lambda>data. decodeDictBitpack data (lenFormat r))"

definition ReadDictZstd :: "zstd \<Rightarrow> Reader \<Rightarrow> string \<Rightarrow> string list res" where
  "ReadDictZstd Z r name = read_or_default r name [] (\<lambda>data.
     rbind (wrapf ''dict unmarshal %s'' [Q name] (DictUnmarshal Z data (EntryCount r) (lenFormat r))) (\<lambda>d. Inr (DictLookup d)))"

definition ReadZstdBlockStrings :: "zstd \<Rightarrow> Reader \<Rightarrow> string \<Rightarrow> string list res" where
  "ReadZstdBlockStrings Z r name =
     read_or_default r name [] (\<lambda>data. ZstdBlockDecodeStrings Z data (EntryCount r) (lenFormat r))"

definition ReadSparseStrings :: "zstd \<Rightarrow> Reader \<Rightarrow> string \<Rightarrow> string list res" where
  "ReadSparseStrings Z r name =
     read_or_default r name [] (\<lambda>data. UnsparseStrings Z data (EntryCount r) (lenFormat r))"

definition ReadSparseInt64 :: "zstd \<Rightarrow> Reader \<Rightarrow> string \<Rightarrow> int64 option list res" where
  "ReadSparseInt64 Z r name = read_or_default r name None (\<lambda>data. UnsparseInt64 Z data (EntryCount r))"

definition ReadSparseBool :: "Reader \<Rightarrow> string \<Rightarrow> bool option list res" where
  "ReadSparseBool r name = read_or_default r name None (\<lambda>data. UnsparseBool data (EntryCount r))"

definition ReadSparseBytes :: "zstd \<Rightarrow> Reader \<Rightarrow> string \<Rightarrow> bytes option list res" where
  "ReadSparseBytes Z r name = read_or_default r name None (\<lambda>data. UnsparseBytes Z data (EntryCount r))"

text \<open>\<open>ReadColumn\<close> returns Go's \<open>any\<close>: a column of one of the value types, or nil.\<close>

datatype Column = Int64s "int64 list" | Strings "string list" | OptInt64s "int64 option list"
  | OptBools "bool option list" | OptBytes "bytes option list" | NilColumn

definition rmap :: "('a \<Rightarrow> 'b) \<Rightarrow> 'a res \<Rightarrow> 'b res" where
  "rmap f r = rbind r (\<lambda>a. Inr (f a))"

definition ReadColumn :: "zstd \<Rightarrow> Reader \<Rightarrow> string \<Rightarrow> Column res" where
  "ReadColumn Z r name =
     (case directory r name of
        None \<Rightarrow> Inr NilColumn
      | Some entry \<Rightarrow>
          let t = Type entry
          in if t = column_type_code ColDeltaVarint then rmap Int64s (ReadDeltaInt64 Z r name)
             else if t = column_type_code ColZstdInt64 then rmap Int64s (ReadZstdInt64 Z r name)
             else if t = column_type_code ColDictBitpack then rmap Strings (ReadDictBitpack r name)
             else if t = column_type_code ColDictZstd then rmap Strings (ReadDictZstd Z r name)
             else if t = column_type_code ColZstdBlock then rmap Strings (ReadZstdBlockStrings Z r name)
             else if t = column_type_code ColSparseString \<or> t = column_type_code ColSparseDictZstd
             then rmap Strings (ReadSparseStrings Z r name)
             else if t = column_type_code ColSparseInt64 then rmap OptInt64s (ReadSparseInt64 Z r name)
             else if t = column_type_code ColSparseBool then rmap OptBools (ReadSparseBool r name)
             else if t = column_type_code ColSparseBytes then rmap OptBytes (ReadSparseBytes Z r name)
             else Inl (Errorf ''unknown column type %d for %s'' [D (uint t), Q name]))"

section \<open>The column codecs\<close>

text \<open>
  What the chunk relies on from each column encoding: a column that fits is encoded, and its
  decoder, told the number of rows, gives it back.
\<close>

locale column_codec =
  fixes enc :: "zstd \<Rightarrow> 'a list \<Rightarrow> bytes res"
    and dec :: "zstd \<Rightarrow> bytes \<Rightarrow> nat \<Rightarrow> 'a list res"
    and fits :: "'a list \<Rightarrow> bool"
  assumes enc_total: "\<exists>d. enc Z vs = Inr d"
    and dec_enc: "zstd_lib Z \<Longrightarrow> fits vs \<Longrightarrow> enc Z vs = Inr d \<Longrightarrow> dec Z d (length vs) = Inr vs"
begin

lemma read_back:
  assumes "zstd_lib Z" "fits vs" "enc Z vs = Inr d" "readColumnRaw r name = Inr (d, t)" "EntryCount r = length vs"
  shows "read_or_default r name dflt (\<lambda>data. dec Z data (EntryCount r)) = Inr vs"
  using assms by (simp add: read_or_default_def dec_enc)

end

lemma bitmap_total: "\<exists>b. bitmap_loop P 0 vs (replicate ((length vs + 7) div 8) 0) 0 = Inr b"
  using bitmap_spec [of P vs] by blast

definition fits_delta :: "int64 list \<Rightarrow> bool" where
  "fits_delta vs \<longleftrightarrow> vs \<noteq> [] \<and> 10 * int (length vs) \<le> MaxBlockBytes"

interpretation delta_column: column_codec "\<lambda>Z vs. Inr (DeltaEncode Z vs)" DeltaDecode fits_delta
  by unfold_locales (auto simp: fits_delta_def delta_roundtrip_lemma)

definition fits_int64 :: "int64 list \<Rightarrow> bool" where
  "fits_int64 vs \<longleftrightarrow> 8 * int (length vs) \<le> MaxBlockBytes"

interpretation int64_column: column_codec "\<lambda>Z vs. Inr (ZstdBlockEncodeInt64 Z vs)" ZstdBlockDecodeInt64 fits_int64
  by unfold_locales (auto simp: fits_int64_def zstd_int64_roundtrip_lemma)

definition fits_block :: "string list \<Rightarrow> bool" where
  "fits_block vs \<longleftrightarrow> (\<forall>v \<in> set vs. length v \<le> MaxValueBytes) \<and>
     block_fits (concat (map (AppendLenString []) vs)) (length vs) (MaxColumnValueBytes + MaxLenFramingBytes)"

interpretation block_column: column_codec "\<lambda>Z vs. Inr (ZstdBlockEncodeStrings Z vs)"
  "\<lambda>Z d n. ZstdBlockDecodeStrings Z d n LenExtended" fits_block
  by unfold_locales (auto simp: fits_block_def zstd_strings_roundtrip_lemma)

definition fits_sparse :: "string list \<Rightarrow> bool" where
  "fits_sparse vs \<longleftrightarrow> length vs < 2 ^ 32 \<and> (\<forall>v \<in> set vs. length v \<le> MaxValueBytes) \<and>
     block_fits (concat (map (\<lambda>v. if v = [] then [] else AppendLenString [] v) vs)) (length vs)
       (MaxColumnValueBytes + MaxLenFramingBytes)"

interpretation sparse_string_column: column_codec SparseStrings "\<lambda>Z d n. UnsparseStrings Z d n LenExtended" fits_sparse
proof unfold_locales
  fix Z vs
  show "\<exists>d. SparseStrings Z vs = Inr d"
    using bitmap_total [of "\<lambda>v. v \<noteq> []" vs] by (auto simp: SparseStrings_def buildBitmap_def)
next
  fix Z vs d
  assume "zstd_lib Z" "fits_sparse vs" "SparseStrings Z vs = Inr d"
  then show "UnsparseStrings Z d (length vs) LenExtended = Inr vs"
    using sparse_strings_roundtrip_lemma [of Z vs] by (simp add: fits_sparse_def)
qed

definition fits_sparse_int :: "int64 option list \<Rightarrow> bool" where
  "fits_sparse_int vs \<longleftrightarrow> length vs < 2 ^ 32 \<and> 10 * int (length vs) \<le> MaxBlockBytes"

interpretation sparse_int_column: column_codec SparseInt64 UnsparseInt64 fits_sparse_int
proof unfold_locales
  fix Z vs
  show "\<exists>d. SparseInt64 Z vs = Inr d"
    using bitmap_total [of "\<lambda>v. v \<noteq> None" vs] by (auto simp: SparseInt64_def buildBitmapPtr_def)
next
  fix Z vs d
  assume "zstd_lib Z" "fits_sparse_int vs" "SparseInt64 Z vs = Inr d"
  then show "UnsparseInt64 Z d (length vs) = Inr vs"
    using sparse_int64_roundtrip_lemma [of Z vs] by (simp add: fits_sparse_int_def)
qed

definition fits_sparse_bool :: "bool option list \<Rightarrow> bool" where
  "fits_sparse_bool vs \<longleftrightarrow> length vs < 2 ^ 32"

lemma SparseBool_total: "\<exists>d. SparseBool vs = Inr d"
proof -
  obtain bitmap where "buildBitmapPtrBool vs = Inr (bitmap, length (filter (\<lambda>v. v \<noteq> None) vs))"
    using bitmap_spec [of "\<lambda>v. v \<noteq> None" vs] unfolding buildBitmapPtrBool_def by blast
  moreover obtain b where "bitmap_loop (\<lambda>v. v) 0 (present vs) (replicate ((length (present vs) + 7) div 8) 0) 0 = Inr b"
    using bitmap_total [of "\<lambda>v. v" "present vs"] by blast
  ultimately show ?thesis
    using value_bitmap_loop_present [of 0 vs _ 0] by (cases b) (auto simp: SparseBool_def length_present)
qed

interpretation sparse_bool_column: column_codec "\<lambda>Z. SparseBool" "\<lambda>Z. UnsparseBool" fits_sparse_bool
proof unfold_locales
  fix vs
  show "\<exists>d. SparseBool vs = Inr d" by (rule SparseBool_total)
next
  fix vs d
  assume "fits_sparse_bool vs" "SparseBool vs = Inr d"
  then show "UnsparseBool d (length vs) = Inr vs"
    using sparse_bool_roundtrip_lemma [of vs] by (simp add: fits_sparse_bool_def)
qed

definition fits_sparse_bytes :: "bytes option list \<Rightarrow> bool" where
  "fits_sparse_bytes vs \<longleftrightarrow> length vs < 2 ^ 32 \<and> list_all (case_option True (\<lambda>v. length v < 2 ^ 32)) vs \<and>
     block_fits (concat (map (case_option [] (\<lambda>v. put_u32 (of_nat (length v)) @ v)) vs)) (length vs)
       (MaxColumnValueBytes + MaxLenFramingBytes)"

interpretation sparse_bytes_column: column_codec SparseBytes UnsparseBytes fits_sparse_bytes
proof unfold_locales
  fix Z vs
  show "\<exists>d. SparseBytes Z vs = Inr d"
    using bitmap_total [of "\<lambda>v. v \<noteq> None" vs] by (auto simp: SparseBytes_def buildBitmapBytes_def)
next
  fix Z vs d
  assume a: "zstd_lib Z" "fits_sparse_bytes vs" "SparseBytes Z vs = Inr d"
  then have "\<forall>v. Some v \<in> set vs \<longrightarrow> length v < 2 ^ 32"
    by (fastforce simp: fits_sparse_bytes_def list_all_iff)
  then show "UnsparseBytes Z d (length vs) = Inr vs"
    using sparse_bytes_roundtrip_lemma [of Z vs] a by (simp add: fits_sparse_bytes_def)
qed

text \<open>The two dictionary columns: the values must not exceed the cap of the dictionary.\<close>

definition fits_dict :: "int \<Rightarrow> string list \<Rightarrow> bool" where
  "fits_dict limit vs \<longleftrightarrow> card (insert [] (set vs)) \<le> dict_limit limit \<and> (\<forall>v \<in> set vs. length v \<le> MaxValueBytes) \<and>
     length (dict_buf (Dict (DictEncodeLimit vs limit))) < 2 ^ 32 \<and> length vs < 2 ^ 32 \<and> 2 * int (length vs) \<le> MaxBlockBytes"

lemma fits_dict_entries:
  "fits_dict limit vs \<Longrightarrow> \<forall>s \<in> set (Dict (DictEncodeLimit vs limit)). length s \<le> MaxValueBytes"
  using dict_encode_limit_spec [of vs limit] by (auto simp: fits_dict_def)

interpretation dict_column: column_codec "\<lambda>Z vs. Inr (DictMarshal Z (DictEncode vs))"
  "\<lambda>Z d n. rbind (DictUnmarshal Z d n LenExtended) (\<lambda>d. Inr (DictLookup d))" "fits_dict (int MaxDictEntries)"
proof unfold_locales
  fix Z vs d
  let ?d = "DictEncodeLimit vs (int MaxDictEntries)"
  assume a: "zstd_lib Z" "fits_dict (int MaxDictEntries) vs" "Inr (DictMarshal Z (DictEncode vs)) = (Inr d :: bytes res)"
  have "length (Indices ?d) = length vs" "length (Dict ?d) \<le> MaxDictEntries"
    using dict_encode_limit_spec [of vs "int MaxDictEntries"] dict_limit_range [of "int MaxDictEntries"] by auto
  then have "DictUnmarshal Z (DictMarshal Z ?d) (length vs) LenExtended = Inr ?d"
    using dict_unmarshal_marshal [of Z ?d] fits_dict_entries [OF a(2)] a(1,2) by (simp add: fits_dict_def)
  moreover have "DictLookup ?d = vs" using a(2) by (intro dict_lookup_encode) (simp add: fits_dict_def)
  ultimately show "rbind (DictUnmarshal Z d (length vs) LenExtended) (\<lambda>d. Inr (DictLookup d)) = Inr vs"
    using a(3) by (simp add: DictEncode_def)
qed auto

lemma serializeDictOnly_buf: "serializeDictOnly dict = dict_buf dict"
  by (simp add: serializeDictOnly_def dict_buf_def fold_AppendLenString)

lemma deserialize_serialize:
  assumes "length dict \<le> MaxDictEntries" "\<forall>s \<in> set dict. length s \<le> MaxValueBytes"
  shows "deserializeDictOnly (dict_buf dict) LenExtended = Inr dict"
proof -
  have "unat (of_nat (length dict) :: u16) = length dict"
    using assms(1) by (simp add: unat_of_nat_small MaxDictEntries_def)
  moreover have "read_loop ''dict entry %d'' (ReadString LenExtended) 0 (length dict) (dict_buf dict) 2 = Inr (dict, length (dict_buf dict))"
    using len_string.read_loop_concat [of dict "''dict entry %d''" 0 "put_u16 (of_nat (length dict))" "[]"] assms(2)
    by (simp add: dict_buf_def list_all_iff)
  ultimately show ?thesis by (simp add: deserializeDictOnly_def) (simp add: dict_buf_def)
qed

lemma dict_bits:
  assumes "length dict \<le> 256" "unat (idx :: u16) < length dict"
  shows "unat (ucast idx :: byte) = unat idx" "unat (ucast idx :: byte) < 2 ^ BitsNeeded (length dict)"
proof -
  have "unat idx < 256" using assms by linarith
  then show e: "unat (ucast idx :: byte) = unat idx" by (simp add: unsigned_ucast_eq take_bit_nat_eq_self)
  have "length dict \<le> 2 ^ BitsNeeded (length dict)" using bits_needed_least [of "length dict"] by blast
  then show "unat (ucast idx :: byte) < 2 ^ BitsNeeded (length dict)" using assms e by linarith
qed

lemma bits_range: "length dict \<le> 256 \<Longrightarrow> 1 \<le> BitsNeeded (length dict) \<and> BitsNeeded (length dict) \<le> 8"
  using bits_needed_least [of "length dict"] bits_needed_le_8 [of "length dict"] by blast

lemma bitpack_dict_size: "length (Dict (DictEncodeLimit vs (int maxBitpackDictEntries))) \<le> 256"
  using dict_encode_limit_spec [of vs "int maxBitpackDictEntries"]
  by (auto simp: dict_limit_def maxBitpackDictEntries_def MaxDictEntries_def)

lemma BitpackEncode_total:
  assumes "1 \<le> b" "b \<le> 8" shows "\<exists>d. BitpackEncode vs b = Inr d"
proof -
  have "length vs * b \<le> 8 * ((length vs * b + 7) div 8)" by (rule packed_size_fits)
  then show ?thesis
    using bitpack_encode_loop_bits [OF assms, of 0 vs "replicate ((length vs * b + 7) div 8) 0"] assms
    by (auto simp: BitpackEncode_def Let_def)
qed

interpretation dict_bitpack_column: column_codec "\<lambda>Z. encodeDictBitpack" "\<lambda>Z d n. decodeDictBitpack d LenExtended"
  "fits_dict (int maxBitpackDictEntries)"
proof unfold_locales
  fix vs
  show "\<exists>d. encodeDictBitpack vs = Inr d"
    using BitpackEncode_total bits_range [OF bitpack_dict_size] by (fastforce simp: encodeDictBitpack_def Let_def)
next
  fix vs d
  let ?d = "DictEncodeLimit vs (int maxBitpackDictEntries)"
  let ?buf = "dict_buf (Dict ?d)" and ?is = "map ucast (Indices ?d) :: byte list" and ?b = "BitsNeeded (length (Dict ?d))"
  assume fits: "fits_dict (int maxBitpackDictEntries) vs" and enc: "encodeDictBitpack vs = Inr d"
  note spec = dict_encode_limit_spec [of vs "int maxBitpackDictEntries"]
  note size = bitpack_dict_size [of vs]
  have sel: "\<forall>idx \<in> set (Indices ?d). unat idx < length (Dict ?d)" using spec by blast
  from enc obtain bp where bp: "BitpackEncode ?is ?b = Inr bp" and d: "d = put_u32 (of_nat (length ?buf)) @ ?buf @ bp"
    by (auto simp: encodeDictBitpack_def Let_def serializeDictOnly_buf)
  have len: "unat (of_nat (length ?buf) :: u32) = length ?buf" "2 \<le> length ?buf"
    using fits by (simp_all add: fits_dict_def unat_of_nat_small) (simp add: dict_buf_def)
  have "\<forall>v \<in> set ?is. unat v < 2 ^ ?b" using spec dict_bits [OF size] by auto
  then have "BitpackDecode bp = Inr ?is"
    using bitpack_roundtrip_lemma [of ?b ?is] bits_range [OF size] spec fits bp by (simp add: fits_dict_def)
  moreover have "deserializeDictOnly ?buf LenExtended = Inr (Dict ?d)"
    using size fits_dict_entries [OF fits] by (intro deserialize_serialize) (auto simp: MaxDictEntries_def)
  moreover have "map (\<lambda>idx. if unat idx < length (Dict ?d) then Dict ?d ! unat idx else []) ?is = DictLookup ?d"
    unfolding DictLookup_def map_map comp_def using sel dict_bits(1) [OF size] by (intro map_cong refl) simp
  moreover have "DictLookup ?d = vs" using fits by (intro dict_lookup_encode) (simp add: fits_dict_def)
  ultimately show "decodeDictBitpack d LenExtended = Inr vs"
    using len by (simp add: decodeDictBitpack_def d Let_def)
qed

section \<open>The directory\<close>

lemma go_from_append: "length a = n \<Longrightarrow> go_from (a @ b) (n + k) = go_from b k"
  by (auto simp: go_from_def)

lemma go_index_append: "length a = n \<Longrightarrow> go_index (a @ b) (n + k) = go_index b k"
  by (auto simp: go_index_def nth_append)

lemma dir_entry_roundtrip:
  assumes "length (Name e) \<le> 255" "RawSize e = 0"
  shows "dir_entry_at i (p @ marshal_dir_entry e @ q) (length p) = Inr (e, length p + length (marshal_dir_entry e))"
proof -
  have n: "unat (of_nat (length (Name e)) :: byte) = length (Name e)" using assms(1) by (simp add: unat_of_nat_small)
  let ?nm = "bytes_of_string (Name e)"
  let ?tail = "[Type e] @ put_u64 (Offset e) @ put_u32 (CompressedSize e) @ put_u32 (NullCount e)"
  have data: "p @ marshal_dir_entry e @ q = (p @ [of_nat (length (Name e))]) @ ?nm @ ?tail @ q"
    by (simp add: marshal_dir_entry_def)
  have tail: "p @ marshal_dir_entry e @ q = (p @ [of_nat (length (Name e))] @ ?nm) @ ?tail @ q"
    by (simp add: marshal_dir_entry_def)
  have "go_slice (p @ marshal_dir_entry e @ q) (length p + 1) (length p + 1 + length (Name e)) = Inr ?nm"
    unfolding data by simp
  moreover have "go_index (p @ marshal_dir_entry e @ q) (length p + 1 + length (Name e) + 0) = Inr (Type e)"
    "go_from (p @ marshal_dir_entry e @ q) (length p + 1 + length (Name e) + 1) = Inr (drop 1 (?tail @ q))"
    "go_from (p @ marshal_dir_entry e @ q) (length p + 1 + length (Name e) + 9) = Inr (drop 9 (?tail @ q))"
    "go_from (p @ marshal_dir_entry e @ q) (length p + 1 + length (Name e) + 13) = Inr (drop 13 (?tail @ q))"
    unfolding tail by (rule go_index_append [THEN trans] go_from_append [THEN trans]; simp)+
  moreover have "go_index (p @ marshal_dir_entry e @ q) (length p) = Inr (of_nat (length (Name e)))"
    unfolding data by (simp add: nth_append)
  ultimately show ?thesis
    using n assms(2) by (simp add: dir_entry_at_def Let_def) (simp add: marshal_dir_entry_def)
qed

lemma marshalDirectory_eq:
  "marshalDirectory es = put_u16 (of_nat (length es)) @ concat (map marshal_dir_entry es)"
  unfolding marshalDirectory_def by (subst fold_append [where g = marshal_dir_entry]) simp_all

lemma unmarshal_dir_loop_roundtrip:
  "list_all (\<lambda>e. length (Name e) \<le> 255 \<and> RawSize e = 0) es \<Longrightarrow>
   unmarshal_dir_loop i (length es) (p @ concat (map marshal_dir_entry es)) (length p) = Inr es"
proof (induction es arbitrary: i p)
  case Nil
  show ?case by simp
next
  case (Cons e es)
  have "dir_entry_at i (p @ marshal_dir_entry e @ concat (map marshal_dir_entry es)) (length p)
      = Inr (e, length p + length (marshal_dir_entry e))"
    using Cons.prems by (intro dir_entry_roundtrip) simp_all
  moreover have "unmarshal_dir_loop (Suc i) (length es) ((p @ marshal_dir_entry e) @ concat (map marshal_dir_entry es))
      (length (p @ marshal_dir_entry e)) = Inr es"
    using Cons.prems by (intro Cons.IH) simp
  ultimately show ?case by simp
qed

lemma directory_roundtrip:
  assumes "list_all (\<lambda>e. length (Name e) \<le> 255 \<and> RawSize e = 0) es" "length es < 2 ^ 16"
  shows "unmarshalDirectory (marshalDirectory es) (length es) = Inr es"
proof -
  have "unat (of_nat (length es) :: u16) = length es" using assms(2) by (simp add: unat_of_nat_small)
  moreover have "unmarshal_dir_loop 0 (length es) (marshalDirectory es) 2 = Inr es"
    using unmarshal_dir_loop_roundtrip [OF assms(1), of 0 "put_u16 (of_nat (length es))"] by (simp add: marshalDirectory_eq)
  ultimately show ?thesis by (simp add: unmarshalDirectory_def) (simp add: marshalDirectory_eq)
qed

section \<open>Layout of a written file\<close>

definition column_values :: "Entry list \<Rightarrow> string \<times> ColumnType \<Rightarrow> Column" where
  "column_values es col = (case col of (name, typ) \<Rightarrow> (case typ of
       ColDeltaVarint \<Rightarrow> Int64s (extractInt64 es name)
     | ColZstdInt64 \<Rightarrow> Int64s (extractInt64 es name)
     | ColSparseInt64 \<Rightarrow> OptInt64s (extractOptionalInt64 es name)
     | ColSparseBool \<Rightarrow> OptBools (extractOptionalBool es name)
     | ColSparseBytes \<Rightarrow> OptBytes (extractBody es)
     | _ \<Rightarrow> Strings (extractString es name)))"

definition column_fits :: "Entry list \<Rightarrow> string \<times> ColumnType \<Rightarrow> bool" where
  "column_fits es col = (case col of (name, typ) \<Rightarrow> (case typ of
       ColDeltaVarint \<Rightarrow> fits_delta (extractInt64 es name)
     | ColZstdInt64 \<Rightarrow> fits_int64 (extractInt64 es name)
     | ColDictBitpack \<Rightarrow> fits_dict (int maxBitpackDictEntries) (extractString es name)
     | ColDictZstd \<Rightarrow> fits_dict (int MaxDictEntries) (extractString es name)
     | ColZstdBlock \<Rightarrow> fits_block (extractString es name)
     | ColSparseString \<Rightarrow> fits_sparse (extractString es name)
     | ColSparseInt64 \<Rightarrow> fits_sparse_int (extractOptionalInt64 es name)
     | ColSparseBool \<Rightarrow> fits_sparse_bool (extractOptionalBool es name)
     | ColSparseBytes \<Rightarrow> fits_sparse_bytes (extractBody es)
     | ColSparseDictZstd \<Rightarrow> fits_sparse (extractString es name)))"

lemma length_extract [simp]:
  "length (extractInt64 es name) = length es" "length (extractString es name) = length es"
  "length (extractOptionalInt64 es name) = length es" "length (extractOptionalBool es name) = length es"
  "length (extractBody es) = length es"
  by (simp_all add: extractInt64_def extractString_def extractOptionalInt64_def extractOptionalBool_def extractBody_def)

lemma encodeColumn_total: "\<exists>d n. encodeColumn Z es col = Inr (d, n)"
proof (cases col)
  case (Pair name ty)
  then show ?thesis
    using dict_bitpack_column.enc_total [of "extractString es name"] sparse_string_column.enc_total [of Z "extractString es name"]
      sparse_int_column.enc_total [of Z "extractOptionalInt64 es name"] sparse_bool_column.enc_total [of "extractOptionalBool es name"]
      sparse_bytes_column.enc_total [of Z "extractBody es"]
    by (cases ty) (auto simp: encodeColumn_def)
qed

text \<open>The bytes and the null count of a column, which always exist.\<close>

definition coldata :: "zstd \<Rightarrow> Entry list \<Rightarrow> string \<times> ColumnType \<Rightarrow> bytes" where
  "coldata Z es col = (case encodeColumn Z es col of Inr (d, n) \<Rightarrow> d | Inl _ \<Rightarrow> [])"

definition colnulls :: "zstd \<Rightarrow> Entry list \<Rightarrow> string \<times> ColumnType \<Rightarrow> nat" where
  "colnulls Z es col = (case encodeColumn Z es col of Inr (d, n) \<Rightarrow> n | Inl _ \<Rightarrow> 0)"

lemma encodeColumn_eq: "encodeColumn Z es col = Inr (coldata Z es col, colnulls Z es col)"
  using encodeColumn_total [of Z es col] by (auto simp: coldata_def colnulls_def)

definition dir_entry :: "zstd \<Rightarrow> Entry list \<Rightarrow> nat \<Rightarrow> string \<times> ColumnType \<Rightarrow> DirectoryEntry" where
  "dir_entry Z es off col = \<lparr>Name = fst col, Type = column_type_code (snd col), Offset = of_nat off,
     CompressedSize = of_nat (length (coldata Z es col)), RawSize = 0, NullCount = of_nat (colnulls Z es col)\<rparr>"

fun dir_entries :: "zstd \<Rightarrow> Entry list \<Rightarrow> nat \<Rightarrow> (string \<times> ColumnType) list \<Rightarrow> DirectoryEntry list" where
  "dir_entries Z es off [] = []"
| "dir_entries Z es off (c # cs) = dir_entry Z es off c # dir_entries Z es (off + length (coldata Z es c)) cs"

lemma write_columns_eq:
  "write_columns Z cs \<lparr>wfile = f, wentries = es, woffset = of_nat off, wdirectory = dir\<rparr>
     = Inr \<lparr>wfile = f @ concat (map (coldata Z es) cs), wentries = es,
            woffset = of_nat (off + length (concat (map (coldata Z es) cs))), wdirectory = dir @ dir_entries Z es off cs\<rparr>"
proof (induction cs arbitrary: f off dir)
  case Nil
  show ?case by simp
next
  case (Cons c cs)
  show ?case
    using Cons [of "f @ coldata Z es c" "off + length (coldata Z es c)" "dir @ [dir_entry Z es off c]"]
    by (simp add: write_column_def encodeColumn_eq dir_entry_def add.assoc Let_def)
qed

abbreviation columns_bytes :: "zstd \<Rightarrow> Entry list \<Rightarrow> bytes" where
  "columns_bytes Z es \<equiv> concat (map (coldata Z es) Schema)"

definition header_bytes :: "nat \<Rightarrow> nat \<Rightarrow> u64 \<Rightarrow> bytes" where
  "header_bytes entries cols off = bytes_of_string Magic @ put_u16 (of_nat ChunkVersion) @ [0, 0] @
     put_u32 (of_nat entries) @ put_u16 (of_nat cols) @ [0, 0] @ put_u64 off @ replicate 40 0"

lemma length_header_bytes [simp]: "length (header_bytes n c off) = 64"
  by (simp add: header_bytes_def Magic_def)

lemma overwrite_zeros:
  "off = length a + g \<Longrightarrow> g + length x \<le> n \<Longrightarrow>
   overwrite (a @ replicate n 0) off x = (a @ replicate g 0 @ x) @ replicate (n - g - length x) 0"
  by (simp add: overwrite_def min_def)

lemma header_steps:
  fixes M :: bytes
  assumes "length M = 4"
  shows "overwrite (overwrite (overwrite (overwrite (overwrite (replicate 64 0) 0 M) 4 (put_u16 v)) 8 (put_u32 n)) 12 (put_u16 c)) 16 (put_u64 off)
     = M @ put_u16 v @ [0, 0] @ put_u32 n @ put_u16 c @ [0, 0] @ put_u64 off @ replicate 40 0"
proof -
  have "overwrite (replicate 64 0) 0 M = M @ replicate 60 0"
    using overwrite_zeros [of 0 "[]" 0 M 64] assms by simp
  moreover have "overwrite (M @ replicate 60 0) 4 (put_u16 v) = (M @ put_u16 v) @ replicate 58 0"
    using overwrite_zeros [of 4 M 0 "put_u16 v" 60] assms by simp
  moreover have "overwrite ((M @ put_u16 v) @ replicate 58 0) 8 (put_u32 n) = (M @ put_u16 v @ [0, 0] @ put_u32 n) @ replicate 52 0"
    using overwrite_zeros [of 8 "M @ put_u16 v" 2 "put_u32 n" 58] assms by (simp add: numeral_2_eq_2)
  moreover have "overwrite ((M @ put_u16 v @ [0, 0] @ put_u32 n) @ replicate 52 0) 12 (put_u16 c)
      = (M @ put_u16 v @ [0, 0] @ put_u32 n @ put_u16 c) @ replicate 50 0"
    using overwrite_zeros [of 12 "M @ put_u16 v @ [0, 0] @ put_u32 n" 0 "put_u16 c" 52] assms by simp
  moreover have "overwrite ((M @ put_u16 v @ [0, 0] @ put_u32 n @ put_u16 c) @ replicate 50 0) 16 (put_u64 off)
      = (M @ put_u16 v @ [0, 0] @ put_u32 n @ put_u16 c @ [0, 0] @ put_u64 off) @ replicate 40 0"
    using overwrite_zeros [of 16 "M @ put_u16 v @ [0, 0] @ put_u32 n @ put_u16 c" 2 "put_u64 off" 50] assms
    by (simp add: numeral_2_eq_2)
  ultimately show ?thesis by simp
qed

lemma Close_eq:
  assumes "64 \<le> length (wfile w)"
  shows "Close w = header_bytes (length (wentries w)) (length (wdirectory w)) (woffset w) @ drop 64 (wfile w) @ marshalDirectory (wdirectory w)"
proof -
  have "length (bytes_of_string Magic) = 4" by (simp add: Magic_def)
  then have "Close w = overwrite (wfile w @ marshalDirectory (wdirectory w)) 0
      (header_bytes (length (wentries w)) (length (wdirectory w)) (woffset w))"
    unfolding Close_def Let_def HeaderSize_def header_bytes_def by (simp only: header_steps)
  then show ?thesis using assms by (simp add: overwrite_def)
qed

lemma length_dir_entries [simp]: "length (dir_entries Z es off cs) = length cs"
  by (induction cs arbitrary: off) auto

lemma chunk_file_eq:
  "chunk_file Z es = Inr (header_bytes (length es) 47 (of_nat (64 + length (columns_bytes Z es))) @
     columns_bytes Z es @ marshalDirectory (dir_entries Z es 64 Schema))"
  using write_columns_eq [of Z Schema "replicate HeaderSize 0" es HeaderSize "[]"]
  by (simp add: chunk_file_def WriteAllColumns_def NewWriter_def Close_eq HeaderSize_def schema_columns)

lemma dir_entries_names: "map Name (dir_entries Z es off cs) = map fst cs"
  by (induction cs arbitrary: off) (auto simp: dir_entry_def)

lemma dir_entries_append:
  "dir_entries Z es off (cs @ ds) = dir_entries Z es off cs @ dir_entries Z es (off + length (concat (map (coldata Z es) cs))) ds"
  by (induction cs arbitrary: off) (auto simp: add.assoc)

lemma dir_entries_valid:
  "\<forall>c \<in> set cs. length (fst c) \<le> 255 \<Longrightarrow> list_all (\<lambda>e. length (Name e) \<le> 255 \<and> RawSize e = 0) (dir_entries Z es off cs)"
  by (induction cs arbitrary: off) (auto simp: dir_entry_def)

lemma schema_names_short: "\<forall>c \<in> set Schema. length (fst c) \<le> 255"
  by (simp add: Schema_def)

lemma fold_map_update:
  "fold (\<lambda>e m. m(Name e \<mapsto> e)) es m = m ++ map_of (rev (map (\<lambda>e. (Name e, e)) es))"
  by (induction es arbitrary: m) (auto simp: map_add_upd_left [symmetric] fun_upd_def map_add_def fun_eq_iff split: option.splits)

lemma directory_lookup:
  assumes "distinct (map Name es)" "e \<in> set es"
  shows "fold (\<lambda>e m. m(Name e \<mapsto> e)) es Map.empty (Name e) = Some e"
proof -
  have "map fst (rev (map (\<lambda>e. (Name e, e)) es)) = rev (map Name es)" by (simp add: rev_map)
  then have "map_of (rev (map (\<lambda>e. (Name e, e)) es)) (Name e) = Some e"
    using assms by (intro map_of_is_SomeI) auto
  then show ?thesis by (simp add: fold_map_update)
qed

section \<open>Reading a written file\<close>

lemma sint_of_nat_small: "n < 2 ^ 63 \<Longrightarrow> sint (of_nat n :: int64) = int n"
  by (simp add: signed_of_nat signed_take_bit_int_eq_self)

lemma unat_of_nat_63: "n < 2 ^ 63 \<Longrightarrow> unat (of_nat n :: int64) = n"
  by (simp add: unat_of_nat_small)

definition chunk_fits :: "zstd \<Rightarrow> Entry list \<Rightarrow> bool" where
  "chunk_fits Z es \<longleftrightarrow> length es \<le> maxChunkEntries \<and>
     list_all (\<lambda>col. column_fits es col \<and> length (coldata Z es col) < 2 ^ 32) Schema"

lemma columns_bytes_small:
  assumes "chunk_fits Z es"
  shows "length (columns_bytes Z es) \<le> 47 * 2 ^ 32"
proof -
  have "list_all (\<lambda>col. length (coldata Z es col) < 2 ^ 32) cs \<Longrightarrow> length (concat (map (coldata Z es) cs)) \<le> length cs * 2 ^ 32" for cs
    by (induction cs) auto
  from this [of Schema] show ?thesis
    using assms schema_columns(1) by (fastforce simp: chunk_fits_def list_all_iff)
qed

definition written_reader :: "zstd \<Rightarrow> Entry list \<Rightarrow> bytes \<Rightarrow> Reader" where
  "written_reader Z es f = \<lparr>rfile = f, size = length f, EntryCount = length es, RVersion = 2, lenFormat = LenExtended,
     directory = fold (\<lambda>e m. m(Name e \<mapsto> e)) (dir_entries Z es 64 Schema) Map.empty\<rparr>"

lemma open_written:
  assumes fits: "chunk_fits Z es" and f: "chunk_file Z es = Inr f"
  shows "OpenReader f = Inr (written_reader Z es f)"
proof -
  define off where "off = 64 + length (columns_bytes Z es)"
  let ?off = off and ?dir = "dir_entries Z es 64 Schema"
  let ?hd = "header_bytes (length es) 47 (of_nat ?off)"
  have f_eq: "f = ?hd @ columns_bytes Z es @ marshalDirectory ?dir" using f chunk_file_eq [of Z es] by (simp add: off_def)
  have off: "?off < 2 ^ 63" using columns_bytes_small [OF fits] by (simp add: off_def)
  have n: "length es \<le> maxChunkEntries" using fits by (simp add: chunk_fits_def)
  have ReadHd: "ReadAt f HeaderSize 0 = Inr ?hd" by (simp add: ReadAt_def f_eq HeaderSize_def)
  have hd: "go_slice ?hd 0 4 = Inr (bytes_of_string Magic)" "rbind (go_from ?hd 4) get_u16 = Inr 2"
    "rbind (go_from ?hd 8) get_u32 = Inr (of_nat (length es))" "rbind (go_from ?hd 12) get_u16 = Inr 47"
    "rbind (go_from ?hd 16) get_u64 = Inr (of_nat ?off)"
    by (simp_all add: header_bytes_def Magic_def ChunkVersion_def bytes_of_string_def)
  have so: "sint (of_nat ?off :: int64) = int ?off" "unat (of_nat ?off :: int64) = ?off"
    using off by (rule sint_of_nat_small, rule unat_of_nat_63)
  have dirlen: "length f - ?off = length (marshalDirectory ?dir)" "?off \<le> length f" "drop ?off f = marshalDirectory ?dir" "64 \<le> ?off"
    by (simp_all add: f_eq off_def)
  have ne: "length (marshalDirectory ?dir) \<noteq> 0" by (simp add: marshalDirectory_eq)
  have ReadDir: "ReadAt f (length (marshalDirectory ?dir)) (of_nat ?off) = Inr (marshalDirectory ?dir)"
    using so ne dirlen by (simp add: ReadAt_def word_sless_alt)
  have dir: "unmarshalDirectory (marshalDirectory ?dir) 47 = Inr ?dir"
    using directory_roundtrip [OF dir_entries_valid [OF schema_names_short], of Z es 64] schema_columns by simp
  have nat_dir: "nat (int (length f) - int ?off) = length (marshalDirectory ?dir)" using dirlen by linarith
  have cnt: "unat (of_nat (length es) :: u32) = length es" "unat (47 :: u16) = 47" "unat (2 :: u16) = 2"
    using n by (simp_all add: unat_of_nat_small maxChunkEntries_def)
  have rng: "\<not> (int ?off < int HeaderSize \<or> int ?off > int (length f))" using dirlen by (simp add: HeaderSize_def)
  show ?thesis
    unfolding OpenReader_def ReadHd wrapf.simps rbind.simps hd Let_def so(1) cnt nat_dir ReadDir dir
    using rng n by (simp add: chunk_consts readerLenFormat_def written_reader_def)
qed

lemma raw_written:
  assumes fits: "chunk_fits Z es" and f: "chunk_file Z es = Inr f" and col: "col \<in> set Schema"
  shows "readColumnRaw (written_reader Z es f) (fst col) = Inr (coldata Z es col, column_type_code (snd col))
    \<and> (\<exists>e. directory (written_reader Z es f) (fst col) = Some e \<and> Type e = column_type_code (snd col))"
proof -
  obtain pre post where sch: "Schema = pre @ col # post" using col by (meson split_list)
  define off where "off = 64 + length (concat (map (coldata Z es) pre))"
  let ?off = off and ?e = "dir_entry Z es off col"
  let ?d = "coldata Z es col"
  have "?e \<in> set (dir_entries Z es 64 Schema)" by (simp add: sch dir_entries_append off_def)
  then have lk: "directory (written_reader Z es f) (fst col) = Some ?e"
    using directory_lookup [of "dir_entries Z es 64 Schema" ?e] schema_columns(2)
    by (simp add: written_reader_def dir_entries_names dir_entry_def)
  have f_eq: "f = (header_bytes (length es) 47 (of_nat (64 + length (columns_bytes Z es))) @ concat (map (coldata Z es) pre)) @
      ?d @ concat (map (coldata Z es) post) @ marshalDirectory (dir_entries Z es 64 Schema)"
    using f chunk_file_eq [of Z es] by (simp add: sch)
  have small: "length ?d < 2 ^ 32" using fits col by (auto simp: chunk_fits_def list_all_iff)
  have "?off \<le> 64 + length (columns_bytes Z es)" by (simp add: sch off_def)
  then have off: "?off < 2 ^ 63" using columns_bytes_small [OF fits] by simp
  have so: "sint (of_nat ?off :: int64) = int ?off" "unat (of_nat ?off :: int64) = ?off"
    using off by (rule sint_of_nat_small, rule unat_of_nat_63)
  have len: "unat (of_nat (length ?d) :: u32) = length ?d" using small by (simp add: unat_of_nat_small)
  have "take (length ?d) (drop ?off f) = ?d" "?off + length ?d \<le> length f" by (simp_all add: f_eq off_def)
  then have "ReadAt f (length ?d) (of_nat ?off) = Inr ?d" using so by (auto simp: ReadAt_def word_sless_alt)
  moreover have "length ?d \<le> length f" by (simp add: f_eq)
  ultimately show ?thesis
    using lk len by (simp add: readColumnRaw_def) (simp add: dir_entry_def written_reader_def)
qed

lemma column_type_code_eq [simp]: "(column_type_code s = column_type_code t) = (s = t)"
  by (rule column_type_code_inj)

lemma ReadColumn_written:
  assumes Z: "zstd_lib Z" and fits: "chunk_fits Z es" and f: "chunk_file Z es = Inr f" and col: "(name, ty) \<in> set Schema"
  shows "ReadColumn Z (written_reader Z es f) name = Inr (column_values es (name, ty))"
proof -
  let ?r = "written_reader Z es f" and ?d = "coldata Z es (name, ty)"
  from raw_written [OF fits f col] obtain e where raw: "readColumnRaw ?r name = Inr (?d, column_type_code ty)"
    and e: "directory ?r name = Some e" "Type e = column_type_code ty" by auto
  have r: "EntryCount ?r = length es" "lenFormat ?r = LenExtended" by (simp_all add: written_reader_def)
  have cf: "column_fits es (name, ty)" using fits col by (auto simp: chunk_fits_def list_all_iff)
  have enc: "encodeColumn Z es (name, ty) = Inr (?d, colnulls Z es (name, ty))" by (rule encodeColumn_eq)
  show ?thesis
  proof (cases ty)
    case ColDeltaVarint
    then have "read_or_default ?r name 0 (\<lambda>data. DeltaDecode Z data (EntryCount ?r)) = Inr (extractInt64 es name)"
      using cf enc raw r Z by (intro delta_column.read_back) (auto simp: column_fits_def encodeColumn_def)
    then show ?thesis using ColDeltaVarint e
      by (simp add: ReadColumn_def ReadDeltaInt64_def rmap_def column_values_def)
  next
    case ColZstdInt64
    then have "read_or_default ?r name 0 (\<lambda>data. ZstdBlockDecodeInt64 Z data (EntryCount ?r)) = Inr (extractInt64 es name)"
      using cf enc raw r Z by (intro int64_column.read_back) (auto simp: column_fits_def encodeColumn_def)
    then show ?thesis using ColZstdInt64 e
      by (simp add: ReadColumn_def ReadZstdInt64_def rmap_def column_values_def)
  next
    case ColDictBitpack
    then have "read_or_default ?r name [] (\<lambda>data. decodeDictBitpack data LenExtended) = Inr (extractString es name)"
      using cf enc raw r Z by (intro dict_bitpack_column.read_back) (auto simp: column_fits_def encodeColumn_def)
    then show ?thesis using ColDictBitpack e r
      by (simp add: ReadColumn_def ReadDictBitpack_def rmap_def column_values_def)
  next
    case ColDictZstd
    then have "read_or_default ?r name [] (\<lambda>data. rbind (DictUnmarshal Z data (EntryCount ?r) LenExtended) (\<lambda>d. Inr (DictLookup d)))
        = Inr (extractString es name)"
      using cf enc raw r Z by (intro dict_column.read_back) (auto simp: column_fits_def encodeColumn_def)
    then show ?thesis using ColDictZstd e r raw
      by (simp add: ReadColumn_def ReadDictZstd_def rmap_def column_values_def read_or_default_def)
  next
    case ColZstdBlock
    then have "read_or_default ?r name [] (\<lambda>data. ZstdBlockDecodeStrings Z data (EntryCount ?r) LenExtended) = Inr (extractString es name)"
      using cf enc raw r Z by (intro block_column.read_back) (auto simp: column_fits_def encodeColumn_def)
    then show ?thesis using ColZstdBlock e r
      by (simp add: ReadColumn_def ReadZstdBlockStrings_def rmap_def column_values_def)
  next
    case ColSparseString
    then have "read_or_default ?r name [] (\<lambda>data. UnsparseStrings Z data (EntryCount ?r) LenExtended) = Inr (extractString es name)"
      using cf enc raw r Z by (intro sparse_string_column.read_back) (auto simp: column_fits_def encodeColumn_def Let_def)
    then show ?thesis using ColSparseString e r
      by (simp add: ReadColumn_def ReadSparseStrings_def rmap_def column_values_def)
  next
    case ColSparseDictZstd
    then have "read_or_default ?r name [] (\<lambda>data. UnsparseStrings Z data (EntryCount ?r) LenExtended) = Inr (extractString es name)"
      using cf enc raw r Z by (intro sparse_string_column.read_back) (auto simp: column_fits_def encodeColumn_def Let_def)
    then show ?thesis using ColSparseDictZstd e r
      by (simp add: ReadColumn_def ReadSparseStrings_def rmap_def column_values_def)
  next
    case ColSparseInt64
    then have "read_or_default ?r name None (\<lambda>data. UnsparseInt64 Z data (EntryCount ?r)) = Inr (extractOptionalInt64 es name)"
      using cf enc raw r Z by (intro sparse_int_column.read_back) (auto simp: column_fits_def encodeColumn_def Let_def)
    then show ?thesis using ColSparseInt64 e
      by (simp add: ReadColumn_def ReadSparseInt64_def rmap_def column_values_def)
  next
    case ColSparseBool
    then have "read_or_default ?r name None (\<lambda>data. UnsparseBool data (EntryCount ?r)) = Inr (extractOptionalBool es name)"
      using cf enc raw r Z by (intro sparse_bool_column.read_back) (auto simp: column_fits_def encodeColumn_def Let_def)
    then show ?thesis using ColSparseBool e
      by (simp add: ReadColumn_def ReadSparseBool_def rmap_def column_values_def)
  next
    case ColSparseBytes
    then have "read_or_default ?r name None (\<lambda>data. UnsparseBytes Z data (EntryCount ?r)) = Inr (extractBody es)"
      using cf enc raw r Z by (intro sparse_bytes_column.read_back) (auto simp: column_fits_def encodeColumn_def Let_def)
    then show ?thesis using ColSparseBytes e
      by (simp add: ReadColumn_def ReadSparseBytes_def rmap_def column_values_def)
  qed
qed

section \<open>Arbitrary files\<close>

lemma ReadAt_no_panic: "ReadAt f n off \<noteq> Inl Panic"
  by (simp add: ReadAt_def)

lemma ReadAt_length: "ReadAt f n off = Inr d \<Longrightarrow> length d = n"
  by (auto simp: ReadAt_def split: if_splits)

lemma dir_entry_at_safe:
  "dir_entry_at i data off \<noteq> Inl Panic"
  by (auto simp: dir_entry_at_def Let_def rbind_Panic_iff get_u32_def get_u64_def)

lemma unmarshal_dir_loop_no_panic: "unmarshal_dir_loop i k data off \<noteq> Inl Panic"
  by (induction k arbitrary: i off) (auto simp: rbind_Panic_iff dir_entry_at_safe)

lemma unmarshalDirectory_no_panic: "unmarshalDirectory data n \<noteq> Inl Panic"
  by (auto simp: unmarshalDirectory_def Let_def rbind_Panic_iff get_u16_def unmarshal_dir_loop_no_panic)

lemma open_no_panic: "OpenReader f \<noteq> Inl Panic"
proof -
  have "64 \<le> length h \<Longrightarrow> go_slice h 0 4 \<noteq> Inl Panic" for h :: bytes by simp
  then show ?thesis
    by (auto simp: OpenReader_def Let_def rbind_Panic_iff ReadAt_no_panic unmarshalDirectory_no_panic HeaderSize_def
        get_u16_def get_u32_def get_u64_def dest!: ReadAt_length)
qed

lemma readColumnRaw_no_panic: "readColumnRaw r name \<noteq> Inl Panic"
  by (auto simp: readColumnRaw_def rbind_Panic_iff ReadAt_no_panic split: option.splits)

lemma read_or_default_no_panic: "(\<And>d. dec d \<noteq> Inl Panic) \<Longrightarrow> read_or_default r name dflt dec \<noteq> Inl Panic"
  using readColumnRaw_no_panic [of r name] by (auto simp: read_or_default_def split: sum.splits)

lemma deserializeDictOnly_no_panic: "deserializeDictOnly d f \<noteq> Inl Panic"
  by (auto simp: deserializeDictOnly_def rbind_Panic_iff get_u16_def len_reader.read_loop_no_panic)

lemma decodeDictBitpack_no_panic: "decodeDictBitpack d f \<noteq> Inl Panic"
  by (auto simp: decodeDictBitpack_def Let_def rbind_Panic_iff get_u32_def deserializeDictOnly_no_panic
    bitpack_decode_no_panic_lemma)

lemma rmap_Panic_iff [simp]: "rmap f r = Inl Panic \<longleftrightarrow> r = Inl Panic"
  by (cases r) (auto simp: rmap_def)

lemma read_methods_no_panic:
  "ReadDeltaInt64 Z r name \<noteq> Inl Panic" "ReadZstdInt64 Z r name \<noteq> Inl Panic" "ReadDictBitpack r name \<noteq> Inl Panic"
  "ReadDictZstd Z r name \<noteq> Inl Panic" "ReadZstdBlockStrings Z r name \<noteq> Inl Panic" "ReadSparseStrings Z r name \<noteq> Inl Panic"
  "ReadSparseInt64 Z r name \<noteq> Inl Panic" "ReadSparseBool r name \<noteq> Inl Panic" "ReadSparseBytes Z r name \<noteq> Inl Panic"
  unfolding ReadDeltaInt64_def ReadZstdInt64_def ReadDictBitpack_def ReadDictZstd_def ReadZstdBlockStrings_def
    ReadSparseStrings_def ReadSparseInt64_def ReadSparseBool_def ReadSparseBytes_def
  by (rule read_or_default_no_panic; simp add: rbind_Panic_iff delta_decode_no_panic unsparse_no_panic
      decodeDictBitpack_no_panic dict_unmarshal_no_panic)+

lemma ReadColumn_no_panic: "ReadColumn Z r name \<noteq> Inl Panic"
  by (simp add: ReadColumn_def Let_def read_methods_no_panic split: option.split)

section \<open>Properties\<close>

text \<open>A one-row chunk that fits, for the concrete instance below.\<close>

lemma length_delta_one: "length (DeltaEncode stored_zstd [v]) < 4294967296"
  using length_concat_put_uvarint [of "zigzag_deltas v [v]"]
  by (simp add: DeltaEncode_def delta_encode_loop_eq Compress_def stored_zstd_def PutUvarint_def)

lemma dict_one:
  "DictEncodeLimit [[]] 65535 = \<lparr>Dict = [[]], Indices = [0]\<rparr>"
  "DictEncodeLimit [''info''] 256 = \<lparr>Dict = [[], ''info''], Indices = [1]\<rparr>"
  by (simp_all add: DictEncodeLimit_def dict_limit_def MaxDictEntries_def)

lemma fits_dict_one:
  "fits_dict (int MaxDictEntries) [[]]" "fits_dict (int maxBitpackDictEntries) [''info'']"
  by (simp_all add: fits_dict_def dict_one dict_buf_def length_AppendLenString strlen_consts MaxBlockBytes_def
    dict_limit_def MaxDictEntries_def maxBitpackDictEntries_def)

lemma length_dict_one: "length (DictMarshal stored_zstd (DictEncode [[]])) < 4294967296"
  by (simp add: DictEncode_def dict_one DictMarshal_def Let_def Compress_stored MaxDictEntries_def fold_AppendLenString length_AppendLenString strlen_consts)

lemma level_one: "\<exists>d. encodeDictBitpack [''info''] = Inr d \<and> length d < 4294967296"
proof -
  have b: "BitsNeeded (Suc (Suc 0)) = 1" by (simp add: BitsNeeded_def bits_needed_loop.simps)
  show ?thesis
    by (simp add: encodeDictBitpack_def dict_one Let_def b maxBitpackDictEntries_def BitpackEncode_def serializeDictOnly_buf dict_buf_def length_AppendLenString strlen_consts)
qed

lemma one_row_fits: "chunk_fits stored_zstd [zero_entry\<lparr>Level := ''info''\<rparr>]"
proof -
  obtain d where d: "encodeDictBitpack [''info''] = Inr d" "length d < 4294967296" using level_one by blast
  note extracts = extractInt64_def extractString_def extractOptionalInt64_def extractOptionalBool_def extractBody_def
    int64_fields_def string_fields_def optional_int64_fields_def zero_entry_def nulls_def status_string_def
  note fits = fits_delta_def fits_int64_def fits_block_def fits_sparse_def fits_sparse_int_def fits_sparse_bool_def
    fits_sparse_bytes_def zstd_consts block_fits_def DecodeCeiling_def
  note encs = SparseStrings_def SparseInt64_def SparseBool_def SparseBytes_def buildBitmap_def buildBitmapPtr_def
    buildBitmapPtrBool_def buildBitmapBytes_def Compress_stored marshalSparse_def ZstdBlockEncodeInt64_def
    ZstdBlockEncodeStrings_def Let_def PutVarint_def
  show ?thesis
    by (simp add: chunk_fits_def Schema_def maxChunkEntries_def,
        simp add: column_fits_def coldata_def encodeColumn_def, simp add: extracts, simp add: fits, simp add: encs,
        simp add: length_delta_one d fits_dict_one length_dict_one length_AppendLenString strlen_consts)
qed

text \<open>C6: A chunk file reads back: the entries are written without failure, the file opens, and every one
  of the 47 columns of the schema decodes to the values taken from the entries, row by row, whenever the
  columns fit their encodings.\<close>

theorem chunk_roundtrip:
  assumes "zstd_lib Z" and "chunk_fits Z es"
  shows "\<exists>f r. chunk_file Z es = Inr f \<and> OpenReader f = Inr r \<and> EntryCount r = length es \<and>
    (\<forall>name ty. (name, ty) \<in> set Schema \<longrightarrow> ReadColumn Z r name = Inr (column_values es (name, ty)))"
proof -
  obtain f where f: "chunk_file Z es = Inr f" using chunk_file_eq [of Z es] by blast
  then show ?thesis
    using open_written [OF assms(2) f] ReadColumn_written [OF assms f] by (auto simp: written_reader_def)
qed

theorem chunk_roundtrip_witness:
  "\<exists>f r. chunk_file stored_zstd [zero_entry\<lparr>Level := ''info''\<rparr>] = Inr f \<and> OpenReader f = Inr r \<and>
     ReadColumn stored_zstd r ''level'' = Inr (Strings [''info''])"
proof -
  have "(''level'', ColDictBitpack) \<in> set Schema" by (simp add: Schema_def)
  moreover have "column_values [zero_entry\<lparr>Level := ''info''\<rparr>] (''level'', ColDictBitpack) = Strings [''info'']"
    by (simp add: column_values_def extractString_def string_fields_def)
  ultimately show ?thesis using chunk_roundtrip [OF stored_zstd_lib one_row_fits] by metis
qed


end
