(* ===== verification/Chunk_Columns.thy ===== *)
theory Chunk_Columns
  imports Chunk_Reader Lru
begin

text \<open>
  Decoded columns of one chunk scan, \<open>internal/logstore/engine/chunkcols.go\<close>: every column is decoded at
  most once per scan and shared across scans through the column cache of \<open>colcache.go\<close>. The five typed
  maps of the source are one map indexed by the value type; the value type is Go's type assertion.
\<close>

section \<open>Sizes\<close>

definition sliceHeaderBytes :: int where "sliceHeaderBytes = 24"
definition pointerBytes :: int where "pointerBytes = 8"
definition int64Bytes :: int where "int64Bytes = 8"
definition perEntryOverhead :: int where "perEntryOverhead = 48"
definition stringSampleLimit :: nat where "stringSampleLimit = 512"

definition sizeOfInt64s :: "int64 list \<Rightarrow> int" where
  "sizeOfInt64s v = int (length v) * int64Bytes + perEntryOverhead"

definition sizeOfStrings :: "string list \<Rightarrow> int" where
  "sizeOfStrings v =
     (let n = min (length v) stringSampleLimit;
          sampled = sum_list (map (\<lambda>s. int (length s)) (take n v));
          total = int (length v) * sliceHeaderBytes
      in (if n > 0 then total + sampled div int n * int (length v) else total) + perEntryOverhead)"

definition sizeOfOptInt64s :: "int64 option list \<Rightarrow> int" where
  "sizeOfOptInt64s v =
     int (length v) * pointerBytes + sum_list (map (\<lambda>p. if p \<noteq> None then int64Bytes else 0) v) + perEntryOverhead"

definition sizeOfBlobs :: "bytes option list \<Rightarrow> int" where
  "sizeOfBlobs v =
     int (length v) * sliceHeaderBytes + sum_list (map (case_option 0 (\<lambda>b. int (length b))) v) + perEntryOverhead"

definition sizeOfBools :: "bool option list \<Rightarrow> int" where
  "sizeOfBools v = int (length v) * pointerBytes + sum_list (map (\<lambda>p. if p \<noteq> None then 1 else 0) v) + perEntryOverhead"

section \<open>Scans\<close>

datatype coltag = Ints | Strs | OptInts | Bools | Blobs

fun has_tag :: "coltag \<Rightarrow> Column \<Rightarrow> bool" where
  "has_tag Ints (Int64s _) = True"
| "has_tag Strs (Strings _) = True"
| "has_tag OptInts (OptInt64s _) = True"
| "has_tag Bools (OptBools _) = True"
| "has_tag Blobs (OptBytes _) = True"
| "has_tag _ _ = False"

fun sizeOf_column :: "Column \<Rightarrow> int" where
  "sizeOf_column (Int64s v) = sizeOfInt64s v"
| "sizeOf_column (Strings v) = sizeOfStrings v"
| "sizeOf_column (OptInt64s v) = sizeOfOptInt64s v"
| "sizeOf_column (OptBools v) = sizeOfBools v"
| "sizeOf_column (OptBytes v) = sizeOfBlobs v"
| "sizeOf_column NilColumn = 0"

type_synonym column_cache = "(string \<times> string, Column) lru_cache option"

record chunkColumns =
  creader :: Reader
  shared :: column_cache
  cpath :: string
  decoded :: "coltag \<Rightarrow> string \<Rightarrow> Column option"
  errs :: "string \<Rightarrow> err option"

definition newCachedChunkColumns :: "Reader \<Rightarrow> column_cache \<Rightarrow> string \<Rightarrow> chunkColumns" where
  "newCachedChunkColumns r sh path =
     \<lparr>creader = r, shared = sh, cpath = path, decoded = (\<lambda>_ _. None), errs = (\<lambda>_. None)\<rparr>"

definition newChunkColumns :: "Reader \<Rightarrow> chunkColumns" where
  "newChunkColumns r = newCachedChunkColumns r None []"

definition entryCount_cols :: "chunkColumns \<Rightarrow> nat" where "entryCount_cols c = EntryCount (creader c)"

definition hasColumn :: "chunkColumns \<Rightarrow> string \<Rightarrow> bool" where "hasColumn c name = HasColumn (creader c) name"

definition set_decoded :: "coltag \<Rightarrow> string \<Rightarrow> Column \<Rightarrow> chunkColumns \<Rightarrow> chunkColumns" where
  "set_decoded t name v c = c\<lparr>decoded := (decoded c)(t := (decoded c t)(name \<mapsto> v))\<rparr>"

definition set_err :: "string \<Rightarrow> err \<Rightarrow> chunkColumns \<Rightarrow> chunkColumns" where
  "set_err name e c = c\<lparr>errs := (errs c)(name \<mapsto> e)\<rparr>"

text \<open>The coalesced load of a shared column, after the first lookup has not given a value of the type.\<close>

definition memo_shared :: "chunkColumns \<Rightarrow> coltag \<Rightarrow> string \<Rightarrow> (string \<Rightarrow> Column res) \<Rightarrow> Column res \<times> chunkColumns" where
  "memo_shared c t name read =
     (case load_once columnCache_get columnCache_put (\<lambda>_. read name) (\<lambda>_. sizeOf_column) (shared c) (cpath c, name) of
        (Inl e, sh) \<Rightarrow> (Inl e, set_err name e (c\<lparr>shared := sh\<rparr>))
      | (Inr v, sh) \<Rightarrow>
          if has_tag t v then (Inr v, set_decoded t name v (c\<lparr>shared := sh\<rparr>))
          else (Inl (Errorf ''cached column %q has unexpected type %T'' [Q name]), c\<lparr>shared := sh\<rparr>))"

definition memoColumn :: "chunkColumns \<Rightarrow> coltag \<Rightarrow> string \<Rightarrow> (string \<Rightarrow> Column res) \<Rightarrow> Column res \<times> chunkColumns" where
  "memoColumn c t name read =
     (case errs c name of
        Some e \<Rightarrow> (Inl e, c)
      | None \<Rightarrow>
          (case decoded c t name of
             Some v \<Rightarrow> (Inr v, c)
           | None \<Rightarrow>
               if shared c \<noteq> None \<and> cpath c \<noteq> [] then
                 (case columnCache_get (shared c) (cpath c, name) of
                    (Some v, sh) \<Rightarrow>
                      if has_tag t v then (Inr v, set_decoded t name v (c\<lparr>shared := sh\<rparr>))
                      else memo_shared (c\<lparr>shared := sh\<rparr>) t name read
                  | (None, sh) \<Rightarrow> memo_shared (c\<lparr>shared := sh\<rparr>) t name read)
               else
                 (case read name of
                    Inl e \<Rightarrow> (Inl e, set_err name e c)
                  | Inr v \<Rightarrow> (Inr v, set_decoded t name v c))))"

definition deltaInt64 :: "zstd \<Rightarrow> chunkColumns \<Rightarrow> string \<Rightarrow> Column res \<times> chunkColumns" where
  "deltaInt64 Z c name = memoColumn c Ints name (\<lambda>n. rmap Int64s (ReadDeltaInt64 Z (creader c) n))"

definition zstdInt64 :: "zstd \<Rightarrow> chunkColumns \<Rightarrow> string \<Rightarrow> Column res \<times> chunkColumns" where
  "zstdInt64 Z c name = memoColumn c Ints name (\<lambda>n. rmap Int64s (ReadZstdInt64 Z (creader c) n))"

definition dictBitpack :: "chunkColumns \<Rightarrow> string \<Rightarrow> Column res \<times> chunkColumns" where
  "dictBitpack c name = memoColumn c Strs name (\<lambda>n. rmap Strings (ReadDictBitpack (creader c) n))"

definition dictZstd :: "zstd \<Rightarrow> chunkColumns \<Rightarrow> string \<Rightarrow> Column res \<times> chunkColumns" where
  "dictZstd Z c name = memoColumn c Strs name (\<lambda>n. rmap Strings (ReadDictZstd Z (creader c) n))"

definition zstdBlockStrings :: "zstd \<Rightarrow> chunkColumns \<Rightarrow> string \<Rightarrow> Column res \<times> chunkColumns" where
  "zstdBlockStrings Z c name = memoColumn c Strs name (\<lambda>n. rmap Strings (ReadZstdBlockStrings Z (creader c) n))"

definition sparseStrings :: "zstd \<Rightarrow> chunkColumns \<Rightarrow> string \<Rightarrow> Column res \<times> chunkColumns" where
  "sparseStrings Z c name = memoColumn c Strs name (\<lambda>n. rmap Strings (ReadSparseStrings Z (creader c) n))"

definition sparseInt64 :: "zstd \<Rightarrow> chunkColumns \<Rightarrow> string \<Rightarrow> Column res \<times> chunkColumns" where
  "sparseInt64 Z c name = memoColumn c OptInts name (\<lambda>n. rmap OptInt64s (ReadSparseInt64 Z (creader c) n))"

definition sparseBool :: "chunkColumns \<Rightarrow> string \<Rightarrow> Column res \<times> chunkColumns" where
  "sparseBool c name = memoColumn c Bools name (\<lambda>n. rmap OptBools (ReadSparseBool (creader c) n))"

definition sparseBytes :: "zstd \<Rightarrow> chunkColumns \<Rightarrow> string \<Rightarrow> Column res \<times> chunkColumns" where
  "sparseBytes Z c name = memoColumn c Blobs name (\<lambda>n. rmap OptBytes (ReadSparseBytes Z (creader c) n))"

section \<open>Transparency\<close>

text \<open>The value type and the decoder of a column type, and the scan's method for it.\<close>

definition col_tag :: "ColumnType \<Rightarrow> coltag" where
  "col_tag ty = (case ty of ColDeltaVarint \<Rightarrow> Ints | ColZstdInt64 \<Rightarrow> Ints | ColSparseInt64 \<Rightarrow> OptInts
     | ColSparseBool \<Rightarrow> Bools | ColSparseBytes \<Rightarrow> Blobs | _ \<Rightarrow> Strs)"

definition direct_read :: "zstd \<Rightarrow> Reader \<Rightarrow> ColumnType \<Rightarrow> string \<Rightarrow> Column res" where
  "direct_read Z r ty name = (case ty of
       ColDeltaVarint \<Rightarrow> rmap Int64s (ReadDeltaInt64 Z r name)
     | ColZstdInt64 \<Rightarrow> rmap Int64s (ReadZstdInt64 Z r name)
     | ColDictBitpack \<Rightarrow> rmap Strings (ReadDictBitpack r name)
     | ColDictZstd \<Rightarrow> rmap Strings (ReadDictZstd Z r name)
     | ColZstdBlock \<Rightarrow> rmap Strings (ReadZstdBlockStrings Z r name)
     | ColSparseString \<Rightarrow> rmap Strings (ReadSparseStrings Z r name)
     | ColSparseInt64 \<Rightarrow> rmap OptInt64s (ReadSparseInt64 Z r name)
     | ColSparseBool \<Rightarrow> rmap OptBools (ReadSparseBool r name)
     | ColSparseBytes \<Rightarrow> rmap OptBytes (ReadSparseBytes Z r name)
     | ColSparseDictZstd \<Rightarrow> rmap Strings (ReadSparseStrings Z r name))"

definition scan_read :: "zstd \<Rightarrow> ColumnType \<Rightarrow> chunkColumns \<Rightarrow> string \<Rightarrow> Column res \<times> chunkColumns" where
  "scan_read Z ty c name = (case ty of
       ColDeltaVarint \<Rightarrow> deltaInt64 Z c name
     | ColZstdInt64 \<Rightarrow> zstdInt64 Z c name
     | ColDictBitpack \<Rightarrow> dictBitpack c name
     | ColDictZstd \<Rightarrow> dictZstd Z c name
     | ColZstdBlock \<Rightarrow> zstdBlockStrings Z c name
     | ColSparseString \<Rightarrow> sparseStrings Z c name
     | ColSparseInt64 \<Rightarrow> sparseInt64 Z c name
     | ColSparseBool \<Rightarrow> sparseBool c name
     | ColSparseBytes \<Rightarrow> sparseBytes Z c name
     | ColSparseDictZstd \<Rightarrow> sparseStrings Z c name)"

lemma scan_read_eq: "scan_read Z ty c name = memoColumn c (col_tag ty) name (direct_read Z (creader c) ty)"
  by (cases ty) (simp_all add: scan_read_def col_tag_def direct_read_def [abs_def] deltaInt64_def zstdInt64_def dictBitpack_def
      dictZstd_def zstdBlockStrings_def sparseStrings_def sparseInt64_def sparseBool_def sparseBytes_def)

lemma direct_read_tag: "direct_read Z r ty n = Inr v \<Longrightarrow> has_tag (col_tag ty) v"
  by (cases ty) (auto simp: direct_read_def col_tag_def rmap_def)

text \<open>
  A scan is faithful when everything it has remembered, and everything in the shared cache, is what the
  decoder of the column's schema type gives for that file. The files are immutable: \<open>readers\<close>.
\<close>

definition schema_load :: "zstd \<Rightarrow> (string \<Rightarrow> Reader) \<Rightarrow> string \<times> string \<Rightarrow> Column res" where
  "schema_load Z readers key =
     (case map_of Schema (snd key) of
        Some ty \<Rightarrow> direct_read Z (readers (fst key)) ty (snd key)
      | None \<Rightarrow> Inl (Errorf ''no such column'' []))"

definition cols_ok :: "zstd \<Rightarrow> (string \<Rightarrow> Reader) \<Rightarrow> chunkColumns \<Rightarrow> bool" where
  "cols_ok Z readers c \<longleftrightarrow>
     creader c = readers (cpath c) \<and>
     column_cache.coherent (schema_load Z readers) (shared c) \<and>
     (\<forall>t n v. decoded c t n = Some v \<longrightarrow> (\<exists>ty. map_of Schema n = Some ty \<and> t = col_tag ty \<and> direct_read Z (creader c) ty n = Inr v)) \<and>
     (\<forall>n e. errs c n = Some e \<longrightarrow> (\<exists>ty. map_of Schema n = Some ty \<and> direct_read Z (creader c) ty n = Inl e))"

lemma load_once_cong: "load k = load' k \<Longrightarrow> load_once get put load sz c k = load_once get put load' sz c k"
  by (auto simp: load_once_def split: prod.split option.split)

lemma cols_ok_shared: "cols_ok Z readers c \<Longrightarrow> column_cache.coherent (schema_load Z readers) sh \<Longrightarrow> cols_ok Z readers (c\<lparr>shared := sh\<rparr>)"
  by (auto simp: cols_ok_def)

lemma cols_ok_decoded:
  "cols_ok Z readers c \<Longrightarrow> map_of Schema n = Some ty \<Longrightarrow> direct_read Z (creader c) ty n = Inr v \<Longrightarrow>
   cols_ok Z readers (set_decoded (col_tag ty) n v c)"
  by (auto simp: cols_ok_def set_decoded_def split: if_splits)

lemma cols_ok_err:
  "cols_ok Z readers c \<Longrightarrow> map_of Schema n = Some ty \<Longrightarrow> direct_read Z (creader c) ty n = Inl e \<Longrightarrow>
   cols_ok Z readers (set_err n e c)"
  by (auto simp: cols_ok_def set_err_def split: if_splits)

lemma memo_shared_ok:
  assumes ok: "cols_ok Z readers c" and ty: "map_of Schema n = Some ty"
  shows "fst (memo_shared c (col_tag ty) n (direct_read Z (creader c) ty)) = direct_read Z (creader c) ty n \<and>
    cols_ok Z readers (snd (memo_shared c (col_tag ty) n (direct_read Z (creader c) ty)))"
proof -
  let ?load = "schema_load Z readers" and ?k = "(cpath c, n)" and ?d = "direct_read Z (creader c) ty n"
  have coh: "column_cache.coherent ?load (shared c)" and rd: "creader c = readers (cpath c)" using ok by (simp_all add: cols_ok_def)
  have l: "?load ?k = ?d" using ty rd by (simp add: schema_load_def)
  obtain r sh where lo: "load_once columnCache_get columnCache_put (\<lambda>_. ?d) (\<lambda>_. sizeOf_column) (shared c) ?k = (r, sh)" by fastforce
  have "load_once columnCache_get columnCache_put ?load (\<lambda>_. sizeOf_column) (shared c) ?k = (r, sh)"
    unfolding lo [symmetric] using l by (intro load_once_cong) simp
  then have r: "r = ?d" and sh: "column_cache.coherent ?load sh"
    using column_cache.load_once_transparent [OF coh, of "\<lambda>_. sizeOf_column" ?k] l by simp_all
  have ok': "cols_ok Z readers (c\<lparr>shared := sh\<rparr>)" using cols_ok_shared [OF ok sh] .
  show ?thesis
    using lo r cols_ok_decoded [OF ok' ty] cols_ok_err [OF ok' ty] direct_read_tag [of Z "creader c" ty n]
    by (auto simp: memo_shared_def split: sum.split)
qed

lemma scan_read_ok:
  assumes ok: "cols_ok Z readers c" and ty: "map_of Schema n = Some ty"
  shows "fst (scan_read Z ty c n) = direct_read Z (creader c) ty n" and "cols_ok Z readers (snd (scan_read Z ty c n))"
proof -
  let ?load = "schema_load Z readers" and ?k = "(cpath c, n)" and ?d = "direct_read Z (creader c) ty n"
  have coh: "column_cache.coherent ?load (shared c)" and rd: "creader c = readers (cpath c)" using ok by (simp_all add: cols_ok_def)
  obtain r sh where g: "columnCache_get (shared c) ?k = (r, sh)" by fastforce
  have sh: "column_cache.coherent ?load sh" using column_cache.coherent_get [OF coh, of ?k] g by simp
  have hit: "r = Some v \<Longrightarrow> ?d = Inr v" for v
    using column_cache.coherent_hit [OF coh, of ?k v sh] g ty rd by (simp add: schema_load_def)
  have ok': "cols_ok Z readers (c\<lparr>shared := sh\<rparr>)" using cols_ok_shared [OF ok sh] .
  have tagged: "?d = Inr v \<Longrightarrow> has_tag (col_tag ty) v" for v by (rule direct_read_tag)
  have mem: "decoded c (col_tag ty) n = Some v \<Longrightarrow> ?d = Inr v" "errs c n = Some e \<Longrightarrow> ?d = Inl e" for v e
    using ok ty unfolding cols_ok_def by (metis option.inject)+
  have shr: "fst (memo_shared (c\<lparr>shared := sh\<rparr>) (col_tag ty) n (direct_read Z (creader c) ty)) = ?d"
    "cols_ok Z readers (snd (memo_shared (c\<lparr>shared := sh\<rparr>) (col_tag ty) n (direct_read Z (creader c) ty)))"
    using memo_shared_ok [OF ok' ty] by simp_all
  show "fst (scan_read Z ty c n) = ?d"
    using g hit mem shr by (auto simp: scan_read_eq memoColumn_def split: option.split sum.split)
  show "cols_ok Z readers (snd (scan_read Z ty c n))"
    using g hit mem shr ok tagged cols_ok_decoded [OF ok ty] cols_ok_decoded [OF ok' ty] cols_ok_err [OF ok ty]
    by (auto simp: scan_read_eq memoColumn_def split: option.split sum.split)
qed

section \<open>Property\<close>

text \<open>A scan that reads the named columns of a chunk, and a sequence of scans over one shared cache.\<close>

fun scan_columns :: "zstd \<Rightarrow> chunkColumns \<Rightarrow> string list \<Rightarrow> Column res list \<times> chunkColumns" where
  "scan_columns Z c [] = ([], c)"
| "scan_columns Z c (n # ns) =
     (let (r, c) = scan_read Z (the (map_of Schema n)) c n; (rs, c) = scan_columns Z c ns in (r # rs, c))"

fun run_scans :: "zstd \<Rightarrow> (string \<Rightarrow> Reader) \<Rightarrow> column_cache \<Rightarrow> (string \<times> string list) list \<Rightarrow> Column res list list" where
  "run_scans Z readers sh [] = []"
| "run_scans Z readers sh ((p, ns) # scans) =
     (let (rs, c) = scan_columns Z (newCachedChunkColumns (readers p) sh p) ns in rs # run_scans Z readers (shared c) scans)"

lemma scan_read_frame: "creader (snd (scan_read Z ty c n)) = creader c"
  by (auto simp: scan_read_eq memoColumn_def memo_shared_def set_decoded_def set_err_def split: option.split sum.split prod.split)

lemma scan_columns_ok:
  "cols_ok Z readers c \<Longrightarrow> set ns \<subseteq> fst ` set Schema \<Longrightarrow>
   fst (scan_columns Z c ns) = map (\<lambda>n. direct_read Z (creader c) (the (map_of Schema n)) n) ns \<and>
   cols_ok Z readers (snd (scan_columns Z c ns))"
proof (induction ns arbitrary: c)
  case Nil
  then show ?case by simp
next
  case (Cons n ns)
  then obtain ty where ty: "map_of Schema n = Some ty" by (metis image_eqI insert_subset list.set(2) map_of_eq_None_iff option.exhaust)
  have "cols_ok Z readers (snd (scan_read Z ty c n))" "set ns \<subseteq> fst ` set Schema"
    using scan_read_ok(2) [OF Cons.prems(1) ty] Cons.prems(2) by simp_all
  then show ?case using Cons.IH [of "snd (scan_read Z ty c n)"] scan_read_ok(1) [OF Cons.prems(1) ty] ty scan_read_frame [of Z ty c n]
    by (auto split: prod.split)
qed

lemma new_cols_ok: "column_cache.coherent (schema_load Z readers) sh \<Longrightarrow> cols_ok Z readers (newCachedChunkColumns (readers p) sh p)"
  by (simp add: cols_ok_def newCachedChunkColumns_def)

lemma run_scans_ok:
  "column_cache.coherent (schema_load Z readers) sh \<Longrightarrow> list_all (\<lambda>(p, ns). set ns \<subseteq> fst ` set Schema) scans \<Longrightarrow>
   run_scans Z readers sh scans = map (\<lambda>(p, ns). map (\<lambda>n. direct_read Z (readers p) (the (map_of Schema n)) n) ns) scans"
proof (induction scans arbitrary: sh)
  case Nil
  show ?case by simp
next
  case (Cons s scans)
  obtain p ns where s: "s = (p, ns)" by fastforce
  let ?c = "newCachedChunkColumns (readers p) sh p"
  have r: "creader ?c = readers p" by (simp add: newCachedChunkColumns_def)
  obtain rs c where sc: "scan_columns Z ?c ns = (rs, c)" by fastforce
  have "rs = map (\<lambda>n. direct_read Z (readers p) (the (map_of Schema n)) n) ns" "cols_ok Z readers c"
    using scan_columns_ok [OF new_cols_ok [OF Cons.prems(1)], of ns p] Cons.prems(2) s sc r by simp_all
  moreover from this(2) have "column_cache.coherent (schema_load Z readers) (shared c)" by (simp add: cols_ok_def)
  ultimately show ?case using Cons.IH Cons.prems(2) s sc by simp
qed

text \<open>C25: The column cache is invisible: whatever its budget, any sequence of scans over any chunk files
  through a fresh cache returns for each column asked for what decoding it from the file returns, errors
  included, although each column may be decoded once and evicted at any time.\<close>

theorem column_cache_transparent:
  assumes "list_all (\<lambda>(p, ns). set ns \<subseteq> fst ` set Schema) scans"
  shows "run_scans Z readers (newColumnCache b) scans
    = map (\<lambda>(p, ns). map (\<lambda>n. direct_read Z (readers p) (the (map_of Schema n)) n) ns) scans"
proof (rule run_scans_ok [OF _ assms])
  show "column_cache.coherent (schema_load Z readers) (newColumnCache b)"
    by (simp add: column_cache.coherent_def newColumnCache_inv)
qed

definition no_columns :: Reader where
  "no_columns = \<lparr>rfile = [], size = 0, EntryCount = 2, RVersion = 2, lenFormat = LenExtended, directory = Map.empty\<rparr>"

theorem column_cache_transparent_witness:
  "run_scans stored_zstd (\<lambda>_. no_columns) (newColumnCache 1000) [(''a'', [''level'', ''ts'']), (''b'', [''level'']), (''a'', [''level''])]
    = [[Inr (Strings [[], []]), Inr (Int64s [0, 0])], [Inr (Strings [[], []])], [Inr (Strings [[], []])]]"
  by (subst column_cache_transparent)
    (simp_all add: Schema_def direct_read_def ReadDictBitpack_def ReadZstdInt64_def read_or_default_def readColumnRaw_def
      missingColumn_def ErrColumnMissing_def no_columns_def rmap_def numeral_2_eq_2)

end
