(* ===== verification/Wal.thy ===== *)
theory Wal
  imports Entry Strlen Delta
begin

text \<open>
  The write-ahead log records, \<open>internal/logstore/wal/binary.go\<close>: \<open>AppendEntry\<close> writes an entry
  as a length-prefixed record whose 64-bit flag word says which optional fields follow, and
  \<open>UnmarshalEntryInto\<close> reads it back. The steps of both are lists, in the order of the source;
  each is written from its own function, and the lemmas show that the two agree.
\<close>

section \<open>Flags, levels and limits\<close>

definition flag :: "nat \<Rightarrow> u64" where
  "flag k = push_bit k 1"

abbreviation FlagEnv :: u64 where "FlagEnv \<equiv> flag 0"
abbreviation FlagVersion :: u64 where "FlagVersion \<equiv> flag 1"
abbreviation FlagHost :: u64 where "FlagHost \<equiv> flag 2"
abbreviation FlagKind :: u64 where "FlagKind \<equiv> flag 3"
abbreviation FlagEventType :: u64 where "FlagEventType \<equiv> flag 4"
abbreviation FlagTraceID :: u64 where "FlagTraceID \<equiv> flag 5"
abbreviation FlagSpanID :: u64 where "FlagSpanID \<equiv> flag 6"
abbreviation FlagParentSpanID :: u64 where "FlagParentSpanID \<equiv> flag 7"
abbreviation FlagRequestID :: u64 where "FlagRequestID \<equiv> flag 8"
abbreviation FlagUserID :: u64 where "FlagUserID \<equiv> flag 9"
abbreviation FlagTenantID :: u64 where "FlagTenantID \<equiv> flag 10"
abbreviation FlagSessionID :: u64 where "FlagSessionID \<equiv> flag 11"
abbreviation FlagMethod :: u64 where "FlagMethod \<equiv> flag 12"
abbreviation FlagPath :: u64 where "FlagPath \<equiv> flag 13"
abbreviation FlagRoute :: u64 where "FlagRoute \<equiv> flag 14"
abbreviation FlagHandler :: u64 where "FlagHandler \<equiv> flag 15"
abbreviation FlagStatus :: u64 where "FlagStatus \<equiv> flag 16"
abbreviation FlagDurationMs :: u64 where "FlagDurationMs \<equiv> flag 17"
abbreviation FlagDbMs :: u64 where "FlagDbMs \<equiv> flag 18"
abbreviation FlagDbCount :: u64 where "FlagDbCount \<equiv> flag 19"
abbreviation FlagCacheMs :: u64 where "FlagCacheMs \<equiv> flag 20"
abbreviation FlagCacheHits :: u64 where "FlagCacheHits \<equiv> flag 21"
abbreviation FlagCacheMisses :: u64 where "FlagCacheMisses \<equiv> flag 22"
abbreviation FlagExtMs :: u64 where "FlagExtMs \<equiv> flag 23"
abbreviation FlagExtCount :: u64 where "FlagExtCount \<equiv> flag 24"
abbreviation FlagRenderMs :: u64 where "FlagRenderMs \<equiv> flag 25"
abbreviation FlagAllocCount :: u64 where "FlagAllocCount \<equiv> flag 26"
abbreviation FlagMemDeltaMb :: u64 where "FlagMemDeltaMb \<equiv> flag 27"
abbreviation FlagNPlusOne :: u64 where "FlagNPlusOne \<equiv> flag 28"
abbreviation FlagSlowQueries :: u64 where "FlagSlowQueries \<equiv> flag 29"
abbreviation FlagDupQueries :: u64 where "FlagDupQueries \<equiv> flag 30"
abbreviation FlagErrorClass :: u64 where "FlagErrorClass \<equiv> flag 31"
abbreviation FlagErrorMessage :: u64 where "FlagErrorMessage \<equiv> flag 32"
abbreviation FlagSourceFile :: u64 where "FlagSourceFile \<equiv> flag 33"
abbreviation FlagSourceLine :: u64 where "FlagSourceLine \<equiv> flag 34"
abbreviation FlagErrFingerprint :: u64 where "FlagErrFingerprint \<equiv> flag 35"
abbreviation FlagJobClass :: u64 where "FlagJobClass \<equiv> flag 36"
abbreviation FlagJobQueue :: u64 where "FlagJobQueue \<equiv> flag 37"
abbreviation FlagJobID :: u64 where "FlagJobID \<equiv> flag 38"
abbreviation FlagQueueMs :: u64 where "FlagQueueMs \<equiv> flag 39"
abbreviation FlagBody :: u64 where "FlagBody \<equiv> flag 40"
abbreviation FlagExtendedStrings :: u64 where "FlagExtendedStrings \<equiv> flag 63"
abbreviation FlagRawBody :: u64 where "FlagRawBody \<equiv> flag 62"

definition levelToEnum :: "string \<Rightarrow> byte option" where
  "levelToEnum = map_of [(''trace'', 0), (''debug'', 1), (''info'', 2), (''warn'', 3), (''warning'', 3),
     (''error'', 4), (''fatal'', 5)]"

definition enumToLevel :: "string list" where
  "enumToLevel = [''trace'', ''debug'', ''info'', ''warn'', ''error'', ''fatal'']"

definition levelEnumInfo :: byte where "levelEnumInfo = 2"
definition levelEnumCustom :: byte where "levelEnumCustom = 0xFF"
definition MaxFieldBytes :: nat where "MaxFieldBytes = 2 ^ 20"
definition maxCompressedBodyBytes :: nat where "maxCompressedBodyBytes = 8 * 2 ^ 20"
definition maxRecordBytes :: nat where "maxRecordBytes = 48 * 2 ^ 20"
definition minRecordBytes :: nat where "minRecordBytes = 33"

lemmas wal_consts = MaxFieldBytes_def maxCompressedBodyBytes_def maxRecordBytes_def minRecordBytes_def

section \<open>Writing\<close>

text \<open>\<open>utf8.RuneStart\<close>: a byte that does not continue a rune.\<close>

definition RuneStart :: "char \<Rightarrow> bool" where
  "RuneStart c = (byte_of_char c AND 0xC0 \<noteq> 0x80)"

fun truncate_cut :: "string \<Rightarrow> nat \<Rightarrow> nat" where
  "truncate_cut s 0 = 0"
| "truncate_cut s (Suc n) = (if \<not> RuneStart (s ! Suc n) then truncate_cut s n else Suc n)"

definition truncateField :: "string \<Rightarrow> string" where
  "truncateField s = (if length s \<le> MaxFieldBytes then s else take (truncate_cut s MaxFieldBytes) s)"

definition appendString :: "bytes \<Rightarrow> string \<Rightarrow> bytes" where
  "appendString buf s = AppendLenString buf (truncateField s)"

definition setStr :: "u64 \<Rightarrow> string \<Rightarrow> u64 \<Rightarrow> u64" where
  "setStr f v flags = (if v \<noteq> [] then flags OR f else flags)"

definition setInt :: "u64 \<Rightarrow> int64 \<Rightarrow> u64 \<Rightarrow> u64" where
  "setInt f v flags = (if 0 <s v then flags OR f else flags)"

definition field_flags :: "Entry \<Rightarrow> u64" where
  "field_flags e = fold (\<lambda>set. set)
     [setStr FlagEnv (Env e),
      setStr FlagVersion (Version e),
      setStr FlagHost (Host e),
      setStr FlagKind (Kind e),
      setStr FlagEventType (EventType e),
      setStr FlagTraceID (TraceID e),
      setStr FlagSpanID (SpanID e),
      setStr FlagParentSpanID (ParentSpanID e),
      setStr FlagRequestID (RequestID e),
      setStr FlagUserID (UserID e),
      setStr FlagTenantID (TenantID e),
      setStr FlagSessionID (SessionID e),
      setStr FlagMethod (Method e),
      setStr FlagPath (Path e),
      setStr FlagRoute (Route e),
      setStr FlagHandler (Handler e),
      setInt FlagStatus (Status e),
      setInt FlagDurationMs (DurationMs e),
      setInt FlagDbMs (DbMs e),
      setInt FlagDbCount (DbCount e),
      setInt FlagCacheMs (CacheMs e),
      setInt FlagCacheHits (CacheHits e),
      setInt FlagCacheMisses (CacheMisses e),
      setInt FlagExtMs (ExtMs e),
      setInt FlagExtCount (ExtCount e),
      setInt FlagRenderMs (RenderMs e),
      setInt FlagAllocCount (AllocCount e),
      setInt FlagMemDeltaMb (MemDeltaMb e),
      (\<lambda>flags. if NPlusOne e \<noteq> None then flags OR FlagNPlusOne else flags),
      setInt FlagSlowQueries (SlowQueries e),
      setInt FlagDupQueries (DupQueries e),
      setStr FlagErrorClass (ErrorClass e),
      setStr FlagErrorMessage (ErrorMessage e),
      setStr FlagSourceFile (SourceFile e),
      setInt FlagSourceLine (SourceLine e),
      setStr FlagErrFingerprint (ErrorFingerprint e),
      setStr FlagJobClass (JobClass e),
      setStr FlagJobQueue (JobQueue e),
      setStr FlagJobID (JobID e),
      setInt FlagQueueMs (QueueMs e)]
     FlagExtendedStrings"

text \<open>
  The body as it is written and the flags with its bits: \<open>CompressBodies\<close> is the package
  variable of that name.
\<close>

definition body_and_flags :: "zstd \<Rightarrow> bool \<Rightarrow> Entry \<Rightarrow> u64 \<Rightarrow> bytes \<times> u64" where
  "body_and_flags Z CompressBodies e flags =
     (if length (Body e) > 0
      then let (body, flags) = (if CompressBodies then (Compress Z (Body e), flags)
                                else (Body e, flags OR FlagRawBody))
           in if length body > maxCompressedBodyBytes then ([], flags) else (body, flags OR FlagBody)
      else ([], flags))"

definition writeStr :: "u64 \<Rightarrow> u64 \<Rightarrow> string \<Rightarrow> bytes \<Rightarrow> bytes" where
  "writeStr flags f v buf = (if flags AND f \<noteq> 0 then appendString buf v else buf)"

definition writeUvar :: "u64 \<Rightarrow> u64 \<Rightarrow> int64 \<Rightarrow> bytes \<Rightarrow> bytes" where
  "writeUvar flags f v buf = (if flags AND f \<noteq> 0 then PutUvarint buf v else buf)"

definition writeStatus :: "u64 \<Rightarrow> int64 \<Rightarrow> bytes \<Rightarrow> bytes" where
  "writeStatus flags v buf = (if flags AND FlagStatus \<noteq> 0 then buf @ put_u16 (ucast v) else buf)"

definition writeNPlusOne :: "u64 \<Rightarrow> bool option \<Rightarrow> bytes \<Rightarrow> bytes" where
  "writeNPlusOne flags v buf = (if flags AND FlagNPlusOne \<noteq> 0 then (if v = Some True then buf @ [1] else buf @ [0]) else buf)"

definition writeBody :: "u64 \<Rightarrow> bytes \<Rightarrow> bytes \<Rightarrow> bytes" where
  "writeBody flags body buf =
     (if flags AND FlagBody \<noteq> 0 then (buf @ put_u32 (of_nat (length body))) @ body else buf)"

definition entry_writes :: "u64 \<Rightarrow> Entry \<Rightarrow> (bytes \<Rightarrow> bytes) list" where
  "entry_writes flags e =
     [writeStr flags FlagEnv (Env e),
      writeStr flags FlagVersion (Version e),
      writeStr flags FlagHost (Host e),
      writeStr flags FlagKind (Kind e),
      writeStr flags FlagEventType (EventType e),
      writeStr flags FlagTraceID (TraceID e),
      writeStr flags FlagSpanID (SpanID e),
      writeStr flags FlagParentSpanID (ParentSpanID e),
      writeStr flags FlagRequestID (RequestID e),
      writeStr flags FlagUserID (UserID e),
      writeStr flags FlagTenantID (TenantID e),
      writeStr flags FlagSessionID (SessionID e),
      writeStr flags FlagMethod (Method e),
      writeStr flags FlagPath (Path e),
      writeStr flags FlagRoute (Route e),
      writeStr flags FlagHandler (Handler e),
      writeStatus flags (Status e),
      writeUvar flags FlagDurationMs (DurationMs e),
      writeUvar flags FlagDbMs (DbMs e),
      writeUvar flags FlagDbCount (DbCount e),
      writeUvar flags FlagCacheMs (CacheMs e),
      writeUvar flags FlagCacheHits (CacheHits e),
      writeUvar flags FlagCacheMisses (CacheMisses e),
      writeUvar flags FlagExtMs (ExtMs e),
      writeUvar flags FlagExtCount (ExtCount e),
      writeUvar flags FlagRenderMs (RenderMs e),
      writeUvar flags FlagAllocCount (AllocCount e),
      writeUvar flags FlagMemDeltaMb (MemDeltaMb e),
      writeNPlusOne flags (NPlusOne e),
      writeUvar flags FlagSlowQueries (SlowQueries e),
      writeUvar flags FlagDupQueries (DupQueries e),
      writeStr flags FlagErrorClass (ErrorClass e),
      writeStr flags FlagErrorMessage (ErrorMessage e),
      writeStr flags FlagSourceFile (SourceFile e),
      writeUvar flags FlagSourceLine (SourceLine e),
      writeStr flags FlagErrFingerprint (ErrorFingerprint e),
      writeStr flags FlagJobClass (JobClass e),
      writeStr flags FlagJobQueue (JobQueue e),
      writeStr flags FlagJobID (JobID e),
      writeUvar flags FlagQueueMs (QueueMs e)]"

definition AppendEntry :: "zstd \<Rightarrow> bool \<Rightarrow> bytes \<Rightarrow> Entry \<Rightarrow> bytes" where
  "AppendEntry Z CompressBodies buf e =
     (let recStart = length buf;
          buf = buf @ [0, 0, 0, 0];
          buf = buf @ put_u64 (ID e);
          buf = buf @ put_u64 (Ts e);
          buf = buf @ put_u64 (ReceivedAt e);
          lvl = (case levelToEnum (Level e) of None \<Rightarrow> levelEnumCustom | Some l \<Rightarrow> l);
          buf = buf @ [lvl];
          (body, flags) = body_and_flags Z CompressBodies e (field_flags e);
          buf = buf @ put_u64 flags;
          buf = (if levelToEnum (Level e) = None then appendString buf (Level e) else buf);
          buf = appendString buf (Service e);
          buf = appendString buf (Message e);
          buf = fold (\<lambda>write. write) (entry_writes flags e) buf;
          buf = writeBody flags body buf
      in take recStart buf @ put_u32 (of_nat (length buf - recStart - 4)) @ drop (recStart + 4) buf)"

definition MarshalEntry :: "zstd \<Rightarrow> bool \<Rightarrow> Entry \<Rightarrow> bytes" where
  "MarshalEntry Z CompressBodies e = AppendEntry Z CompressBodies [] e"

section \<open>Reading\<close>

text \<open>
  A reading step takes the entry filled so far and the offset. \<open>upd\<close> stores the value in its
  field; a field that is not flagged is left as it is.
\<close>

type_synonym read_step = "Entry \<times> nat \<Rightarrow> (Entry \<times> nat) res"

definition lenFmt :: "u64 \<Rightarrow> LenFormat" where
  "lenFmt flags = (if flags AND FlagExtendedStrings \<noteq> 0 then LenExtended else LenUint16)"

definition rStr :: "bytes \<Rightarrow> u64 \<Rightarrow> u64 \<Rightarrow> ((string \<Rightarrow> string) \<Rightarrow> Entry \<Rightarrow> Entry) \<Rightarrow> string \<Rightarrow> read_step" where
  "rStr data flags f upd name = (\<lambda>(e, off).
     if flags AND f = 0 then Inr (e, off)
     else rbind (wrapf ''read %s'' [Q name] (ReadString (lenFmt flags) data off)) (\<lambda>(v, off).
            Inr (upd (\<lambda>_. v) e, off)))"

definition rUvar :: "bytes \<Rightarrow> u64 \<Rightarrow> u64 \<Rightarrow> ((int64 \<Rightarrow> int64) \<Rightarrow> Entry \<Rightarrow> Entry) \<Rightarrow> string \<Rightarrow> read_step" where
  "rUvar data flags f upd name = (\<lambda>(e, off).
     if flags AND f = 0 then Inr (e, off)
     else rbind (go_from data off) (\<lambda>rest.
       let (v, n) = uvarint rest
       in if n \<le> 0 then Inl (Errorf ''read %s: invalid uvarint'' [Q name])
          else Inr (upd (\<lambda>_. v) e, off + nat n)))"

definition rStatus :: "bytes \<Rightarrow> u64 \<Rightarrow> read_step" where
  "rStatus data flags = (\<lambda>(e, off).
     if flags AND FlagStatus = 0 then Inr (e, off)
     else if off + 2 > length data then Inl (Errorf ''read status: truncated'' [])
     else rbind (rbind (go_from data off) get_u16) (\<lambda>v. Inr (e\<lparr>Status := ucast v\<rparr>, off + 2)))"

definition rNPlusOne :: "bytes \<Rightarrow> u64 \<Rightarrow> read_step" where
  "rNPlusOne data flags = (\<lambda>(e, off).
     if flags AND FlagNPlusOne = 0 then Inr (e, off)
     else if off \<ge> length data then Inl (Errorf ''read n_plus_one: truncated'' [])
     else rbind (go_index data off) (\<lambda>b. Inr (e\<lparr>NPlusOne := Some (b \<noteq> 0)\<rparr>, off + 1)))"

definition rBody :: "zstd \<Rightarrow> bytes \<Rightarrow> u64 \<Rightarrow> read_step" where
  "rBody Z data flags = (\<lambda>(e, off).
     if flags AND FlagBody = 0 then Inr (e, off)
     else if off + 4 > length data then Inl (Errorf ''read body length: truncated'' [])
     else rbind (rbind (go_from data off) get_u32) (\<lambda>w.
       let bodyLen = unat w; off = off + 4
       in if off + bodyLen > length data then Inl (Errorf ''read body: truncated'' [])
          else rbind (go_slice data off (off + bodyLen)) (\<lambda>encodedBody.
            if flags AND FlagRawBody \<noteq> 0
            then Inr (e\<lparr>Body := encodedBody\<rparr>, off + bodyLen)
            else rbind (wrapf ''decompress body'' [] (Decompress Z encodedBody)) (\<lambda>decompressed.
                   Inr (e\<lparr>Body := decompressed\<rparr>, off + bodyLen)))))"

definition rLevel :: "bytes \<Rightarrow> u64 \<Rightarrow> byte \<Rightarrow> read_step" where
  "rLevel data flags lvlEnum = (\<lambda>(e, off).
     if lvlEnum = levelEnumCustom \<and> flags AND FlagExtendedStrings \<noteq> 0
     then rbind (wrapf ''read level'' [] (ReadString (lenFmt flags) data off)) (\<lambda>(v, off).
            Inr (e\<lparr>Level := v\<rparr>, off))
     else if unat lvlEnum < length enumToLevel
     then rbind (go_index enumToLevel (unat lvlEnum)) (\<lambda>v. Inr (e\<lparr>Level := v\<rparr>, off))
     else rbind (go_index enumToLevel (unat levelEnumInfo)) (\<lambda>v. Inr (e\<lparr>Level := v\<rparr>, off)))"

definition rRequired :: "bytes \<Rightarrow> u64 \<Rightarrow> ((string \<Rightarrow> string) \<Rightarrow> Entry \<Rightarrow> Entry) \<Rightarrow> string \<Rightarrow> read_step" where
  "rRequired data flags upd msg = (\<lambda>(e, off).
     rbind (wrapf msg [] (ReadString (lenFmt flags) data off)) (\<lambda>(v, off). Inr (upd (\<lambda>_. v) e, off)))"

definition entry_reads :: "bytes \<Rightarrow> u64 \<Rightarrow> read_step list" where
  "entry_reads data flags =
     [rStr data flags FlagEnv Env_update ''env'',
      rStr data flags FlagVersion Version_update ''version'',
      rStr data flags FlagHost Host_update ''host'',
      rStr data flags FlagKind Kind_update ''kind'',
      rStr data flags FlagEventType EventType_update ''event_type'',
      rStr data flags FlagTraceID TraceID_update ''trace_id'',
      rStr data flags FlagSpanID SpanID_update ''span_id'',
      rStr data flags FlagParentSpanID ParentSpanID_update ''parent_span_id'',
      rStr data flags FlagRequestID RequestID_update ''request_id'',
      rStr data flags FlagUserID UserID_update ''user_id'',
      rStr data flags FlagTenantID TenantID_update ''tenant_id'',
      rStr data flags FlagSessionID SessionID_update ''session_id'',
      rStr data flags FlagMethod Method_update ''method'',
      rStr data flags FlagPath Path_update ''path'',
      rStr data flags FlagRoute Route_update ''route'',
      rStr data flags FlagHandler Handler_update ''handler'',
      rStatus data flags,
      rUvar data flags FlagDurationMs DurationMs_update ''duration_ms'',
      rUvar data flags FlagDbMs DbMs_update ''db_ms'',
      rUvar data flags FlagDbCount DbCount_update ''db_count'',
      rUvar data flags FlagCacheMs CacheMs_update ''cache_ms'',
      rUvar data flags FlagCacheHits CacheHits_update ''cache_hits'',
      rUvar data flags FlagCacheMisses CacheMisses_update ''cache_misses'',
      rUvar data flags FlagExtMs ExtMs_update ''ext_ms'',
      rUvar data flags FlagExtCount ExtCount_update ''ext_count'',
      rUvar data flags FlagRenderMs RenderMs_update ''render_ms'',
      rUvar data flags FlagAllocCount AllocCount_update ''alloc_count'',
      rUvar data flags FlagMemDeltaMb MemDeltaMb_update ''mem_delta_mb'',
      rNPlusOne data flags,
      rUvar data flags FlagSlowQueries SlowQueries_update ''slow_queries'',
      rUvar data flags FlagDupQueries DupQueries_update ''dup_queries'',
      rStr data flags FlagErrorClass ErrorClass_update ''error_class'',
      rStr data flags FlagErrorMessage ErrorMessage_update ''error_message'',
      rStr data flags FlagSourceFile SourceFile_update ''source_file'',
      rUvar data flags FlagSourceLine SourceLine_update ''source_line'',
      rStr data flags FlagErrFingerprint ErrorFingerprint_update ''error_fingerprint'',
      rStr data flags FlagJobClass JobClass_update ''job_class'',
      rStr data flags FlagJobQueue JobQueue_update ''job_queue'',
      rStr data flags FlagJobID JobID_update ''job_id'',
      rUvar data flags FlagQueueMs QueueMs_update ''queue_ms'']"

definition run_steps :: "read_step list \<Rightarrow> Entry \<times> nat \<Rightarrow> (Entry \<times> nat) res" where
  "run_steps steps s = foldl rbind (Inr s) steps"

definition UnmarshalEntryInto :: "zstd \<Rightarrow> bytes \<Rightarrow> Entry res" where
  "UnmarshalEntryInto Z data =
     (if length data < minRecordBytes then Inl (Errorf ''entry data too short: %d bytes'' [D (int (length data))])
      else rbind (rbind (go_from data 0) get_u64) (\<lambda>id.
           rbind (rbind (go_from data 8) get_u64) (\<lambda>ts.
           rbind (rbind (go_from data 16) get_u64) (\<lambda>received.
           rbind (go_index data 24) (\<lambda>lvlEnum.
           rbind (rbind (go_from data 25) get_u64) (\<lambda>flags.
           rbind (run_steps ([rLevel data flags lvlEnum,
                              rRequired data flags Service_update ''read service'',
                              rRequired data flags Message_update ''read message'']
                             @ entry_reads data flags @ [rBody Z data flags])
                    (zero_entry\<lparr>ID := id, Ts := ts, ReceivedAt := received\<rparr>, 33)) (\<lambda>(e, off).
             if off \<noteq> length data
             then Inl (Errorf ''entry has %d trailing bytes after %d parsed'' [D (int (length data) - int off), D (int off)])
             else Inr e)))))))"

definition UnmarshalEntry :: "zstd \<Rightarrow> bytes \<Rightarrow> Entry res" where
  "UnmarshalEntry Z data = UnmarshalEntryInto Z data"

section \<open>What a record stores\<close>

text \<open>
  \<open>wal_normal\<close> is the entry that a record holds: strings are cut at the field limit, a number
  that is not positive reads back as zero, the status keeps 16 bits, the level \<open>warning\<close> is
  \<open>warn\<close>, and a body over the limit is dropped.
\<close>

definition normal_level :: "string \<Rightarrow> string" where
  "normal_level l = (case levelToEnum l of None \<Rightarrow> truncateField l | Some k \<Rightarrow> enumToLevel ! unat k)"

definition normal_int :: "int64 \<Rightarrow> int64" where
  "normal_int v = (if 0 <s v then v else 0)"

definition normal_status :: "int64 \<Rightarrow> int64" where
  "normal_status v = (if 0 <s v then ucast (ucast v :: u16) else 0)"

definition normal_body :: "zstd \<Rightarrow> bool \<Rightarrow> bytes \<Rightarrow> bytes" where
  "normal_body Z CompressBodies b =
     (if length (if CompressBodies then Compress Z b else b) > maxCompressedBodyBytes then [] else b)"

definition wal_normal :: "zstd \<Rightarrow> bool \<Rightarrow> Entry \<Rightarrow> Entry" where
  "wal_normal Z CompressBodies e = \<lparr>
     ID = ID e,
     Ts = Ts e,
     ReceivedAt = ReceivedAt e,
     Level = normal_level (Level e),
     Service = truncateField (Service e),
     Message = truncateField (Message e),
     Env = truncateField (Env e),
     Version = truncateField (Version e),
     Host = truncateField (Host e),
     Kind = truncateField (Kind e),
     EventType = truncateField (EventType e),
     TraceID = truncateField (TraceID e),
     SpanID = truncateField (SpanID e),
     ParentSpanID = truncateField (ParentSpanID e),
     RequestID = truncateField (RequestID e),
     UserID = truncateField (UserID e),
     TenantID = truncateField (TenantID e),
     SessionID = truncateField (SessionID e),
     Method = truncateField (Method e),
     Path = truncateField (Path e),
     Route = truncateField (Route e),
     Handler = truncateField (Handler e),
     Status = normal_status (Status e),
     DurationMs = normal_int (DurationMs e),
     DbMs = normal_int (DbMs e),
     DbCount = normal_int (DbCount e),
     CacheMs = normal_int (CacheMs e),
     CacheHits = normal_int (CacheHits e),
     CacheMisses = normal_int (CacheMisses e),
     ExtMs = normal_int (ExtMs e),
     ExtCount = normal_int (ExtCount e),
     RenderMs = normal_int (RenderMs e),
     AllocCount = normal_int (AllocCount e),
     MemDeltaMb = normal_int (MemDeltaMb e),
     NPlusOne = NPlusOne e,
     SlowQueries = normal_int (SlowQueries e),
     DupQueries = normal_int (DupQueries e),
     ErrorClass = truncateField (ErrorClass e),
     ErrorMessage = truncateField (ErrorMessage e),
     SourceFile = truncateField (SourceFile e),
     SourceLine = normal_int (SourceLine e),
     ErrorFingerprint = truncateField (ErrorFingerprint e),
     JobClass = truncateField (JobClass e),
     JobQueue = truncateField (JobQueue e),
     JobID = truncateField (JobID e),
     QueueMs = normal_int (QueueMs e),
     Body = normal_body Z CompressBodies (Body e)\<rparr>"

section \<open>Flags\<close>

lemma and_flag [simp]: "k < 64 \<Longrightarrow> w AND flag k = 0 \<longleftrightarrow> \<not> bit w k"
  by (simp add: flag_def push_bit_eq_mult and_exp_eq_0_iff_not_bit)

lemma bit_flag: "bit (flag j) k \<longleftrightarrow> j = k \<and> k < 64"
  by (auto simp: flag_def push_bit_eq_mult bit_exp_iff)

lemma bit_setStr: "bit (setStr (flag j) v w) k \<longleftrightarrow> bit w k \<or> (j = k \<and> k < 64 \<and> v \<noteq> [])"
  by (simp add: setStr_def bit_or_iff bit_flag)

lemma bit_setInt: "bit (setInt (flag j) v w) k \<longleftrightarrow> bit w k \<or> (j = k \<and> k < 64 \<and> 0 <s v)"
  by (simp add: setInt_def bit_or_iff bit_flag)

lemma bit_if: "bit (if c then x else y) k \<longleftrightarrow> (if c then bit x k else bit y k)"
  by simp

lemma field_flag_bits:
  shows "bit (field_flags e) 0 \<longleftrightarrow> Env e \<noteq> []"
    and "bit (field_flags e) 1 \<longleftrightarrow> Version e \<noteq> []"
    and "bit (field_flags e) 2 \<longleftrightarrow> Host e \<noteq> []"
    and "bit (field_flags e) 3 \<longleftrightarrow> Kind e \<noteq> []"
    and "bit (field_flags e) 4 \<longleftrightarrow> EventType e \<noteq> []"
    and "bit (field_flags e) 5 \<longleftrightarrow> TraceID e \<noteq> []"
    and "bit (field_flags e) 6 \<longleftrightarrow> SpanID e \<noteq> []"
    and "bit (field_flags e) 7 \<longleftrightarrow> ParentSpanID e \<noteq> []"
    and "bit (field_flags e) 8 \<longleftrightarrow> RequestID e \<noteq> []"
    and "bit (field_flags e) 9 \<longleftrightarrow> UserID e \<noteq> []"
    and "bit (field_flags e) 10 \<longleftrightarrow> TenantID e \<noteq> []"
    and "bit (field_flags e) 11 \<longleftrightarrow> SessionID e \<noteq> []"
    and "bit (field_flags e) 12 \<longleftrightarrow> Method e \<noteq> []"
    and "bit (field_flags e) 13 \<longleftrightarrow> Path e \<noteq> []"
    and "bit (field_flags e) 14 \<longleftrightarrow> Route e \<noteq> []"
    and "bit (field_flags e) 15 \<longleftrightarrow> Handler e \<noteq> []"
    and "bit (field_flags e) 16 \<longleftrightarrow> 0 <s Status e"
    and "bit (field_flags e) 17 \<longleftrightarrow> 0 <s DurationMs e"
    and "bit (field_flags e) 18 \<longleftrightarrow> 0 <s DbMs e"
    and "bit (field_flags e) 19 \<longleftrightarrow> 0 <s DbCount e"
    and "bit (field_flags e) 20 \<longleftrightarrow> 0 <s CacheMs e"
    and "bit (field_flags e) 21 \<longleftrightarrow> 0 <s CacheHits e"
    and "bit (field_flags e) 22 \<longleftrightarrow> 0 <s CacheMisses e"
    and "bit (field_flags e) 23 \<longleftrightarrow> 0 <s ExtMs e"
    and "bit (field_flags e) 24 \<longleftrightarrow> 0 <s ExtCount e"
    and "bit (field_flags e) 25 \<longleftrightarrow> 0 <s RenderMs e"
    and "bit (field_flags e) 26 \<longleftrightarrow> 0 <s AllocCount e"
    and "bit (field_flags e) 27 \<longleftrightarrow> 0 <s MemDeltaMb e"
    and "bit (field_flags e) 28 \<longleftrightarrow> NPlusOne e \<noteq> None"
    and "bit (field_flags e) 29 \<longleftrightarrow> 0 <s SlowQueries e"
    and "bit (field_flags e) 30 \<longleftrightarrow> 0 <s DupQueries e"
    and "bit (field_flags e) 31 \<longleftrightarrow> ErrorClass e \<noteq> []"
    and "bit (field_flags e) 32 \<longleftrightarrow> ErrorMessage e \<noteq> []"
    and "bit (field_flags e) 33 \<longleftrightarrow> SourceFile e \<noteq> []"
    and "bit (field_flags e) 34 \<longleftrightarrow> 0 <s SourceLine e"
    and "bit (field_flags e) 35 \<longleftrightarrow> ErrorFingerprint e \<noteq> []"
    and "bit (field_flags e) 36 \<longleftrightarrow> JobClass e \<noteq> []"
    and "bit (field_flags e) 37 \<longleftrightarrow> JobQueue e \<noteq> []"
    and "bit (field_flags e) 38 \<longleftrightarrow> JobID e \<noteq> []"
    and "bit (field_flags e) 39 \<longleftrightarrow> 0 <s QueueMs e"
    and "\<not> bit (field_flags e) 40" and "\<not> bit (field_flags e) 62" and "bit (field_flags e) 63"
  by (simp_all add: field_flags_def bit_setStr bit_setInt bit_or_iff bit_flag bit_if)

lemma body_flag_bits:
  assumes "body_and_flags Z c e fl = (body, flags)"
  shows "k \<noteq> 40 \<Longrightarrow> k \<noteq> 62 \<Longrightarrow> bit flags k \<longleftrightarrow> bit fl k"
    and "\<not> bit fl 40 \<Longrightarrow> bit flags 40 \<longleftrightarrow> Body e \<noteq> [] \<and> normal_body Z c (Body e) = Body e"
    and "\<not> bit fl 62 \<Longrightarrow> bit flags 62 \<longleftrightarrow> Body e \<noteq> [] \<and> \<not> c"
    and "bit flags 40 \<Longrightarrow> \<not> bit fl 40 \<Longrightarrow> body = (if c then Compress Z (Body e) else Body e) \<and> length body \<le> maxCompressedBodyBytes"
  using assms by (auto simp: body_and_flags_def normal_body_def bit_or_iff bit_flag Let_def split: if_splits)

section \<open>Writes append\<close>

lemma truncate_cut_le: "truncate_cut s n \<le> n"
  by (induction n) auto

lemma length_truncateField: "length (truncateField s) \<le> MaxFieldBytes"
  using truncate_cut_le [of s MaxFieldBytes] by (simp add: truncateField_def)

lemma truncateField_Nil [simp]: "truncateField [] = []"
  by (simp add: truncateField_def)

lemma appendString_buf: "appendString buf s = buf @ appendString [] s"
  unfolding appendString_def by (rule AppendLenString_buf)

lemma write_bufs:
  "writeStr flags f s buf = buf @ writeStr flags f s []"
  "writeUvar flags f v buf = buf @ writeUvar flags f v []"
  "writeStatus flags v buf = buf @ writeStatus flags v []"
  "writeNPlusOne flags n buf = buf @ writeNPlusOne flags n []"
  "writeBody flags body buf = buf @ writeBody flags body []"
  by (simp_all add: writeStr_def appendString_buf [of buf] writeUvar_def PutUvarint_def writeStatus_def
    writeNPlusOne_def writeBody_def)

lemma fold_writes:
  "(\<And>w buf. w \<in> set ws \<Longrightarrow> w buf = buf @ w []) \<Longrightarrow> fold (\<lambda>w. w) ws buf = buf @ concat (map (\<lambda>w. w []) ws)"
proof (induction ws arbitrary: buf)
  case (Cons w ws)
  have "fold (\<lambda>w. w) ws (w buf) = w buf @ concat (map (\<lambda>w. w []) ws)" using Cons by simp
  then show ?case using Cons.prems [of w buf] by simp
qed simp

lemma entry_writes_append: "list_all (\<lambda>w. \<forall>buf. w buf = buf @ w []) (entry_writes flags e)"
  unfolding entry_writes_def by (intro list.pred_inject(1) list.pred_inject(2) [THEN iffD2] conjI allI write_bufs)

section \<open>Steps read back what was written\<close>

definition reads :: "bytes \<Rightarrow> read_step \<Rightarrow> bytes \<Rightarrow> (Entry \<Rightarrow> Entry) \<Rightarrow> bool" where
  "reads data r w u \<longleftrightarrow> (\<forall>p q e. data = p @ w @ q \<longrightarrow> r (e, length p) = Inr (u e, length p + length w))"

definition reads_all :: "bytes \<Rightarrow> read_step list \<Rightarrow> (bytes \<times> (Entry \<Rightarrow> Entry)) list \<Rightarrow> bool" where
  "reads_all data rs ws = list_all2 (\<lambda>r (w, u). reads data r w u) rs ws"

lemma foldl_rbind_Inl: "foldl rbind (Inl x) rs = Inl x"
  by (induction rs) auto

lemma run_steps_Cons: "run_steps (r # rs) s = rbind (r s) (run_steps rs)"
  by (cases "r s") (auto simp: run_steps_def foldl_rbind_Inl)

lemma run_steps_reads:
  "reads_all data rs ws \<Longrightarrow> data = p @ concat (map fst ws) @ q \<Longrightarrow>
   run_steps rs (e, length p) = Inr (fold snd ws e, length p + length (concat (map fst ws)))"
proof (induction rs ws arbitrary: p e rule: list_induct2')
  case 1
  then show ?case by (simp add: run_steps_def)
next
  case (4 r rs wu ws)
  obtain w u where wu: "wu = (w, u)" by (cases wu)
  have "r (e, length p) = Inr (u e, length p + length w)"
    using 4 wu by (auto simp: reads_all_def reads_def)
  moreover have "run_steps rs (u e, length (p @ w)) = Inr (fold snd ws (u e), length (p @ w) + length (concat (map fst ws)))"
    using 4 wu by (intro "4.IH") (auto simp: reads_all_def)
  ultimately show ?case using wu by (simp add: run_steps_Cons add.assoc)
qed (auto simp: reads_all_def)

lemma MaxField_le_MaxValue: "length (truncateField s) \<le> MaxValueBytes"
  using length_truncateField [of s] by (simp add: MaxFieldBytes_def MaxValueBytes_def)

lemma read_appendString:
  "ReadString LenExtended (p @ appendString [] s @ q) (length p) = Inr (truncateField s, length p + length (appendString [] s))"
  unfolding appendString_def by (rule read_AppendLenString [OF MaxField_le_MaxValue])

lemma reads_str:
  assumes "bit flags 63" and "\<And>d. upd (\<lambda>_. get d) d = d"
  shows "reads data (rStr data flags f upd name) (writeStr flags f s [])
           (\<lambda>d. upd (\<lambda>_. if flags AND f = 0 then get d else truncateField s) d)"
  unfolding reads_def using assms by (intro allI impI) (simp add: rStr_def writeStr_def lenFmt_def read_appendString)

lemma reads_uvar:
  assumes "\<And>d. upd (\<lambda>_. get d) d = d"
  shows "reads data (rUvar data flags f upd name) (writeUvar flags f v [])
           (\<lambda>d. upd (\<lambda>_. if flags AND f = 0 then get d else v) d)"
  unfolding reads_def using assms by (intro allI impI) (simp add: rUvar_def writeUvar_def PutUvarint_def)

lemma reads_status:
  "reads data (rStatus data flags) (writeStatus flags v [])
     (\<lambda>d. d\<lparr>Status := if flags AND FlagStatus = 0 then Status d else ucast (ucast v :: u16)\<rparr>)"
  unfolding reads_def by (intro allI impI) (simp add: rStatus_def writeStatus_def)

lemma reads_nplusone:
  "reads data (rNPlusOne data flags) (writeNPlusOne flags v [])
     (\<lambda>d. d\<lparr>NPlusOne := if flags AND FlagNPlusOne = 0 then NPlusOne d else Some (v = Some True)\<rparr>)"
  unfolding reads_def by (intro allI impI) (simp add: rNPlusOne_def writeNPlusOne_def nth_append)

lemma reads_required:
  assumes "bit flags 63"
  shows "reads data (rRequired data flags upd msg) (appendString [] s) (\<lambda>d. upd (\<lambda>_. truncateField s) d)"
  unfolding reads_def using assms by (intro allI impI) (simp add: rRequired_def lenFmt_def read_appendString)

text \<open>The bytes of the optional fields, each with its effect on the entry that is read.\<close>

definition entry_effects :: "u64 \<Rightarrow> Entry \<Rightarrow> (bytes \<times> (Entry \<Rightarrow> Entry)) list" where
  "entry_effects flags e =
     [(writeStr flags FlagEnv (Env e) [], \<lambda>d. d\<lparr>Env := if flags AND FlagEnv = 0 then Env d else truncateField (Env e)\<rparr>),
      (writeStr flags FlagVersion (Version e) [], \<lambda>d. d\<lparr>Version := if flags AND FlagVersion = 0 then Version d else truncateField (Version e)\<rparr>),
      (writeStr flags FlagHost (Host e) [], \<lambda>d. d\<lparr>Host := if flags AND FlagHost = 0 then Host d else truncateField (Host e)\<rparr>),
      (writeStr flags FlagKind (Kind e) [], \<lambda>d. d\<lparr>Kind := if flags AND FlagKind = 0 then Kind d else truncateField (Kind e)\<rparr>),
      (writeStr flags FlagEventType (EventType e) [], \<lambda>d. d\<lparr>EventType := if flags AND FlagEventType = 0 then EventType d else truncateField (EventType e)\<rparr>),
      (writeStr flags FlagTraceID (TraceID e) [], \<lambda>d. d\<lparr>TraceID := if flags AND FlagTraceID = 0 then TraceID d else truncateField (TraceID e)\<rparr>),
      (writeStr flags FlagSpanID (SpanID e) [], \<lambda>d. d\<lparr>SpanID := if flags AND FlagSpanID = 0 then SpanID d else truncateField (SpanID e)\<rparr>),
      (writeStr flags FlagParentSpanID (ParentSpanID e) [], \<lambda>d. d\<lparr>ParentSpanID := if flags AND FlagParentSpanID = 0 then ParentSpanID d else truncateField (ParentSpanID e)\<rparr>),
      (writeStr flags FlagRequestID (RequestID e) [], \<lambda>d. d\<lparr>RequestID := if flags AND FlagRequestID = 0 then RequestID d else truncateField (RequestID e)\<rparr>),
      (writeStr flags FlagUserID (UserID e) [], \<lambda>d. d\<lparr>UserID := if flags AND FlagUserID = 0 then UserID d else truncateField (UserID e)\<rparr>),
      (writeStr flags FlagTenantID (TenantID e) [], \<lambda>d. d\<lparr>TenantID := if flags AND FlagTenantID = 0 then TenantID d else truncateField (TenantID e)\<rparr>),
      (writeStr flags FlagSessionID (SessionID e) [], \<lambda>d. d\<lparr>SessionID := if flags AND FlagSessionID = 0 then SessionID d else truncateField (SessionID e)\<rparr>),
      (writeStr flags FlagMethod (Method e) [], \<lambda>d. d\<lparr>Method := if flags AND FlagMethod = 0 then Method d else truncateField (Method e)\<rparr>),
      (writeStr flags FlagPath (Path e) [], \<lambda>d. d\<lparr>Path := if flags AND FlagPath = 0 then Path d else truncateField (Path e)\<rparr>),
      (writeStr flags FlagRoute (Route e) [], \<lambda>d. d\<lparr>Route := if flags AND FlagRoute = 0 then Route d else truncateField (Route e)\<rparr>),
      (writeStr flags FlagHandler (Handler e) [], \<lambda>d. d\<lparr>Handler := if flags AND FlagHandler = 0 then Handler d else truncateField (Handler e)\<rparr>),
      (writeStatus flags (Status e) [], \<lambda>d. d\<lparr>Status := if flags AND FlagStatus = 0 then Status d else ucast (ucast (Status e) :: u16)\<rparr>),
      (writeUvar flags FlagDurationMs (DurationMs e) [], \<lambda>d. d\<lparr>DurationMs := if flags AND FlagDurationMs = 0 then DurationMs d else DurationMs e\<rparr>),
      (writeUvar flags FlagDbMs (DbMs e) [], \<lambda>d. d\<lparr>DbMs := if flags AND FlagDbMs = 0 then DbMs d else DbMs e\<rparr>),
      (writeUvar flags FlagDbCount (DbCount e) [], \<lambda>d. d\<lparr>DbCount := if flags AND FlagDbCount = 0 then DbCount d else DbCount e\<rparr>),
      (writeUvar flags FlagCacheMs (CacheMs e) [], \<lambda>d. d\<lparr>CacheMs := if flags AND FlagCacheMs = 0 then CacheMs d else CacheMs e\<rparr>),
      (writeUvar flags FlagCacheHits (CacheHits e) [], \<lambda>d. d\<lparr>CacheHits := if flags AND FlagCacheHits = 0 then CacheHits d else CacheHits e\<rparr>),
      (writeUvar flags FlagCacheMisses (CacheMisses e) [], \<lambda>d. d\<lparr>CacheMisses := if flags AND FlagCacheMisses = 0 then CacheMisses d else CacheMisses e\<rparr>),
      (writeUvar flags FlagExtMs (ExtMs e) [], \<lambda>d. d\<lparr>ExtMs := if flags AND FlagExtMs = 0 then ExtMs d else ExtMs e\<rparr>),
      (writeUvar flags FlagExtCount (ExtCount e) [], \<lambda>d. d\<lparr>ExtCount := if flags AND FlagExtCount = 0 then ExtCount d else ExtCount e\<rparr>),
      (writeUvar flags FlagRenderMs (RenderMs e) [], \<lambda>d. d\<lparr>RenderMs := if flags AND FlagRenderMs = 0 then RenderMs d else RenderMs e\<rparr>),
      (writeUvar flags FlagAllocCount (AllocCount e) [], \<lambda>d. d\<lparr>AllocCount := if flags AND FlagAllocCount = 0 then AllocCount d else AllocCount e\<rparr>),
      (writeUvar flags FlagMemDeltaMb (MemDeltaMb e) [], \<lambda>d. d\<lparr>MemDeltaMb := if flags AND FlagMemDeltaMb = 0 then MemDeltaMb d else MemDeltaMb e\<rparr>),
      (writeNPlusOne flags (NPlusOne e) [], \<lambda>d. d\<lparr>NPlusOne := if flags AND FlagNPlusOne = 0 then NPlusOne d else Some (NPlusOne e = Some True)\<rparr>),
      (writeUvar flags FlagSlowQueries (SlowQueries e) [], \<lambda>d. d\<lparr>SlowQueries := if flags AND FlagSlowQueries = 0 then SlowQueries d else SlowQueries e\<rparr>),
      (writeUvar flags FlagDupQueries (DupQueries e) [], \<lambda>d. d\<lparr>DupQueries := if flags AND FlagDupQueries = 0 then DupQueries d else DupQueries e\<rparr>),
      (writeStr flags FlagErrorClass (ErrorClass e) [], \<lambda>d. d\<lparr>ErrorClass := if flags AND FlagErrorClass = 0 then ErrorClass d else truncateField (ErrorClass e)\<rparr>),
      (writeStr flags FlagErrorMessage (ErrorMessage e) [], \<lambda>d. d\<lparr>ErrorMessage := if flags AND FlagErrorMessage = 0 then ErrorMessage d else truncateField (ErrorMessage e)\<rparr>),
      (writeStr flags FlagSourceFile (SourceFile e) [], \<lambda>d. d\<lparr>SourceFile := if flags AND FlagSourceFile = 0 then SourceFile d else truncateField (SourceFile e)\<rparr>),
      (writeUvar flags FlagSourceLine (SourceLine e) [], \<lambda>d. d\<lparr>SourceLine := if flags AND FlagSourceLine = 0 then SourceLine d else SourceLine e\<rparr>),
      (writeStr flags FlagErrFingerprint (ErrorFingerprint e) [], \<lambda>d. d\<lparr>ErrorFingerprint := if flags AND FlagErrFingerprint = 0 then ErrorFingerprint d else truncateField (ErrorFingerprint e)\<rparr>),
      (writeStr flags FlagJobClass (JobClass e) [], \<lambda>d. d\<lparr>JobClass := if flags AND FlagJobClass = 0 then JobClass d else truncateField (JobClass e)\<rparr>),
      (writeStr flags FlagJobQueue (JobQueue e) [], \<lambda>d. d\<lparr>JobQueue := if flags AND FlagJobQueue = 0 then JobQueue d else truncateField (JobQueue e)\<rparr>),
      (writeStr flags FlagJobID (JobID e) [], \<lambda>d. d\<lparr>JobID := if flags AND FlagJobID = 0 then JobID d else truncateField (JobID e)\<rparr>),
      (writeUvar flags FlagQueueMs (QueueMs e) [], \<lambda>d. d\<lparr>QueueMs := if flags AND FlagQueueMs = 0 then QueueMs d else QueueMs e\<rparr>)]"

lemma entry_effects_writes: "map fst (entry_effects flags e) = map (\<lambda>w. w []) (entry_writes flags e)"
  by (simp add: entry_effects_def entry_writes_def)

lemma entry_reads_effects: "bit flags 63 \<Longrightarrow> reads_all data (entry_reads data flags) (entry_effects flags e)"
  unfolding entry_reads_def entry_effects_def reads_all_def list_all2_Cons prod.case
  by (intro conjI list_all2_Nil [THEN iffD2] reads_str reads_uvar reads_status reads_nplusone) simp_all

lemma levelToEnum_range: "levelToEnum l = Some k \<Longrightarrow> unat k < length enumToLevel \<and> k \<noteq> levelEnumCustom"
  by (auto simp: levelToEnum_def enumToLevel_def levelEnumCustom_def split: if_splits)

lemma reads_level:
  assumes "bit flags 63"
  shows "reads data (rLevel data flags (case levelToEnum l of None \<Rightarrow> levelEnumCustom | Some k \<Rightarrow> k))
           (if levelToEnum l = None then appendString [] l else []) (\<lambda>d. d\<lparr>Level := normal_level l\<rparr>)"
proof (cases "levelToEnum l")
  case None
  then show ?thesis unfolding reads_def using assms
    by (intro allI impI) (simp add: rLevel_def lenFmt_def read_appendString normal_level_def)
next
  case (Some k)
  then show ?thesis unfolding reads_def using levelToEnum_range [OF Some]
    by (intro allI impI) (simp add: rLevel_def normal_level_def)
qed

lemma reads_body:
  assumes Z: "zstd_lib Z" and big: "int (length (Body e)) \<le> MaxBlockBytes"
    and bf: "body_and_flags Z c e (field_flags e) = (body, flags)"
  shows "reads data (rBody Z data flags) (writeBody flags body [])
           (\<lambda>d. d\<lparr>Body := if flags AND FlagBody = 0 then Body d else normal_body Z c (Body e)\<rparr>)"
proof (cases "bit flags 40")
  case False
  then show ?thesis unfolding reads_def by (intro allI impI) (simp add: rBody_def writeBody_def)
next
  case True
  note bits = body_flag_bits [OF bf]
  have body: "body = (if c then Compress Z (Body e) else Body e)" "length body \<le> maxCompressedBodyBytes"
    using bits(4) True field_flag_bits by auto
  have nb: "normal_body Z c (Body e) = Body e" "bit flags 62 \<longleftrightarrow> \<not> c"
    using bits(2,3) True field_flag_bits by auto
  have len: "unat (of_nat (length body) :: u32) = length body"
    using body(2) by (intro unat_of_nat_small) (simp add: wal_consts)
  have "Decompress Z (Compress Z (Body e)) = Inr (Body e)"
    using Z big by (simp add: Decompress_def decompress_compress MaxBlockBytes_def)
  then show ?thesis unfolding reads_def using True len nb body(1)
    by (intro allI impI) (cases c; simp add: rBody_def writeBody_def Let_def)
qed

section \<open>Records\<close>

definition record_payload :: "zstd \<Rightarrow> bool \<Rightarrow> Entry \<Rightarrow> bytes" where
  "record_payload Z c e =
     (let (body, flags) = body_and_flags Z c e (field_flags e)
      in put_u64 (ID e) @ put_u64 (Ts e) @ put_u64 (ReceivedAt e) @
         [case levelToEnum (Level e) of None \<Rightarrow> levelEnumCustom | Some l \<Rightarrow> l] @ put_u64 flags @
         (if levelToEnum (Level e) = None then appendString [] (Level e) else []) @
         appendString [] (Service e) @ appendString [] (Message e) @
         concat (map fst (entry_effects flags e)) @ writeBody flags body [])"

lemma AppendEntry_payload:
  "AppendEntry Z c buf e = buf @ put_u32 (of_nat (length (record_payload Z c e))) @ record_payload Z c e"
proof -
  obtain body flags where bf: "body_and_flags Z c e (field_flags e) = (body, flags)" by fastforce
  have w: "fold (\<lambda>w. w) (entry_writes flags e) b = b @ concat (map fst (entry_effects flags e))" for b
    using entry_writes_append [of flags e]
    by (subst fold_writes) (auto simp: list_all_iff entry_effects_writes comp_def)
  show ?thesis
    by (cases "levelToEnum (Level e)")
      (simp_all add: AppendEntry_def record_payload_def Let_def bf w appendString_buf [of "_ @ _"]
        appendString_buf [of "_ # _"] write_bufs(5) [of _ _ "_ @ _"] write_bufs(5) [of _ _ "_ # _"])
qed

text \<open>A flagged field of the entry that is read, as its normal value.\<close>

lemma normal_fields:
  "(if s = [] then [] else truncateField s) = truncateField s"
  "(if \<not> 0 <s v then 0 else v) = normal_int v"
  "(if \<not> 0 <s v then 0 else ucast (ucast v :: u16)) = normal_status v"
  "(if n = None then None else Some (n = Some True)) = n"
  by (auto simp: normal_int_def normal_status_def)

lemma fold_effects:
  assumes bf: "body_and_flags Z c e (field_flags e) = (body, flags)"
  shows "(fold snd (entry_effects flags e)
            (zero_entry\<lparr>ID := ID e, Ts := Ts e, ReceivedAt := ReceivedAt e, Level := normal_level (Level e),
               Service := truncateField (Service e), Message := truncateField (Message e)\<rparr>))
           \<lparr>Body := if flags AND FlagBody = 0 then [] else normal_body Z c (Body e)\<rparr> = wal_normal Z c e"
proof -
  note bits = body_flag_bits(1) [OF bf] field_flag_bits field_flag_bits(2) [unfolded One_nat_def]
  have body: "(if flags AND FlagBody = 0 then [] else normal_body Z c (Body e)) = normal_body Z c (Body e)"
    using body_flag_bits(2) [OF bf] field_flag_bits by (auto simp: normal_body_def)
  show ?thesis unfolding body
    by (simp add: entry_effects_def bits wal_normal_def zero_entry_def normal_fields split del: if_split cong: if_cong)
qed

lemma list_all2_length_concat:
  "list_all2 (\<lambda>x b. length x \<le> b) xs bs \<Longrightarrow> length (concat xs) \<le> sum_list bs"
  by (induction xs bs rule: list_all2_induct) auto

lemma length_appendString: "length (appendString [] s) \<le> MaxFieldBytes + 6"
  using length_truncateField [of s] by (simp add: appendString_def length_AppendLenString)

lemma length_writes:
  "length (writeStr flags f s []) \<le> MaxFieldBytes + 6" "length (writeUvar flags f v []) \<le> 10"
  "length (writeStatus flags v []) \<le> 2" "length (writeNPlusOne flags n []) \<le> 1"
  using length_appendString [of s] length_put_uvarint_le [of v]
  by (auto simp: writeStr_def writeUvar_def PutUvarint_def writeStatus_def writeNPlusOne_def)

lemma entry_effects_bounded:
  "list_all2 (\<lambda>x b. length x \<le> b) (map fst (entry_effects flags e))
     [MaxFieldBytes + 6, MaxFieldBytes + 6, MaxFieldBytes + 6, MaxFieldBytes + 6, MaxFieldBytes + 6, MaxFieldBytes + 6, MaxFieldBytes + 6, MaxFieldBytes + 6, MaxFieldBytes + 6, MaxFieldBytes + 6, MaxFieldBytes + 6, MaxFieldBytes + 6, MaxFieldBytes + 6, MaxFieldBytes + 6, MaxFieldBytes + 6, MaxFieldBytes + 6, 2, 10, 10, 10, 10, 10, 10, 10, 10, 10, 10, 10, 1, 10, 10, MaxFieldBytes + 6, MaxFieldBytes + 6, MaxFieldBytes + 6, 10, MaxFieldBytes + 6, MaxFieldBytes + 6, MaxFieldBytes + 6, MaxFieldBytes + 6, 10]"
  unfolding entry_effects_def list.map fst_conv list_all2_Cons
  by (intro conjI list_all2_Nil [THEN iffD2] length_writes refl)

lemma length_payload: "minRecordBytes \<le> length (record_payload Z c e) \<and> length (record_payload Z c e) \<le> maxRecordBytes"
proof -
  obtain body flags where bf: "body_and_flags Z c e (field_flags e) = (body, flags)" by fastforce
  have "length (concat (map fst (entry_effects flags e))) \<le> 23 * (MaxFieldBytes + 6) + 16 * 10 + 3"
    using list_all2_length_concat [OF entry_effects_bounded [of flags e]] by simp
  moreover have "length (writeBody flags body []) \<le> maxCompressedBodyBytes + 4"
    using body_flag_bits(4) [OF bf] field_flag_bits by (cases "bit flags 40") (auto simp: writeBody_def)
  ultimately show ?thesis
    using length_appendString [of "Level e"] length_appendString [of "Service e"] length_appendString [of "Message e"]
    by (simp add: record_payload_def bf wal_consts)
qed

lemma unmarshal_payload:
  assumes Z: "zstd_lib Z" and big: "int (length (Body e)) \<le> MaxBlockBytes"
  shows "UnmarshalEntry Z (record_payload Z c e) = Inr (wal_normal Z c e)"
proof -
  obtain body flags where bf: "body_and_flags Z c e (field_flags e) = (body, flags)" by fastforce
  let ?lvl = "case levelToEnum (Level e) of None \<Rightarrow> levelEnumCustom | Some l \<Rightarrow> l"
  let ?lb = "if levelToEnum (Level e) = None then appendString [] (Level e) else []"
  let ?hd = "put_u64 (ID e) @ put_u64 (Ts e) @ put_u64 (ReceivedAt e) @ [?lvl] @ put_u64 flags"
  let ?ws = "[(?lb, \<lambda>d. d\<lparr>Level := normal_level (Level e)\<rparr>),
              (appendString [] (Service e), Service_update (\<lambda>_. truncateField (Service e))),
              (appendString [] (Message e), Message_update (\<lambda>_. truncateField (Message e)))]
             @ entry_effects flags e
             @ [(writeBody flags body [], \<lambda>d. d\<lparr>Body := if flags AND FlagBody = 0 then Body d else normal_body Z c (Body e)\<rparr>)]"
  let ?data = "record_payload Z c e"
  let ?rs = "[rLevel ?data flags ?lvl, rRequired ?data flags Service_update ''read service'',
              rRequired ?data flags Message_update ''read message''] @ entry_reads ?data flags @ [rBody Z ?data flags]"
  let ?e0 = "zero_entry\<lparr>ID := ID e, Ts := Ts e, ReceivedAt := ReceivedAt e\<rparr>"
  have b63: "bit flags 63" using body_flag_bits(1) [OF bf, of 63] field_flag_bits by simp
  have data: "?data = ?hd @ concat (map fst ?ws) @ []" by (simp add: record_payload_def bf)
  have "reads_all ?data ?rs ?ws"
    unfolding reads_all_def append_Cons append_Nil list_all2_Cons prod.case
    using entry_reads_effects [OF b63, of ?data e, unfolded reads_all_def]
    by (intro conjI reads_level [OF b63] reads_required [OF b63] list_all2_appendI list_all2_Nil [THEN iffD2] refl
        list_all2_Cons [THEN iffD2] prod.case [THEN iffD2] reads_body [OF Z big bf])
  moreover have "length ?data = 33 + length (concat (map fst ?ws))" "length ?hd = 33"
    by (subst data, simp) simp
  ultimately have run: "run_steps ?rs (?e0, 33) = Inr (fold snd ?ws ?e0, length ?data)"
    using run_steps_reads [OF _ data, of ?rs ?e0] by (simp only:)
  have keep: "Body (fold snd (entry_effects flags e) d) = Body d" for d
    by (simp add: entry_effects_def split del: if_split cong: if_cong)
  have "fold snd ?ws ?e0 = wal_normal Z c e"
    using fold_effects [OF bf] by (simp add: keep zero_entry_def split del: if_split cong: if_cong)
  moreover have "\<not> length ?data < minRecordBytes" using length_payload [of Z c e] by simp
  moreover have hd: "go_from ?data 0 = Inr ?data" "go_from ?data 8 = Inr (drop 8 ?data)" "go_from ?data 16 = Inr (drop 16 ?data)"
     "go_from ?data 25 = Inr (drop 25 ?data)" "go_index ?data 24 = Inr ?lvl"
    "get_u64 ?data = Inr (ID e)" "get_u64 (drop 8 ?data) = Inr (Ts e)" "get_u64 (drop 16 ?data) = Inr (ReceivedAt e)"
    "get_u64 (drop 25 ?data) = Inr flags"
    by (subst data, simp add: nth_append)+
  ultimately show ?thesis
    unfolding UnmarshalEntry_def UnmarshalEntryInto_def by (simp only: if_False hd rbind.simps run split) simp
qed

section \<open>Arbitrary data\<close>

text \<open>A step that never panics from an offset inside the data and never leaves the data.\<close>

definition step_safe :: "bytes \<Rightarrow> read_step \<Rightarrow> bool" where
  "step_safe data r \<longleftrightarrow> (\<forall>e off. off \<le> length data \<longrightarrow> r (e, off) \<noteq> Inl Panic \<and>
     (\<forall>e' off'. r (e, off) = Inr (e', off') \<longrightarrow> off \<le> off' \<and> off' \<le> length data))"

lemma run_steps_safe:
  "list_all (step_safe data) rs \<Longrightarrow> off \<le> length data \<Longrightarrow> run_steps rs (e, off) \<noteq> Inl Panic"
proof (induction rs arbitrary: e off)
  case Nil
  then show ?case by (simp add: run_steps_def)
next
  case (Cons r rs)
  have r: "step_safe data r" and rest: "list_all (step_safe data) rs" using Cons.prems(1) by simp_all
  from r Cons.prems(2) have np: "r (e, off) \<noteq> Inl Panic"
    and ok: "\<And>e' off'. r (e, off) = Inr (e', off') \<Longrightarrow> off' \<le> length data"
    unfolding step_safe_def by blast+
  show ?case unfolding run_steps_Cons
  proof (rule rbind_no_panic [OF np])
    fix a assume a: "r (e, off) = Inr a"
    obtain e' off' where "a = (e', off')" by (cases a)
    then show "run_steps rs a \<noteq> Inl Panic" using Cons.IH [OF rest ok] a by simp
  qed
qed

lemma step_safe_str: "step_safe data (rStr data flags f upd name)"
  unfolding step_safe_def
proof (intro allI impI)
  fix e off assume "off \<le> length data"
  then show "rStr data flags f upd name (e, off) \<noteq> Inl Panic \<and>
      (\<forall>e' off'. rStr data flags f upd name (e, off) = Inr (e', off') \<longrightarrow> off \<le> off' \<and> off' \<le> length data)"
    using ReadString_safe [of "lenFmt flags" data off]
    by (auto simp: rStr_def rbind_Panic_iff)
qed

lemma step_safe_required: "step_safe data (rRequired data flags upd msg)"
  unfolding step_safe_def
proof (intro allI impI)
  fix e off assume "off \<le> length data"
  then show "rRequired data flags upd msg (e, off) \<noteq> Inl Panic \<and>
      (\<forall>e' off'. rRequired data flags upd msg (e, off) = Inr (e', off') \<longrightarrow> off \<le> off' \<and> off' \<le> length data)"
    using ReadString_safe [of "lenFmt flags" data off]
    by (auto simp: rRequired_def rbind_Panic_iff)
qed

lemma step_safe_level: "step_safe data (rLevel data flags lvl)"
  unfolding step_safe_def
proof (intro allI impI)
  fix e off assume "off \<le> length data"
  then show "rLevel data flags lvl (e, off) \<noteq> Inl Panic \<and>
      (\<forall>e' off'. rLevel data flags lvl (e, off) = Inr (e', off') \<longrightarrow> off \<le> off' \<and> off' \<le> length data)"
    using ReadString_safe [of "lenFmt flags" data off]
    by (auto simp: rLevel_def rbind_Panic_iff enumToLevel_def levelEnumInfo_def split: if_splits)
qed

lemma step_safe_uvar: "step_safe data (rUvar data flags f upd name)"
  unfolding step_safe_def
proof (intro allI impI conjI)
  fix e off assume off: "off \<le> length data"
  then show "rUvar data flags f upd name (e, off) \<noteq> Inl Panic"
    by (auto simp: rUvar_def rbind_Panic_iff Let_def split: prod.splits)
  fix e' off' assume "rUvar data flags f upd name (e, off) = Inr (e', off')"
  then show "off \<le> off'" "off' \<le> length data"
    using off uvarint_consumed [of "drop off data"]
    by (fastforce simp: rUvar_def Let_def split: prod.splits if_splits)+
qed

lemma step_safe_fixed:
  "step_safe data (rStatus data flags)" "step_safe data (rNPlusOne data flags)" "step_safe data (rBody Z data flags)"
  by (auto simp: step_safe_def rStatus_def rNPlusOne_def rBody_def rbind_Panic_iff Let_def get_u16_def get_u32_def
    Decompress_def decompress_no_panic split: if_splits)

lemma entry_reads_safe: "list_all (step_safe data) (entry_reads data flags)"
  unfolding entry_reads_def
  by (intro list.pred_inject(1) list.pred_inject(2) [THEN iffD2] conjI step_safe_str step_safe_uvar step_safe_fixed)

lemma unmarshal_no_panic [no_panic]: "UnmarshalEntry Z data \<noteq> Inl Panic"
proof (cases "length data < minRecordBytes")
  case True
  then show ?thesis by (simp add: UnmarshalEntry_def UnmarshalEntryInto_def)
next
  case False
  then have len: "33 \<le> length data" by (simp add: minRecordBytes_def)
  have "run_steps ([rLevel data flags lvl, rRequired data flags Service_update ''read service'',
            rRequired data flags Message_update ''read message''] @ entry_reads data flags @ [rBody Z data flags]) (e, 33)
        \<noteq> Inl Panic" for flags lvl e
    using len by (intro run_steps_safe [where data = data])
      (simp_all add: step_safe_level step_safe_required entry_reads_safe step_safe_fixed)
  then show ?thesis using False len
    by (auto simp: UnmarshalEntry_def UnmarshalEntryInto_def rbind_Panic_iff get_u64_def go_index_def simp del: append.simps)
qed

section \<open>Field truncation\<close>

lemma truncate_cut_boundary:
  "(truncate_cut s n = 0 \<or> RuneStart (s ! truncate_cut s n)) \<and> (\<forall>m. truncate_cut s n < m \<and> m \<le> n \<longrightarrow> \<not> RuneStart (s ! m))"
  by (induction n) (auto simp: le_Suc_eq)

section \<open>Properties\<close>

text \<open>C1: A log record reads back as the normal form of its entry, for every entry: all 47 fields, known
  and custom levels, compressed and raw bodies. The normal form cuts strings at the field limit, keeps
  positive numbers (16 bits of the status), maps \<open>warning\<close> to \<open>warn\<close> and drops an oversized body.\<close>

theorem wal_record_roundtrip:
  assumes "zstd_lib Z" and "int (length (Body e)) \<le> MaxBlockBytes"
  shows "UnmarshalEntry Z (drop 4 (MarshalEntry Z c e)) = Inr (wal_normal Z c e)"
  using unmarshal_payload [OF assms] by (simp add: MarshalEntry_def AppendEntry_payload)

theorem wal_record_roundtrip_witness:
  "UnmarshalEntry stored_zstd (drop 4 (MarshalEntry stored_zstd True (zero_entry\<lparr>Level := ''notice'', Service := ''web'', Status := 200\<rparr>)))
     = Inr (wal_normal stored_zstd True (zero_entry\<lparr>Level := ''notice'', Service := ''web'', Status := 200\<rparr>))"
  using wal_record_roundtrip [of stored_zstd "zero_entry\<lparr>Level := ''notice'', Service := ''web'', Status := 200\<rparr>" True] stored_zstd_lib
  by (simp add: zero_entry_def MaxBlockBytes_def)

text \<open>C27: Whatever the entry, the writer emits a record the scanner's limits accept: appending leaves the
  earlier bytes alone and adds a 4-byte length that is exact and lies between the minimum and the
  maximum record size.\<close>

theorem wal_record_framing:
  "\<exists>payload. AppendEntry Z c buf e = buf @ put_u32 (of_nat (length payload)) @ payload \<and>
     minRecordBytes \<le> length payload \<and> length payload \<le> maxRecordBytes \<and>
     unat (of_nat (length payload) :: u32) = length payload"
proof (intro exI conjI)
  show "AppendEntry Z c buf e = buf @ put_u32 (of_nat (length (record_payload Z c e))) @ record_payload Z c e"
    by (rule AppendEntry_payload)
  show "unat (of_nat (length (record_payload Z c e)) :: u32) = length (record_payload Z c e)"
    using length_payload [of Z c e] by (intro unat_of_nat_small) (simp add: maxRecordBytes_def)
qed (use length_payload [of Z c e] in auto)

text \<open>C32: A field over the limit is cut to a prefix of at most 1 MiB that ends where a rune starts, and at
  the last such place; a field within the limit is stored whole.\<close>

theorem truncate_field_boundary:
  "length (truncateField s) \<le> MaxFieldBytes \<and> (length s \<le> MaxFieldBytes \<longrightarrow> truncateField s = s) \<and>
   (\<exists>n \<le> length s. truncateField s = take n s \<and>
      (length s > MaxFieldBytes \<longrightarrow> (n = 0 \<or> RuneStart (s ! n)) \<and> (\<forall>m. n < m \<and> m \<le> MaxFieldBytes \<longrightarrow> \<not> RuneStart (s ! m))))"
proof (cases "length s \<le> MaxFieldBytes")
  case True
  then show ?thesis by (auto simp: truncateField_def)
next
  case False
  then show ?thesis
    using truncate_cut_boundary [of s MaxFieldBytes] truncate_cut_le [of s MaxFieldBytes]
    by (auto simp: truncateField_def intro!: exI [of _ "truncate_cut s MaxFieldBytes"])
qed

theorem truncate_field_boundary_witness: "truncateField ''abc'' = ''abc''"
  using truncate_field_boundary [of "''abc''"] by (simp add: MaxFieldBytes_def)

end
