(* ===== verification/Chunk_Row.thy ===== *)
theory Chunk_Row
  imports Chunk_Columns Wal
begin

text \<open>
  Reading one row of a chunk back into an entry: \<open>internal/logstore/engine/chunkrow.go\<close> and
  \<open>readEntryFromChunk\<close> of \<open>store.go\<close>. A destination pointer is the update function of the field. The
  first error of a column read is kept and stops every later read.
\<close>

section \<open>Rows\<close>

record chunkRow =
  rcols :: chunkColumns
  rrow :: nat
  rerr :: "err option"

fun int64s_of :: "Column \<Rightarrow> int64 list" where
  "int64s_of (Int64s v) = v" | "int64s_of _ = []"

fun strings_of :: "Column \<Rightarrow> string list" where
  "strings_of (Strings v) = v" | "strings_of _ = []"

fun opt_int64s_of :: "Column \<Rightarrow> int64 option list" where
  "opt_int64s_of (OptInt64s v) = v" | "opt_int64s_of _ = []"

fun opt_bools_of :: "Column \<Rightarrow> bool option list" where
  "opt_bools_of (OptBools v) = v" | "opt_bools_of _ = []"

fun opt_bytes_of :: "Column \<Rightarrow> bytes option list" where
  "opt_bytes_of (OptBytes v) = v" | "opt_bytes_of _ = []"

type_synonym col_read = "chunkColumns \<Rightarrow> string \<Rightarrow> Column res \<times> chunkColumns"

definition chunkValue :: "(Column \<Rightarrow> 'a list) \<Rightarrow> col_read \<Rightarrow> string \<Rightarrow> chunkRow \<Rightarrow> 'a option \<times> chunkRow" where
  "chunkValue sel read name c =
     (if rerr c \<noteq> None then (None, c)
      else let (r, cols) = read (rcols c) name; c = c\<lparr>rcols := cols\<rparr>
           in case r of
                Inl e \<Rightarrow>
                  if err_Is e ErrColumnMissing then (None, c)
                  else (None, c\<lparr>rerr := Some (Wrapf ''read column %q'' [Q name] e)\<rparr>)
              | Inr v \<Rightarrow>
                  let vals = sel v
                  in if rrow c \<ge> length vals then (None, c) else (Some (vals ! rrow c), c))"

type_synonym fill = "chunkRow \<times> Entry \<Rightarrow> chunkRow \<times> Entry"

definition row_str :: "string \<Rightarrow> col_read \<Rightarrow> ((string \<Rightarrow> string) \<Rightarrow> Entry \<Rightarrow> Entry) \<Rightarrow> fill" where
  "row_str name read dst = (\<lambda>(c, e). case chunkValue strings_of read name c of
     (Some v, c) \<Rightarrow> (c, dst (\<lambda>_. v) e) | (None, c) \<Rightarrow> (c, e))"

definition row_i64 :: "string \<Rightarrow> col_read \<Rightarrow> ((int64 \<Rightarrow> int64) \<Rightarrow> Entry \<Rightarrow> Entry) \<Rightarrow> fill" where
  "row_i64 name read dst = (\<lambda>(c, e). case chunkValue int64s_of read name c of
     (Some v, c) \<Rightarrow> (c, dst (\<lambda>_. v) e) | (None, c) \<Rightarrow> (c, e))"

definition row_sparseInt :: "zstd \<Rightarrow> string \<Rightarrow> ((int64 \<Rightarrow> int64) \<Rightarrow> Entry \<Rightarrow> Entry) \<Rightarrow> fill" where
  "row_sparseInt Z name dst = (\<lambda>(c, e). case chunkValue opt_int64s_of (sparseInt64 Z) name c of
     (Some (Some v), c) \<Rightarrow> (c, dst (\<lambda>_. v) e) | (_, c) \<Rightarrow> (c, e))"

definition row_sparseBool :: "string \<Rightarrow> fill" where
  "row_sparseBool name = (\<lambda>(c, e). case chunkValue opt_bools_of sparseBool name c of
     (Some (Some v), c) \<Rightarrow> (c, e\<lparr>NPlusOne := Some v\<rparr>) | (_, c) \<Rightarrow> (c, e))"

definition row_sparseBytes :: "zstd \<Rightarrow> string \<Rightarrow> fill" where
  "row_sparseBytes Z name = (\<lambda>(c, e). case chunkValue opt_bytes_of (sparseBytes Z) name c of
     (Some (Some v), c) \<Rightarrow> (c, e\<lparr>Body := v\<rparr>) | (_, c) \<Rightarrow> (c, e))"

section \<open>Numbers\<close>

text \<open>\<open>strconv.Atoi\<close>: an optional sign, then digits only, within the range of \<open>int\<close>.\<close>

definition digit_value :: "char \<Rightarrow> nat option" where
  "digit_value ch = (let n = of_char ch in if 48 \<le> n \<and> n \<le> 57 then Some (n - 48) else None)"

fun digits_value :: "nat \<Rightarrow> string \<Rightarrow> nat option" where
  "digits_value acc [] = Some acc"
| "digits_value acc (ch # s) = (case digit_value ch of None \<Rightarrow> None | Some d \<Rightarrow> digits_value (10 * acc + d) s)"

definition Atoi :: "string \<Rightarrow> int option" where
  "Atoi s =
     (let (neg, ds) = (case s of ch # t \<Rightarrow> if ch = CHR ''-'' then (True, t) else if ch = CHR ''+'' then (False, t) else (False, s)
                                | [] \<Rightarrow> (False, []))
      in if ds = [] then None
         else case digits_value 0 ds of
                None \<Rightarrow> None
              | Some n \<Rightarrow> let v = if neg then - int n else int n in if - (2 ^ 63) \<le> v \<and> v < 2 ^ 63 then Some v else None)"

definition row_status :: "zstd \<Rightarrow> fill" where
  "row_status Z = (\<lambda>(c, e). case chunkValue strings_of (sparseStrings Z) ''status'' c of
     (Some status, c) \<Rightarrow>
       (c, if status \<noteq> [] then (case Atoi status of Some v \<Rightarrow> e\<lparr>Status := of_int v\<rparr> | None \<Rightarrow> e) else e)
   | (None, c) \<Rightarrow> (c, e))"

section \<open>Entries\<close>

definition entrySparseStrings :: "(string \<times> ((string \<Rightarrow> string) \<Rightarrow> Entry \<Rightarrow> Entry)) list" where
  "entrySparseStrings =
    [(''version'', Version_update),
     (''host'', Host_update),
     (''event_type'', EventType_update),
     (''trace_id'', TraceID_update),
     (''span_id'', SpanID_update),
     (''parent_span_id'', ParentSpanID_update),
     (''request_id'', RequestID_update),
     (''user_id'', UserID_update),
     (''tenant_id'', TenantID_update),
     (''session_id'', SessionID_update),
     (''method'', Method_update),
     (''path'', Path_update),
     (''route'', Route_update),
     (''handler'', Handler_update),
     (''error_class'', ErrorClass_update),
     (''error_message'', ErrorMessage_update),
     (''source_file'', SourceFile_update),
     (''error_fingerprint'', ErrorFingerprint_update),
     (''job_class'', JobClass_update),
     (''job_queue'', JobQueue_update),
     (''job_id'', JobID_update)]"

definition entrySparseInts :: "(string \<times> ((int64 \<Rightarrow> int64) \<Rightarrow> Entry \<Rightarrow> Entry)) list" where
  "entrySparseInts =
    [(''duration_ms'', DurationMs_update),
     (''db_ms'', DbMs_update),
     (''db_count'', DbCount_update),
     (''cache_ms'', CacheMs_update),
     (''cache_hits'', CacheHits_update),
     (''cache_misses'', CacheMisses_update),
     (''ext_ms'', ExtMs_update),
     (''ext_count'', ExtCount_update),
     (''render_ms'', RenderMs_update),
     (''alloc_count'', AllocCount_update),
     (''mem_delta_mb'', MemDeltaMb_update),
     (''slow_queries'', SlowQueries_update),
     (''dup_queries'', DupQueries_update),
     (''source_line'', SourceLine_update),
     (''queue_ms'', QueueMs_update)]"

definition fill_steps :: "zstd \<Rightarrow> bool \<Rightarrow> fill list" where
  "fill_steps Z includeBody =
     [row_i64 ''id'' (deltaInt64 Z) ID_update,
      row_i64 ''ts'' (zstdInt64 Z) Ts_update,
      row_i64 ''received_at'' (deltaInt64 Z) ReceivedAt_update,
      row_str ''level'' dictBitpack Level_update,
      row_str ''service'' (dictZstd Z) Service_update,
      row_str ''env'' (dictZstd Z) Env_update,
      row_str ''message'' (zstdBlockStrings Z) Message_update,
      row_str ''kind'' (dictZstd Z) Kind_update] @
     map (\<lambda>(col, get). row_str col (sparseStrings Z) get) entrySparseStrings @
     [row_status Z] @
     map (\<lambda>(col, get). row_sparseInt Z col get) entrySparseInts @
     [row_sparseBool ''n_plus_one''] @
     (if includeBody then [row_sparseBytes Z ''body''] else [])"

definition fillEntryFromChunkProjected :: "zstd \<Rightarrow> chunkColumns \<Rightarrow> nat \<Rightarrow> bool \<Rightarrow> err option \<times> Entry \<times> chunkColumns" where
  "fillEntryFromChunkProjected Z cols row includeBody =
     (let (c, e) = fold (\<lambda>f. f) (fill_steps Z includeBody) (\<lparr>rcols = cols, rrow = row, rerr = None\<rparr>, zero_entry)
      in (rerr c, e, rcols c))"

definition fillEntryFromChunk :: "zstd \<Rightarrow> chunkColumns \<Rightarrow> nat \<Rightarrow> err option \<times> Entry \<times> chunkColumns" where
  "fillEntryFromChunk Z cols row = fillEntryFromChunkProjected Z cols row True"

definition readEntryFromChunk :: "zstd \<Rightarrow> chunkColumns \<Rightarrow> nat \<Rightarrow> Entry res \<times> chunkColumns" where
  "readEntryFromChunk Z cols row =
     (case fillEntryFromChunk Z cols row of
        (Some e, _, cols) \<Rightarrow> (Inl e, cols)
      | (None, e, cols) \<Rightarrow> (Inr e, cols))"

section \<open>Reading back\<close>

text \<open>What a chunk keeps of an entry: numbers that are not positive are stored as absent and read as zero.\<close>

definition chunk_normal :: "Entry \<Rightarrow> Entry" where
  "chunk_normal e = e\<lparr>Status := normal_int (Status e),
     DurationMs := normal_int (DurationMs e),
     DbMs := normal_int (DbMs e),
     DbCount := normal_int (DbCount e),
     CacheMs := normal_int (CacheMs e),
     CacheHits := normal_int (CacheHits e),
     CacheMisses := normal_int (CacheMisses e),
     ExtMs := normal_int (ExtMs e),
     ExtCount := normal_int (ExtCount e),
     RenderMs := normal_int (RenderMs e),
     AllocCount := normal_int (AllocCount e),
     MemDeltaMb := normal_int (MemDeltaMb e),
     SlowQueries := normal_int (SlowQueries e),
     DupQueries := normal_int (DupQueries e),
     SourceLine := normal_int (SourceLine e),
     QueueMs := normal_int (QueueMs e)\<rparr>"

text \<open>The scan \<open>c\<close> is over a chunk that holds \<open>es\<close>: every column of the schema decodes to their values.\<close>

definition holds :: "zstd \<Rightarrow> (string \<Rightarrow> Reader) \<Rightarrow> Entry list \<Rightarrow> chunkColumns \<Rightarrow> bool" where
  "holds Z readers es c \<longleftrightarrow> cols_ok Z readers c \<and>
     (\<forall>n ty. map_of Schema n = Some ty \<longrightarrow> direct_read Z (creader c) ty n = Inr (column_values es (n, ty)))"

lemma holds_scan:
  assumes "holds Z readers es c" "map_of Schema n = Some ty"
  shows "fst (scan_read Z ty c n) = Inr (column_values es (n, ty))" and "holds Z readers es (snd (scan_read Z ty c n))"
  using assms scan_read_ok [of Z readers c n ty] scan_read_frame [of Z ty c n] by (simp_all add: holds_def)

definition row_ok :: "zstd \<Rightarrow> (string \<Rightarrow> Reader) \<Rightarrow> Entry list \<Rightarrow> nat \<Rightarrow> chunkRow \<Rightarrow> bool" where
  "row_ok Z readers es row c \<longleftrightarrow> rerr c = None \<and> rrow c = row \<and> row < length es \<and> holds Z readers es (rcols c)"

lemma chunkValue_ok:
  assumes c: "row_ok Z readers es row c" and ty: "map_of Schema n = Some ty"
    and read: "read = scan_read Z ty" and len: "length (sel (column_values es (n, ty))) = length es"
  shows "\<exists>c'. chunkValue sel read n c = (Some (sel (column_values es (n, ty)) ! row), c') \<and> row_ok Z readers es row c'"
proof -
  have h: "holds Z readers es (rcols c)" using c by (simp add: row_ok_def)
  show ?thesis
    using c len holds_scan [OF h ty] by (cases "scan_read Z ty (rcols c) n") (simp add: chunkValue_def read row_ok_def)
qed

definition fills :: "zstd \<Rightarrow> (string \<Rightarrow> Reader) \<Rightarrow> Entry list \<Rightarrow> nat \<Rightarrow> fill \<Rightarrow> (Entry \<Rightarrow> Entry) \<Rightarrow> bool" where
  "fills Z readers es row f g \<longleftrightarrow>
     (\<forall>c d. row_ok Z readers es row c \<longrightarrow> (\<exists>c'. f (c, d) = (c', g d) \<and> row_ok Z readers es row c'))"

lemma fold_fills:
  assumes "list_all2 (fills Z readers es row) fs gs" "row_ok Z readers es row c"
  shows "\<exists>c'. fold (\<lambda>f. f) fs (c, d) = (c', fold (\<lambda>g. g) gs d) \<and> row_ok Z readers es row c'"
  using assms
proof (induction fs gs arbitrary: c d rule: list_all2_induct)
  case (Cons f fs g gs)
  then obtain c' where "f (c, d) = (c', g d)" "row_ok Z readers es row c'" unfolding fills_def by blast
  then show ?case using Cons.IH by simp
qed simp

lemma scan_methods:
  "deltaInt64 Z = scan_read Z ColDeltaVarint" "zstdInt64 Z = scan_read Z ColZstdInt64" "dictBitpack = scan_read Z ColDictBitpack"
  "dictZstd Z = scan_read Z ColDictZstd" "zstdBlockStrings Z = scan_read Z ColZstdBlock"
  "sparseStrings Z = scan_read Z ColSparseString" "sparseStrings Z = scan_read Z ColSparseDictZstd"
  "sparseInt64 Z = scan_read Z ColSparseInt64" "sparseBool = scan_read Z ColSparseBool" "sparseBytes Z = scan_read Z ColSparseBytes"
  by (simp_all add: fun_eq_iff scan_read_def)

lemma fills_i64:
  assumes "map_of Schema n = Some ty" "read = scan_read Z ty" "ty = ColDeltaVarint \<or> ty = ColZstdInt64"
    "map_of int64_fields n = Some f"
  shows "fills Z readers es row (row_i64 n read dst) (dst (\<lambda>_. f (es ! row)))"
  unfolding fills_def
proof (intro allI impI)
  fix c d assume c: "row_ok Z readers es row c"
  then have "row < length es" by (simp add: row_ok_def)
  then have "int64s_of (column_values es (n, ty)) ! row = f (es ! row)"
    using assms by (auto simp: column_values_def extractInt64_def)
  moreover have "length (int64s_of (column_values es (n, ty))) = length es" using assms by (auto simp: column_values_def)
  ultimately show "\<exists>c'. row_i64 n read dst (c, d) = (c', dst (\<lambda>_. f (es ! row)) d) \<and> row_ok Z readers es row c'"
    using chunkValue_ok [OF c assms(1,2), of int64s_of] by (auto simp: row_i64_def)
qed

definition string_type :: "ColumnType \<Rightarrow> bool" where
  "string_type ty \<longleftrightarrow> ty \<in> {ColDictBitpack, ColDictZstd, ColZstdBlock, ColSparseString, ColSparseDictZstd}"

lemma string_column:
  assumes "string_type ty" "map_of string_fields n = Some f"
  shows "strings_of (column_values es (n, ty)) = map f es"
  using assms by (auto simp: string_type_def column_values_def extractString_def)

lemma fills_str:
  assumes "map_of Schema n = Some ty" "read = scan_read Z ty" "string_type ty" "map_of string_fields n = Some f"
  shows "fills Z readers es row (row_str n read dst) (dst (\<lambda>_. f (es ! row)))"
  unfolding fills_def
proof (intro allI impI)
  fix c d assume c: "row_ok Z readers es row c"
  then have "row < length es" by (simp add: row_ok_def)
  then show "\<exists>c'. row_str n read dst (c, d) = (c', dst (\<lambda>_. f (es ! row)) d) \<and> row_ok Z readers es row c'"
    using chunkValue_ok [OF c assms(1,2), of strings_of] string_column [OF assms(3,4), of es] by (auto simp: row_str_def)
qed

lemma fills_sparseInt:
  assumes "map_of Schema n = Some ColSparseInt64" "map_of optional_int64_fields n = Some f" "\<And>d. dst (\<lambda>x. x) d = d"
  shows "fills Z readers es row (row_sparseInt Z n dst) (dst (\<lambda>x. if 0 <s f (es ! row) then f (es ! row) else x))"
  unfolding fills_def
proof (intro allI impI)
  fix c d assume c: "row_ok Z readers es row c"
  then have row: "row < length es" by (simp add: row_ok_def)
  have "opt_int64s_of (column_values es (n, ColSparseInt64)) = map (\<lambda>e. if 0 <s f e then Some (f e) else None) es"
    using assms(2) by (simp add: column_values_def extractOptionalInt64_def)
  then show "\<exists>c'. row_sparseInt Z n dst (c, d) = (c', dst (\<lambda>x. if 0 <s f (es ! row) then f (es ! row) else x) d) \<and> row_ok Z readers es row c'"
    using chunkValue_ok [OF c assms(1) scan_methods(8), of opt_int64s_of] row assms(3) by (auto simp: row_sparseInt_def)
qed

lemma fills_sparseBool:
  "fills Z readers es row (row_sparseBool ''n_plus_one'') (NPlusOne_update (\<lambda>x. if NPlusOne (es ! row) = None then x else NPlusOne (es ! row)))"
  unfolding fills_def
proof (intro allI impI)
  fix c d assume c: "row_ok Z readers es row c"
  then have row: "row < length es" by (simp add: row_ok_def)
  have ty: "map_of Schema ''n_plus_one'' = Some ColSparseBool" by (simp add: Schema_def)
  have "opt_bools_of (column_values es (''n_plus_one'', ColSparseBool)) = map NPlusOne es"
    by (simp add: column_values_def extractOptionalBool_def)
  then show "\<exists>c'. row_sparseBool ''n_plus_one'' (c, d)
      = (c', NPlusOne_update (\<lambda>x. if NPlusOne (es ! row) = None then x else NPlusOne (es ! row)) d) \<and> row_ok Z readers es row c'"
    using chunkValue_ok [OF c ty scan_methods(9), of opt_bools_of] row
    by (cases "NPlusOne (es ! row)") (auto simp: row_sparseBool_def)
qed

lemma fills_body:
  "fills Z readers es row (row_sparseBytes Z ''body'') (Body_update (\<lambda>x. if Body (es ! row) = [] then x else Body (es ! row)))"
  unfolding fills_def
proof (intro allI impI)
  fix c d assume c: "row_ok Z readers es row c"
  then have row: "row < length es" by (simp add: row_ok_def)
  have ty: "map_of Schema ''body'' = Some ColSparseBytes" by (simp add: Schema_def)
  have "opt_bytes_of (column_values es (''body'', ColSparseBytes)) = extractBody es" by (simp add: column_values_def)
  then show "\<exists>c'. row_sparseBytes Z ''body'' (c, d)
      = (c', Body_update (\<lambda>x. if Body (es ! row) = [] then x else Body (es ! row)) d) \<and> row_ok Z readers es row c'"
    using chunkValue_ok [OF c ty scan_methods(10), of opt_bytes_of] row
    by (cases "Body (es ! row)") (auto simp: row_sparseBytes_def extractBody_def)
qed

lemma digit_value_char: "d < 10 \<Longrightarrow> digit_value (char_of (48 + d)) = Some d"
  by (simp add: digit_value_def)

lemma digits_value_snoc:
  "digits_value acc (s @ [ch]) = (case digits_value acc s of None \<Rightarrow> None | Some a \<Rightarrow> map_option (\<lambda>d. 10 * a + d) (digit_value ch))"
  by (induction s arbitrary: acc) (auto split: option.split)

lemma digits_value_show_nat: "digits_value 0 (show_nat n) = Some n"
proof (induction n rule: show_nat.induct)
  case (1 n)
  show ?case
  proof (cases "n < 10")
    case True
    then show ?thesis by (subst show_nat.simps) (simp add: digit_value_char)
  next
    case False
    then have "show_nat n = show_nat (n div 10) @ [char_of (48 + n mod 10)]" by (subst show_nat.simps) simp
    then show ?thesis using 1 False by (simp add: digits_value_snoc digit_value_char)
  qed
qed

lemma show_nat_head: "\<exists>ch t. show_nat n = ch # t \<and> ch \<noteq> CHR ''-'' \<and> ch \<noteq> CHR ''+''"
proof (cases "show_nat n")
  case Nil
  then show ?thesis by (subst (asm) show_nat.simps) (simp split: if_splits)
next
  case (Cons ch t)
  then have "digit_value ch \<noteq> None" using digits_value_show_nat [of n] by (auto split: option.splits)
  then show ?thesis using Cons by (auto simp: digit_value_def)
qed

lemma Atoi_show_nat: "n < 2 ^ 63 \<Longrightarrow> Atoi (show_nat n) = Some (int n)"
  using show_nat_head [of n] digits_value_show_nat [of n] by (auto simp: Atoi_def)

lemma positive_unat: "0 <s (w :: int64) \<Longrightarrow> unat w < 2 ^ 63"
proof -
  assume "0 <s w"
  then have "\<not> w <s 0" by (simp add: word_sless_alt)
  then have "\<not> bit (unat w) 63" by (simp add: sless_zero_iff_bit bit_unsigned_iff)
  then have "\<not> odd (unat w div 2 ^ 63)" by (simp add: bit_iff_odd)
  moreover have "unat w div 2 ^ 63 < 2" using unat_less_pow [of w] by (simp add: div_less_iff_less_mult)
  ultimately have "unat w div 2 ^ 63 = 0" by (cases "unat w div 2 ^ 63 = 1") auto
  then show ?thesis by (simp add: div_eq_0_iff)
qed

lemma fills_status:
  "fills Z readers es row (row_status Z) (Status_update (\<lambda>x. if 0 <s Status (es ! row) then Status (es ! row) else x))"
  unfolding fills_def
proof (intro allI impI)
  fix c d assume c: "row_ok Z readers es row c"
  let ?st = "Status (es ! row)"
  have row: "row < length es" using c by (simp add: row_ok_def)
  have ty: "map_of Schema ''status'' = Some ColSparseDictZstd" by (simp add: Schema_def)
  have col: "strings_of (column_values es (''status'', ColSparseDictZstd)) = map status_string es"
    by (rule string_column) (simp_all add: string_type_def string_fields_def)
  have atoi: "Atoi (show_nat (unat ?st)) = Some (int (unat ?st))" if "0 <s ?st"
  proof (rule Atoi_show_nat)
    show "unat ?st < 2 ^ 63" using that by (rule positive_unat)
  qed
  show "\<exists>c'. row_status Z (c, d) = (c', Status_update (\<lambda>x. if 0 <s ?st then ?st else x) d) \<and> row_ok Z readers es row c'"
    using chunkValue_ok [OF c ty scan_methods(7), of strings_of] col row atoi show_nat_head [of "unat ?st"]
    by (auto simp: row_status_def status_string_def)
qed

text \<open>The effects of the steps on the entry that is filled.\<close>

definition head_effects :: "Entry \<Rightarrow> (Entry \<Rightarrow> Entry) list" where
  "head_effects e =
     [ID_update (\<lambda>_. ID e), Ts_update (\<lambda>_. Ts e), ReceivedAt_update (\<lambda>_. ReceivedAt e), Level_update (\<lambda>_. Level e),
      Service_update (\<lambda>_. Service e), Env_update (\<lambda>_. Env e), Message_update (\<lambda>_. Message e), Kind_update (\<lambda>_. Kind e)]"

definition string_effects :: "Entry \<Rightarrow> (Entry \<Rightarrow> Entry) list" where
  "string_effects e = map (\<lambda>(col, get). get (\<lambda>_. the (map_of string_fields col) e)) entrySparseStrings"

definition int_effects :: "Entry \<Rightarrow> (Entry \<Rightarrow> Entry) list" where
  "int_effects e = map (\<lambda>(col, get). get (\<lambda>x. if 0 <s the (map_of optional_int64_fields col) e
     then the (map_of optional_int64_fields col) e else x)) entrySparseInts"

definition fill_effects :: "bool \<Rightarrow> Entry \<Rightarrow> (Entry \<Rightarrow> Entry) list" where
  "fill_effects includeBody e =
     head_effects e @ string_effects e @ [Status_update (\<lambda>x. if 0 <s Status e then Status e else x)] @ int_effects e @
     [NPlusOne_update (\<lambda>x. if NPlusOne e = None then x else NPlusOne e)] @
     (if includeBody then [Body_update (\<lambda>x. if Body e = [] then x else Body e)] else [])"

lemma head_fills:
  "list_all2 (fills Z readers es row)
     [row_i64 ''id'' (deltaInt64 Z) ID_update, row_i64 ''ts'' (zstdInt64 Z) Ts_update,
      row_i64 ''received_at'' (deltaInt64 Z) ReceivedAt_update, row_str ''level'' dictBitpack Level_update,
      row_str ''service'' (dictZstd Z) Service_update, row_str ''env'' (dictZstd Z) Env_update,
      row_str ''message'' (zstdBlockStrings Z) Message_update, row_str ''kind'' (dictZstd Z) Kind_update]
     (head_effects (es ! row))"
proof -
  note cols = Schema_def int64_fields_def string_fields_def string_type_def
  have "fills Z readers es row (row_i64 ''id'' (deltaInt64 Z) ID_update) (ID_update (\<lambda>_. ID (es ! row)))"
    by (rule fills_i64 [OF _ scan_methods(1)]) (simp_all add: cols)
  moreover have "fills Z readers es row (row_i64 ''ts'' (zstdInt64 Z) Ts_update) (Ts_update (\<lambda>_. Ts (es ! row)))"
    by (rule fills_i64 [OF _ scan_methods(2)]) (simp_all add: cols)
  moreover have "fills Z readers es row (row_i64 ''received_at'' (deltaInt64 Z) ReceivedAt_update) (ReceivedAt_update (\<lambda>_. ReceivedAt (es ! row)))"
    by (rule fills_i64 [OF _ scan_methods(1)]) (simp_all add: cols)
  moreover have "fills Z readers es row (row_str ''level'' dictBitpack Level_update) (Level_update (\<lambda>_. Level (es ! row)))"
    by (rule fills_str [OF _ scan_methods(3)]) (simp_all add: cols)
  moreover have "fills Z readers es row (row_str ''service'' (dictZstd Z) Service_update) (Service_update (\<lambda>_. Service (es ! row)))"
    by (rule fills_str [OF _ scan_methods(4)]) (simp_all add: cols)
  moreover have "fills Z readers es row (row_str ''env'' (dictZstd Z) Env_update) (Env_update (\<lambda>_. Env (es ! row)))"
    by (rule fills_str [OF _ scan_methods(4)]) (simp_all add: cols)
  moreover have "fills Z readers es row (row_str ''message'' (zstdBlockStrings Z) Message_update) (Message_update (\<lambda>_. Message (es ! row)))"
    by (rule fills_str [OF _ scan_methods(5)]) (simp_all add: cols)
  moreover have "fills Z readers es row (row_str ''kind'' (dictZstd Z) Kind_update) (Kind_update (\<lambda>_. Kind (es ! row)))"
    by (rule fills_str [OF _ scan_methods(4)]) (simp_all add: cols)
  ultimately show ?thesis by (simp only: head_effects_def list_all2_Cons list_all2_Nil simp_thms)
qed

lemma sparse_string_names:
  "list_all (\<lambda>col. (map_of Schema col = Some ColSparseString \<or> map_of Schema col = Some ColSparseDictZstd) \<and>
     col \<in> set (map fst string_fields)) (map fst entrySparseStrings)"
proof -
  have "map fst entrySparseStrings = [''version'', ''host'', ''event_type'', ''trace_id'', ''span_id'', ''parent_span_id'', ''request_id'', ''user_id'', ''tenant_id'', ''session_id'', ''method'', ''path'', ''route'', ''handler'', ''error_class'', ''error_message'', ''source_file'', ''error_fingerprint'', ''job_class'', ''job_queue'', ''job_id'']"
    by (simp add: entrySparseStrings_def)
  moreover have "map fst string_fields = [''level'', ''service'', ''env'', ''version'', ''message'', ''event_type'', ''trace_id'', ''span_id'',
      ''parent_span_id'', ''request_id'', ''user_id'', ''tenant_id'', ''session_id'', ''method'', ''path'', ''status'', ''host'', ''kind'',
      ''route'', ''handler'', ''error_class'', ''error_message'', ''source_file'', ''error_fingerprint'', ''job_class'', ''job_queue'', ''job_id'']"
    by (simp add: string_fields_def)
  ultimately show ?thesis by (simp only:) code_simp
qed

lemma string_fills:
  "list_all2 (fills Z readers es row) (map (\<lambda>(col, get). row_str col (sparseStrings Z) get) entrySparseStrings) (string_effects (es ! row))"
proof -
  have "fills Z readers es row (row_str col (sparseStrings Z) get) (get (\<lambda>_. the (map_of string_fields col) (es ! row)))"
    if col: "map_of Schema col = Some ColSparseString \<or> map_of Schema col = Some ColSparseDictZstd" "map_of string_fields col \<noteq> None"
    for col get
  proof -
    have "string_type ColSparseString" "string_type ColSparseDictZstd" by (simp_all add: string_type_def)
    moreover obtain f where "map_of string_fields col = Some f" using col(2) by blast
    ultimately show ?thesis using col(1) fills_str [OF _ scan_methods(6)] fills_str [OF _ scan_methods(7)] by auto
  qed
  then have "fills Z readers es row (row_str (fst p) (sparseStrings Z) (snd p)) (snd p (\<lambda>_. the (map_of string_fields (fst p)) (es ! row)))"
    if "p \<in> set entrySparseStrings" for p
    using that sparse_string_names by (auto simp: list_all_iff map_of_eq_None_iff)
  then show ?thesis unfolding string_effects_def list_all2_map1 list_all2_map2
    by (intro list_all2_all_nthI) (auto simp: case_prod_beta)
qed

lemma sparse_int_names:
  "list_all (\<lambda>col. map_of Schema col = Some ColSparseInt64 \<and> col \<in> set (map fst optional_int64_fields)) (map fst entrySparseInts)"
proof -
  have "map fst entrySparseInts = [''duration_ms'', ''db_ms'', ''db_count'', ''cache_ms'', ''cache_hits'', ''cache_misses'', ''ext_ms'', ''ext_count'', ''render_ms'', ''alloc_count'', ''mem_delta_mb'', ''slow_queries'', ''dup_queries'', ''source_line'', ''queue_ms'']"
    by (simp add: entrySparseInts_def)
  moreover have "map fst optional_int64_fields = [''duration_ms'', ''db_ms'', ''db_count'', ''slow_queries'', ''dup_queries'', ''source_line'',
      ''cache_ms'', ''cache_hits'', ''cache_misses'', ''ext_ms'', ''ext_count'', ''render_ms'', ''alloc_count'', ''mem_delta_mb'', ''queue_ms'']"
    by (simp add: optional_int64_fields_def)
  ultimately show ?thesis by (simp only:) code_simp
qed

lemma int_updates: "list_all (\<lambda>(col, get). \<forall>d. get (\<lambda>x. x) d = d) entrySparseInts"
  by (simp add: entrySparseInts_def)

lemma int_fills:
  "list_all2 (fills Z readers es row) (map (\<lambda>(col, get). row_sparseInt Z col get) entrySparseInts) (int_effects (es ! row))"
proof -
  have "fills Z readers es row (row_sparseInt Z (fst p) (snd p))
      (snd p (\<lambda>x. if 0 <s the (map_of optional_int64_fields (fst p)) (es ! row) then the (map_of optional_int64_fields (fst p)) (es ! row) else x))"
    if "p \<in> set entrySparseInts" for p
  proof -
    have "map_of Schema (fst p) = Some ColSparseInt64" "map_of optional_int64_fields (fst p) \<noteq> None"
      using that sparse_int_names by (auto simp: list_all_iff map_of_eq_None_iff)
    moreover have "snd p (\<lambda>x. x) d = d" for d using that int_updates by (auto simp: list_all_iff)
    ultimately show ?thesis using fills_sparseInt [of "fst p"] by auto
  qed
  then show ?thesis unfolding int_effects_def list_all2_map1 list_all2_map2
    by (intro list_all2_all_nthI) (auto simp: case_prod_beta)
qed

lemma fill_steps_effects: "list_all2 (fills Z readers es row) (fill_steps Z b) (fill_effects b (es ! row))"
  unfolding fill_steps_def fill_effects_def
  by (intro list_all2_appendI head_fills string_fills int_fills)
    (simp_all add: fills_status fills_sparseBool fills_body)

lemma string_effects_eq:
  "string_effects e = [Version_update (\<lambda>_. Version e), Host_update (\<lambda>_. Host e), EventType_update (\<lambda>_. EventType e), TraceID_update (\<lambda>_. TraceID e), SpanID_update (\<lambda>_. SpanID e), ParentSpanID_update (\<lambda>_. ParentSpanID e), RequestID_update (\<lambda>_. RequestID e), UserID_update (\<lambda>_. UserID e), TenantID_update (\<lambda>_. TenantID e), SessionID_update (\<lambda>_. SessionID e), Method_update (\<lambda>_. Method e), Path_update (\<lambda>_. Path e), Route_update (\<lambda>_. Route e), Handler_update (\<lambda>_. Handler e), ErrorClass_update (\<lambda>_. ErrorClass e), ErrorMessage_update (\<lambda>_. ErrorMessage e), SourceFile_update (\<lambda>_. SourceFile e), ErrorFingerprint_update (\<lambda>_. ErrorFingerprint e), JobClass_update (\<lambda>_. JobClass e), JobQueue_update (\<lambda>_. JobQueue e), JobID_update (\<lambda>_. JobID e)]"
  by (simp add: string_effects_def entrySparseStrings_def string_fields_def)

lemma int_effects_eq:
  "int_effects e = [DurationMs_update (\<lambda>x. if 0 <s DurationMs e then DurationMs e else x), DbMs_update (\<lambda>x. if 0 <s DbMs e then DbMs e else x), DbCount_update (\<lambda>x. if 0 <s DbCount e then DbCount e else x), CacheMs_update (\<lambda>x. if 0 <s CacheMs e then CacheMs e else x), CacheHits_update (\<lambda>x. if 0 <s CacheHits e then CacheHits e else x), CacheMisses_update (\<lambda>x. if 0 <s CacheMisses e then CacheMisses e else x), ExtMs_update (\<lambda>x. if 0 <s ExtMs e then ExtMs e else x), ExtCount_update (\<lambda>x. if 0 <s ExtCount e then ExtCount e else x), RenderMs_update (\<lambda>x. if 0 <s RenderMs e then RenderMs e else x), AllocCount_update (\<lambda>x. if 0 <s AllocCount e then AllocCount e else x), MemDeltaMb_update (\<lambda>x. if 0 <s MemDeltaMb e then MemDeltaMb e else x), SlowQueries_update (\<lambda>x. if 0 <s SlowQueries e then SlowQueries e else x), DupQueries_update (\<lambda>x. if 0 <s DupQueries e then DupQueries e else x), SourceLine_update (\<lambda>x. if 0 <s SourceLine e then SourceLine e else x), QueueMs_update (\<lambda>x. if 0 <s QueueMs e then QueueMs e else x)]"
  by (simp add: int_effects_def entrySparseInts_def optional_int64_fields_def)

lemma fold_fill_effects:
  "fold (\<lambda>g. g) (fill_effects b e) zero_entry = (if b then chunk_normal e else (chunk_normal e)\<lparr>Body := []\<rparr>)"
proof -
  have n: "(if NPlusOne e = None then None else NPlusOne e) = NPlusOne e" "(if Body e = [] then [] else Body e) = Body e" by auto
  have "fold (\<lambda>g. g) (fill_effects False e) zero_entry = (chunk_normal e)\<lparr>Body := []\<rparr>"
    by (simp add: fill_effects_def head_effects_def string_effects_eq int_effects_eq zero_entry_def chunk_normal_def normal_int_def n
        split del: if_split cong: if_cong)
  moreover have "fold (\<lambda>g. g) (fill_effects True e) zero_entry
      = Body_update (\<lambda>x. if Body e = [] then x else Body e) (fold (\<lambda>g. g) (fill_effects False e) zero_entry)"
    by (simp add: fill_effects_def)
  ultimately show ?thesis using n by (simp add: chunk_normal_def)
qed

lemma fill_holds:
  assumes "holds Z readers es c" "row < length es"
  shows "\<exists>c'. fillEntryFromChunkProjected Z c row b
      = (None, if b then chunk_normal (es ! row) else (chunk_normal (es ! row))\<lparr>Body := []\<rparr>, c') \<and> holds Z readers es c'"
proof -
  let ?c = "\<lparr>rcols = c, rrow = row, rerr = None\<rparr>"
  have "row_ok Z readers es row ?c" using assms by (simp add: row_ok_def)
  from fold_fills [OF fill_steps_effects [of Z readers es row b] this, of zero_entry] obtain c' where
    "fold (\<lambda>f. f) (fill_steps Z b) (?c, zero_entry) = (c', fold (\<lambda>g. g) (fill_effects b (es ! row)) zero_entry)"
    and "row_ok Z readers es row c'" by blast
  then show ?thesis
    by (intro exI [of _ "rcols c'"]) (simp add: fillEntryFromChunkProjected_def fold_fill_effects row_ok_def)
qed

lemma ReadColumn_direct:
  "directory r n = Some e \<Longrightarrow> Type e = column_type_code ty \<Longrightarrow> ReadColumn Z r n = direct_read Z r ty n"
  by (cases ty) (simp_all add: ReadColumn_def direct_read_def column_type_code_inj)

lemma written_holds:
  assumes "zstd_lib Z" "chunk_fits Z es" "chunk_file Z es = Inr f"
    and "column_cache.coherent (schema_load Z (\<lambda>_. written_reader Z es f)) sh"
  shows "holds Z (\<lambda>_. written_reader Z es f) es (newCachedChunkColumns (written_reader Z es f) sh path)"
proof -
  have "direct_read Z (written_reader Z es f) ty n = Inr (column_values es (n, ty))" if "map_of Schema n = Some ty" for n ty
  proof -
    have col: "(n, ty) \<in> set Schema" using that by (rule map_of_SomeD)
    from raw_written [OF assms(2,3) col] obtain e where
      "directory (written_reader Z es f) n = Some e" "Type e = column_type_code ty" by auto
    from ReadColumn_direct [OF this, of Z] show ?thesis using ReadColumn_written [OF assms(1-3) col] by simp
  qed
  then show ?thesis using new_cols_ok [OF assms(4), of path] by (simp add: holds_def newCachedChunkColumns_def)
qed

section \<open>The normal forms agree\<close>

lemma normal_int_idem: "normal_int (normal_int v) = normal_int v"
  by (simp add: normal_int_def)

lemma normal_int_nonneg: "\<not> v <s 0 \<Longrightarrow> normal_int v = v"
proof -
  assume "\<not> v <s 0"
  then have "0 <s v \<or> sint v = 0" by (auto simp: word_sless_alt)
  moreover have "sint v = 0 \<Longrightarrow> v = 0" by (metis signed_0 signed_word_eqI)
  ultimately show ?thesis by (auto simp: normal_int_def)
qed

lemma normal_int_status: "normal_int (normal_status v) = normal_status v"
  by (rule normal_int_nonneg) (simp add: normal_status_def sless_zero_iff_bit bit_ucast_iff)

lemma chunk_normal_wal: "chunk_normal (wal_normal Z cb e) = wal_normal Z cb e"
  by (simp add: chunk_normal_def wal_normal_def normal_int_idem normal_int_status)

section \<open>Property\<close>

lemma read_written:
  assumes "zstd_lib Z" "chunk_fits Z es" "chunk_file Z es = Inr f" "row < length es"
  shows "fst (readEntryFromChunk Z (newCachedChunkColumns (written_reader Z es f) (newColumnCache b) path) row) = Inr (chunk_normal (es ! row))"
proof -
  have "column_cache.coherent (schema_load Z (\<lambda>_. written_reader Z es f)) (newColumnCache b)"
    by (simp add: column_cache.coherent_def newColumnCache_inv)
  from fill_holds [OF written_holds [OF assms(1-3) this] assms(4), of path True] show ?thesis
    by (auto simp: readEntryFromChunk_def fillEntryFromChunk_def)
qed

text \<open>C19: Sealing loses nothing: entries as the write-ahead log stores them, written to a chunk file, read
  back row by row through the row reader (any column cache, any path) equal in all 47 fields, bodies
  included.\<close>

theorem sealed_entry_roundtrip:
  assumes "zstd_lib Z" and "es = map (wal_normal Z compressed) src" and "chunk_fits Z es" and "row < length es"
  shows "\<exists>f r. chunk_file Z es = Inr f \<and> OpenReader f = Inr r \<and>
    fst (readEntryFromChunk Z (newCachedChunkColumns r (newColumnCache b) path) row) = Inr (es ! row)"
proof -
  obtain f where f: "chunk_file Z es = Inr f" using chunk_file_eq [of Z es] by blast
  have "chunk_normal (es ! row) = es ! row" using assms(2,4) by (simp add: chunk_normal_wal)
  then show ?thesis
    using f open_written [OF assms(3) f] read_written [OF assms(1,3) f assms(4)] by auto
qed

theorem sealed_entry_roundtrip_witness:
  "\<exists>f r. chunk_file stored_zstd [zero_entry\<lparr>Level := ''info''\<rparr>] = Inr f \<and> OpenReader f = Inr r \<and>
    fst (readEntryFromChunk stored_zstd (newCachedChunkColumns r (newColumnCache 100) ''c'') 0) = Inr (zero_entry\<lparr>Level := ''info''\<rparr>)"
proof -
  have "wal_normal stored_zstd False (zero_entry\<lparr>Level := ''info''\<rparr>) = zero_entry\<lparr>Level := ''info''\<rparr>"
    by (simp add: wal_normal_def zero_entry_def normal_level_def levelToEnum_def enumToLevel_def normal_int_def normal_status_def
        normal_body_def truncateField_def)
  then show ?thesis
    using sealed_entry_roundtrip [OF stored_zstd_lib _ one_row_fits, of False "[zero_entry\<lparr>Level := ''info''\<rparr>]" 0 100 "''c''"] by simp
qed

end
