(* ===== verification/Ids.thy ===== *)
theory Ids
  imports Prelude "HOL-Library.Signed_Division"
begin

text \<open>
  Composite entry ids, \<open>internal/logstore/engine/id.go\<close>: segment hour, chunk number and row packed into
  one \<open>int64\<close>. A time is its number of nanoseconds since the Unix epoch; Go's integer division
  truncates.
\<close>

section \<open>Layout\<close>

definition rowBits :: nat where "rowBits = 23"
definition chunkBits :: nat where "chunkBits = 8"
definition rowMask :: int64 where "rowMask = 2 ^ 23 - 1"
definition chunkMask :: int64 where "chunkMask = 2 ^ 8 - 1"
definition chunkSize :: nat where "chunkSize = 50000"
definition maxChunksPerSegment :: nat where "maxChunksPerSegment = 256"
definition MaxEntriesPerSegment :: nat where "MaxEntriesPerSegment = chunkSize * maxChunksPerSegment"

lemmas id_consts = rowBits_def chunkBits_def chunkSize_def maxChunksPerSegment_def MaxEntriesPerSegment_def

definition EncodeID :: "int64 \<Rightarrow> int64 \<Rightarrow> int64 \<Rightarrow> int64" where
  "EncodeID segmentHour chunkNum row =
     push_bit (rowBits + chunkBits) segmentHour OR push_bit rowBits (chunkNum AND chunkMask) OR (row AND rowMask)"

definition DecodeID :: "int64 \<Rightarrow> int64 \<times> int64 \<times> int64" where
  "DecodeID i = (signed_drop_bit (rowBits + chunkBits) i, signed_drop_bit rowBits i AND chunkMask, i AND rowMask)"

type_synonym go_time = int

definition Unix :: "go_time \<Rightarrow> int" where "Unix t = t div 10 ^ 9"
definition UnixMilli :: "go_time \<Rightarrow> int" where "UnixMilli t = t div 10 ^ 6"

definition SegmentHourFromTime :: "go_time \<Rightarrow> int" where
  "SegmentHourFromTime t = Unix t sdiv 3600"

definition TimeFromSegmentHour :: "int \<Rightarrow> go_time" where
  "TimeFromSegmentHour h = h * 3600 * 10 ^ 9"

definition IDForPosition :: "int64 \<Rightarrow> nat \<Rightarrow> int64" where
  "IDForPosition segmentHour entryIndex =
     EncodeID segmentHour (of_nat (entryIndex div chunkSize)) (of_nat (entryIndex mod chunkSize))"

definition SegmentHasRoom :: "int \<Rightarrow> int \<Rightarrow> bool" where
  "SegmentHasRoom have n \<longleftrightarrow> have \<ge> 0 \<and> n \<ge> 0 \<and> have + n \<le> int MaxEntriesPerSegment"

section \<open>Arithmetic of the packed word\<close>

lemma masks: "x AND rowMask = take_bit 23 x" "x AND chunkMask = take_bit 8 (x :: int64)"
  by (simp_all add: rowMask_def chunkMask_def take_bit_eq_mask mask_eq_exp_minus_1)

lemma encode_fields:
  "EncodeID h c r = push_bit 31 h OR push_bit 23 (take_bit 8 c) OR take_bit 23 r"
  by (simp add: EncodeID_def masks id_consts)

lemma decode_encode_word:
  "DecodeID (EncodeID h c r) = (signed_drop_bit 31 (push_bit 31 h), take_bit 8 c, take_bit 23 r)"
proof -
  have 1: "signed_drop_bit 31 (EncodeID h c r) = signed_drop_bit 31 (push_bit 31 h)"
    by (rule bit_word_eqI) (auto simp: encode_fields bit_simps)
  have 2: "signed_drop_bit 23 (EncodeID h c r) AND chunkMask = take_bit 8 c"
    by (rule bit_word_eqI) (auto simp: masks encode_fields bit_simps)
  have 3: "EncodeID h c r AND rowMask = take_bit 23 r"
    by (rule bit_word_eqI) (auto simp: masks encode_fields bit_simps)
  show ?thesis using 1 2 3 by (simp add: DecodeID_def id_consts)
qed

definition id_nat :: "nat \<Rightarrow> nat \<Rightarrow> nat \<Rightarrow> nat" where
  "id_nat hour c r = hour * 2 ^ 31 + c * 2 ^ 23 + r"

lemma encode_sum: "EncodeID h c r = push_bit 31 h + (push_bit 23 (take_bit 8 c) + take_bit 23 r)"
proof -
  have "push_bit 23 (take_bit 8 c) + take_bit 23 r = push_bit 23 (take_bit 8 c) OR take_bit 23 r"
    by (rule disjunctive_add) (auto simp: bit_simps)
  moreover have "push_bit 31 h + (push_bit 23 (take_bit 8 c) OR take_bit 23 r) = push_bit 31 h OR (push_bit 23 (take_bit 8 c) OR take_bit 23 r)"
    by (rule disjunctive_add) (auto simp: bit_simps)
  ultimately show ?thesis by (simp add: encode_fields)
qed

lemma encode_of_nat:
  assumes "c < 2 ^ 8" "r < 2 ^ 23"
  shows "EncodeID (of_nat hour) (of_nat c) (of_nat r) = of_nat (id_nat hour c r)"
proof -
  have "take_bit 8 c = c" "take_bit 23 r = r" using assms by (simp_all add: take_bit_nat_eq_self)
  then show ?thesis by (simp add: encode_sum take_bit_of_nat push_bit_of_nat id_nat_def push_bit_eq_mult)
qed

lemma id_nat_bound:
  assumes "hour < 2 ^ 32" "c < 2 ^ 8" "r < 2 ^ 23"
  shows "id_nat hour c r < 2 ^ 63"
proof -
  have "hour * 2 ^ 31 \<le> (2 ^ 32 - 1) * 2 ^ 31" "c * 2 ^ 23 \<le> (2 ^ 8 - 1) * 2 ^ 23" using assms by simp_all
  then show ?thesis using assms(3) unfolding id_nat_def by simp
qed

lemma id_nat_fields:
  assumes "c < 2 ^ 8" "r < 2 ^ 23"
  shows "id_nat hour c r div 2 ^ 31 = hour" "id_nat hour c r div 2 ^ 23 mod 2 ^ 8 = c" "id_nat hour c r mod 2 ^ 23 = r"
proof -
  have low: "c * 2 ^ 23 + r < 2 ^ 31" using assms by simp
  show "id_nat hour c r div 2 ^ 31 = hour" using low by (simp add: id_nat_def add.assoc)
  have "id_nat hour c r = (hour * 2 ^ 8 + c) * 2 ^ 23 + r" by (simp add: id_nat_def algebra_simps)
  moreover have split: "(x * k + y) div k = x" "(x * k + y) mod k = y" if "y < k" for x y k :: nat using that by simp_all
  ultimately show "id_nat hour c r div 2 ^ 23 mod 2 ^ 8 = c" "id_nat hour c r mod 2 ^ 23 = r"
    using split [OF assms(2), of "hour * 2 ^ 8 + c"] split(2) [OF assms(1), of hour] by metis+
qed

text \<open>Positions in a segment: the number an id encodes grows by one inside a chunk and jumps between chunks.\<close>

definition pos_nat :: "nat \<Rightarrow> nat \<Rightarrow> nat" where
  "pos_nat hour i = id_nat hour (i div chunkSize) (i mod chunkSize)"

lemma pos_fields: "i < MaxEntriesPerSegment \<Longrightarrow> i div chunkSize < 2 ^ 8 \<and> i mod chunkSize < 2 ^ 23"
proof -
  assume "i < MaxEntriesPerSegment"
  then have "i div chunkSize < 256" by (simp add: id_consts div_less_iff_less_mult)
  moreover have "i mod chunkSize < 50000" by (simp add: id_consts)
  ultimately show ?thesis by simp
qed

lemma IDForPosition_of_nat: "i < MaxEntriesPerSegment \<Longrightarrow> IDForPosition (of_nat hour) i = of_nat (pos_nat hour i)"
  using pos_fields [of i] by (simp add: IDForPosition_def pos_nat_def encode_of_nat)

lemma pos_nat_bound: "hour < 2 ^ 32 \<Longrightarrow> i < MaxEntriesPerSegment \<Longrightarrow> pos_nat hour i < 2 ^ 63"
  unfolding pos_nat_def using pos_fields [of i] by (intro id_nat_bound) blast+

lemma pos_nat_mono:
  assumes "i < j" "j < MaxEntriesPerSegment"
  shows "pos_nat hour i < pos_nat hour j"
proof (cases "i div chunkSize = j div chunkSize")
  case True
  then have "i mod chunkSize < j mod chunkSize" using assms(1) by (metis div_mult_mod_eq nat_add_left_cancel_less)
  then show ?thesis using True by (simp add: pos_nat_def id_nat_def)
next
  case False
  then have "i div chunkSize < j div chunkSize" using assms(1) by (simp add: div_le_mono le_neq_implies_less)
  then have "i div chunkSize * 2 ^ 23 + 2 ^ 23 \<le> j div chunkSize * 2 ^ 23" by simp
  moreover have "i mod chunkSize < 2 ^ 23" using pos_fields [of i] assms by simp
  ultimately show ?thesis by (simp add: pos_nat_def id_nat_def)
qed

lemma pos_nat_hours:
  assumes "h < h'" "i < MaxEntriesPerSegment"
  shows "pos_nat h i < pos_nat h' j"
proof -
  have "(h + 1) * 2 ^ 31 \<le> h' * 2 ^ 31" using assms(1) by simp
  moreover have "i div chunkSize * 2 ^ 23 + i mod chunkSize < 2 ^ 31" using pos_fields [OF assms(2)] by simp
  ultimately show ?thesis by (simp add: pos_nat_def id_nat_def)
qed

section \<open>Properties\<close>

lemma int64_less: "a < 2 ^ 63 \<Longrightarrow> b < 2 ^ 63 \<Longrightarrow> (of_nat a :: int64) <s of_nat b \<longleftrightarrow> a < b"
  by (simp add: word_sless_alt signed_of_nat signed_take_bit_int_eq_self)

lemma signed_drop_small: "n < 2 ^ 63 \<Longrightarrow> signed_drop_bit k (of_nat n :: int64) = of_nat (n div 2 ^ k)"
proof -
  assume n: "n < 2 ^ 63"
  then have b: "\<not> bit n m" if "63 \<le> m" for m
    using that by (metis bit_take_bit_iff not_less take_bit_nat_eq_self_iff)
  show ?thesis
    by (rule bit_word_eqI) (auto simp: bit_simps bit_signed_drop_bit_iff b min_def drop_bit_eq_div [symmetric])
qed

text \<open>C22: Ids are unambiguous: for hours below \<open>2^32\<close> and positions the segment can address, an id decodes
  to its hour, chunk and row, and ids compare as signed 64-bit integers in the order of hour, then position;
  so no two positions share an id and a later entry always has the greater id.\<close>

theorem id_layout:
  assumes "h < 2 ^ 32" and "h' < 2 ^ 32" and "i < MaxEntriesPerSegment" and "j < MaxEntriesPerSegment"
  shows "DecodeID (IDForPosition (of_nat h) i) = (of_nat h, of_nat (i div chunkSize), of_nat (i mod chunkSize)) \<and>
    (IDForPosition (of_nat h) i <s IDForPosition (of_nat h') j \<longleftrightarrow> h < h' \<or> (h = h' \<and> i < j))"
proof -
  have f: "i div chunkSize < 2 ^ 8" "i mod chunkSize < 2 ^ 23" using pos_fields [OF assms(3)] by simp_all
  have hour: "signed_drop_bit 31 (push_bit 31 (of_nat h :: int64)) = of_nat h"
  proof -
    have "h * 2 ^ 31 < 2 ^ 63" using assms(1) by simp
    then show ?thesis using signed_drop_small [of "h * 2 ^ 31" 31] by (simp add: push_bit_eq_mult)
  qed
  have "take_bit 8 (of_nat (i div chunkSize) :: int64) = of_nat (i div chunkSize)"
    "take_bit 23 (of_nat (i mod chunkSize) :: int64) = of_nat (i mod chunkSize)"
    using f by (simp_all add: take_bit_of_nat take_bit_nat_eq_self)
  then have "DecodeID (IDForPosition (of_nat h) i) = (of_nat h, of_nat (i div chunkSize), of_nat (i mod chunkSize))"
    using hour by (simp add: IDForPosition_def decode_encode_word)
  moreover have "pos_nat h i < pos_nat h' j \<longleftrightarrow> h < h' \<or> (h = h' \<and> i < j)"
    using pos_nat_mono [of i j h] pos_nat_mono [of j i h] pos_nat_hours [of h h' i j] pos_nat_hours [of h' h j i] assms(3,4)
    by (metis less_asym linorder_neqE_nat)
  ultimately show ?thesis
    using IDForPosition_of_nat [OF assms(3), of h] IDForPosition_of_nat [OF assms(4), of h']
      int64_less [OF pos_nat_bound [OF assms(1,3)] pos_nat_bound [OF assms(2,4)]] by simp
qed

theorem id_layout_witness:
  "DecodeID (IDForPosition (of_nat 489456) 123456) = (of_nat 489456, of_nat 2, of_nat 23456) \<and>
   IDForPosition (of_nat 489456) 123456 <s IDForPosition (of_nat 489456) 150000"
proof -
  have c: "(123456 :: nat) < MaxEntriesPerSegment" "(150000 :: nat) < MaxEntriesPerSegment" by (simp_all add: id_consts)
  have d: "123456 div chunkSize = 2" "123456 mod chunkSize = 23456" by (simp_all add: id_consts)
  have h: "(489456 :: nat) < 2 ^ 32" by simp
  show ?thesis using id_layout [OF h h c] unfolding d by simp
qed

end
