(* ===== verification/Ring.thy ===== *)
theory Ring
  imports Entry
begin

text \<open>
  The live-tail ring buffer, \<open>internal/logstore/engine/ring.go\<close>: the last 256 entries and the
  subscribers' channels. The array is a list of fixed length, a buffered channel is the list of the
  batches waiting in it. \<open>Push\<close> has two critical sections, the write under \<open>mu\<close> and the fan-out under
  \<open>subMu\<close>; the step relation at the end interleaves them with subscriptions.
\<close>

section \<open>The buffer\<close>

definition ringSize :: nat where "ringSize = 256"
definition subBuffer :: nat where "subBuffer = 16"

record RingBuffer =
  rentries :: "Entry list"
  head :: nat
  rcount :: nat
  subs :: "nat \<Rightarrow> Entry list list option"
  nextSub :: nat

definition NewRingBuffer :: RingBuffer where
  "NewRingBuffer = \<lparr>rentries = replicate ringSize zero_entry, head = 0, rcount = 0, subs = (\<lambda>_. None), nextSub = 0\<rparr>"

definition project :: "Entry list \<Rightarrow> Entry list" where
  "project entries =
     (let entries = (if length entries > ringSize then drop (length entries - ringSize) entries else entries)
      in map (\<lambda>e. e\<lparr>Body := []\<rparr>) entries)"

definition ring_write :: "Entry \<Rightarrow> RingBuffer \<Rightarrow> RingBuffer" where
  "ring_write e rb = rb\<lparr>rentries := (rentries rb)[head rb mod ringSize := e], head := head rb + 1, rcount := rcount rb + 1\<rparr>"

definition push_locked :: "Entry list \<Rightarrow> RingBuffer \<Rightarrow> RingBuffer" where
  "push_locked projected rb = fold ring_write projected rb"

definition offer :: "Entry list \<Rightarrow> Entry list list \<Rightarrow> Entry list list" where
  "offer batch ch = (if length ch < subBuffer then ch @ [batch] else ch)"

definition fan_out :: "Entry list \<Rightarrow> RingBuffer \<Rightarrow> RingBuffer" where
  "fan_out projected rb = rb\<lparr>subs := (\<lambda>i. map_option (offer projected) (subs rb i))\<rparr>"

definition Push :: "Entry list \<Rightarrow> RingBuffer \<Rightarrow> RingBuffer" where
  "Push entries rb = (let projected = project entries in fan_out projected (push_locked projected rb))"

definition snapshotLocked :: "RingBuffer \<Rightarrow> Entry list" where
  "snapshotLocked rb =
     (if rcount rb = 0 then []
      else let n = (if rcount rb > ringSize then ringSize else rcount rb); start = head rb - n
           in map (\<lambda>i. rentries rb ! ((start + i) mod ringSize)) [0..<n])"

definition Snapshot :: "RingBuffer \<Rightarrow> Entry list" where
  "Snapshot rb = snapshotLocked rb"

definition Subscribe :: "RingBuffer \<Rightarrow> nat \<times> RingBuffer" where
  "Subscribe rb = (nextSub rb, rb\<lparr>subs := (subs rb)(nextSub rb \<mapsto> []), nextSub := nextSub rb + 1\<rparr>)"

definition unsubscribe :: "nat \<Rightarrow> RingBuffer \<Rightarrow> RingBuffer" where
  "unsubscribe i rb = rb\<lparr>subs := (subs rb)(i := None)\<rparr>"

definition SnapshotAndSubscribe :: "RingBuffer \<Rightarrow> Entry list \<times> nat \<times> RingBuffer" where
  "SnapshotAndSubscribe rb = (snapshotLocked rb, Subscribe rb)"

section \<open>The buffer holds the last entries\<close>

definition lastn :: "nat \<Rightarrow> 'a list \<Rightarrow> 'a list" where
  "lastn n xs = drop (length xs - n) xs"

text \<open>\<open>rb\<close> represents the stream \<open>xs\<close> of all entries written so far.\<close>

definition represents :: "RingBuffer \<Rightarrow> Entry list \<Rightarrow> bool" where
  "represents rb xs \<longleftrightarrow> length (rentries rb) = ringSize \<and> head rb = length xs \<and> rcount rb = length xs \<and>
     (\<forall>i < length xs. length xs \<le> i + ringSize \<longrightarrow> rentries rb ! (i mod ringSize) = xs ! i)"

lemma represents_new: "represents NewRingBuffer []"
  by (simp add: represents_def NewRingBuffer_def)

lemma represents_write:
  assumes "represents rb xs"
  shows "represents (ring_write e rb) (xs @ [e])"
proof -
  have r: "0 < ringSize" by (simp add: ringSize_def)
  have "(rentries rb)[length xs mod ringSize := e] ! (i mod ringSize) = (xs @ [e]) ! i"
    if i: "i < Suc (length xs)" "Suc (length xs) \<le> i + ringSize" for i
  proof (cases "i = length xs")
    case True
    then show ?thesis using assms r by (simp add: represents_def nth_append)
  next
    case False
    then have "i mod ringSize \<noteq> length xs mod ringSize"
      using i r by (metis Suc_leI add_diff_inverse_nat less_SucE mod_eq_dvd_iff_nat nat_dvd_not_less
          less_imp_le_nat not_less zero_less_diff add_less_cancel_left less_le_trans lessI)
    then show ?thesis using assms i False by (auto simp: represents_def nth_append)
  qed
  then show ?thesis using assms by (simp add: represents_def ring_write_def)
qed

lemma represents_push: "represents rb xs \<Longrightarrow> represents (push_locked ys rb) (xs @ ys)"
proof (induction ys arbitrary: rb xs)
  case (Cons y ys)
  then show ?case using Cons.IH [OF represents_write [OF Cons.prems, of y]] by (simp add: push_locked_def)
qed (simp add: push_locked_def)

lemma snapshot_lastn:
  assumes "represents rb xs"
  shows "snapshotLocked rb = lastn ringSize xs"
proof (cases "xs = []")
  case True
  then show ?thesis using assms by (simp add: snapshotLocked_def represents_def lastn_def)
next
  case False
  let ?n = "min ringSize (length xs)"
  have c: "rcount rb = length xs" "head rb = length xs" using assms by (simp_all add: represents_def)
  have "snapshotLocked rb = map (\<lambda>i. rentries rb ! ((length xs - ?n + i) mod ringSize)) [0..<?n]"
    using False c by (simp add: snapshotLocked_def Let_def min_def)
  also have "\<dots> = map (\<lambda>i. xs ! (length xs - ?n + i)) [0..<?n]"
    using assms by (auto simp: represents_def)
  also have "\<dots> = lastn ringSize xs"
    by (rule nth_equalityI) (auto simp: lastn_def min_def)
  finally show ?thesis .
qed

lemma project_lastn: "project es = lastn ringSize (map (\<lambda>e. e\<lparr>Body := []\<rparr>) es)"
  by (simp add: project_def lastn_def Let_def drop_map)

lemma fan_out_represents: "represents (fan_out p rb) xs \<longleftrightarrow> represents rb xs"
  by (simp add: represents_def fan_out_def)

text \<open>The pushes of a run: the streams written and seen have the same last entries.\<close>

lemma pushes_represent:
  "represents rb xs \<Longrightarrow> \<exists>ys. represents (fold Push bs rb) ys \<and>
     lastn ringSize ys = lastn ringSize (xs @ map (\<lambda>e. e\<lparr>Body := []\<rparr>) (concat bs))"
proof (induction bs arbitrary: rb xs)
  case (Cons b bs)
  have "represents (Push b rb) (xs @ project b)"
    using represents_push [OF Cons.prems] by (simp add: Push_def Let_def fan_out_represents)
  from Cons.IH [OF this] obtain ys where ys: "represents (fold Push bs (Push b rb)) ys"
    "lastn ringSize ys = lastn ringSize ((xs @ project b) @ map (\<lambda>e. e\<lparr>Body := []\<rparr>) (concat bs))" by blast
  have "lastn n ((u @ lastn n v) @ w) = lastn n (u @ v @ w)" for n and u v w :: "Entry list"
    by (cases "length v \<le> n") (auto simp: lastn_def add.commute)
  then show ?case using ys by (auto simp: project_lastn)
qed (auto intro: exI)

section \<open>Tailing\<close>

text \<open>
  A run of the buffer with subscribers. \<open>hist\<close> is every projected batch written, \<open>pending\<close> the batch that
  has been written but not fanned out yet (pushes are serialised by the writer's lock, and the fan-out of
  a push follows its write). For a subscriber, \<open>base\<close> is how many batches had been written when it
  subscribed, \<open>snap\<close> the snapshot it got, \<open>got\<close> the batches it received, \<open>lost\<close> how many were dropped
  because its channel was full. \<open>SnapshotAndSubscribe\<close> holds the lock of the write section, so it is one
  step.
\<close>

record tail_sys =
  rb :: RingBuffer
  pending :: "Entry list option"
  hist :: "Entry list list"
  base :: "nat \<Rightarrow> nat"
  snap :: "nat \<Rightarrow> Entry list"
  got :: "nat \<Rightarrow> Entry list list"
  lost :: "nat \<Rightarrow> nat"

definition tail_init :: tail_sys where
  "tail_init = \<lparr>rb = NewRingBuffer, pending = None, hist = [], base = (\<lambda>_. 0), snap = (\<lambda>_. []), got = (\<lambda>_. []), lost = (\<lambda>_. 0)\<rparr>"

inductive tail_step :: "tail_sys \<Rightarrow> tail_sys \<Rightarrow> bool" where
  written: "pending s = None \<Longrightarrow> projected = project entries \<Longrightarrow>
    tail_step s (s\<lparr>rb := push_locked projected (rb s), pending := Some projected, hist := hist s @ [projected]\<rparr>)"
| fanned_out: "pending s = Some projected \<Longrightarrow>
    tail_step s (s\<lparr>rb := fan_out projected (rb s), pending := None,
      lost := (\<lambda>i. case subs (rb s) i of Some ch \<Rightarrow> if length ch < subBuffer then lost s i else lost s i + 1 | None \<Rightarrow> lost s i)\<rparr>)"
| subscribed: "SnapshotAndSubscribe (rb s) = (shot, i, rb') \<Longrightarrow>
    tail_step s (s\<lparr>rb := rb', base := (base s)(i := length (hist s)), snap := (snap s)(i := shot),
      got := (got s)(i := []), lost := (lost s)(i := 0)\<rparr>)"
| received: "subs (rb s) i = Some (b # ch) \<Longrightarrow>
    tail_step s (s\<lparr>rb := (rb s)\<lparr>subs := (subs (rb s))(i \<mapsto> ch)\<rparr>, got := (got s)(i := got s i @ [b])\<rparr>)"
| left: "tail_step s (s\<lparr>rb := unsubscribe i (rb s)\<rparr>)"

inductive tail_reachable :: "tail_sys \<Rightarrow> bool" where
  start: "tail_reachable tail_init"
| step: "tail_reachable s \<Longrightarrow> tail_step s t \<Longrightarrow> tail_reachable t"

definition fanned :: "tail_sys \<Rightarrow> Entry list list" where
  "fanned s = (case pending s of None \<Rightarrow> hist s | Some _ \<Rightarrow> butlast (hist s))"

text \<open>
  The batches a subscriber has received or will find in its channel are all batches fanned out since batch
  \<open>k\<close>, where \<open>k\<close> is its \<open>base\<close>, or one less when a batch was pending at its subscription.
\<close>

definition sub_ok :: "tail_sys \<Rightarrow> nat \<Rightarrow> bool" where
  "sub_ok s i \<longleftrightarrow> base s i \<le> length (hist s) \<and> snap s i = lastn ringSize (concat (take (base s i) (hist s))) \<and>
     (lost s i = 0 \<longrightarrow> (\<exists>k. (k = base s i \<or> Suc k = base s i) \<and> k \<le> length (fanned s) \<and>
        got s i @ the (subs (rb s) i) = drop k (fanned s)))"

definition tail_inv :: "tail_sys \<Rightarrow> bool" where
  "tail_inv s \<longleftrightarrow> represents (rb s) (concat (hist s)) \<and>
     (\<forall>p. pending s = Some p \<longrightarrow> hist s \<noteq> [] \<and> last (hist s) = p) \<and>
     (\<forall>i. subs (rb s) i \<noteq> None \<longrightarrow> i < nextSub (rb s) \<and> sub_ok s i)"

lemma push_locked_frame [simp]: "subs (push_locked p r) = subs r" "nextSub (push_locked p r) = nextSub r"
  by (induction p arbitrary: r) (simp_all add: push_locked_def ring_write_def)

lemma fanned_cong: "pending t = pending s \<Longrightarrow> hist t = hist s \<Longrightarrow> fanned t = fanned s"
  by (simp add: fanned_def split: option.split)

lemma sub_ok_written:
  assumes "sub_ok s i" "pending s = None"
  shows "sub_ok (s\<lparr>rb := push_locked p (rb s), pending := Some p, hist := hist s @ [p]\<rparr>) i"
  using assms by (simp add: sub_ok_def fanned_def)

lemma sub_ok_fanned:
  assumes ok: "sub_ok s i" and p: "pending s = Some p" "hist s \<noteq> []" "last (hist s) = p" and ch: "subs (rb s) i = Some ch"
  shows "sub_ok (s\<lparr>rb := fan_out p (rb s), pending := None,
    lost := (\<lambda>i. case subs (rb s) i of Some ch \<Rightarrow> if length ch < subBuffer then lost s i else lost s i + 1 | None \<Rightarrow> lost s i)\<rparr>) i"
proof -
  have h: "butlast (hist s) @ [p] = hist s" using p(2,3) by (metis append_butlast_last_id)
  have "\<exists>k. (k = base s i \<or> Suc k = base s i) \<and> k \<le> length (hist s) \<and> got s i @ ch @ [p] = drop k (hist s)" if l: "lost s i = 0"
  proof -
    from ok l p ch obtain k where k: "k = base s i \<or> Suc k = base s i" "k \<le> length (butlast (hist s))"
        "got s i @ ch = drop k (butlast (hist s))"
      by (auto simp: sub_ok_def fanned_def)
    then have "drop k (butlast (hist s) @ [p]) = got s i @ ch @ [p]" by simp
    then show ?thesis using k h by (metis length_butlast diff_le_self le_trans)
  qed
  then show ?thesis using ok p ch by (auto simp: sub_ok_def fanned_def fan_out_def offer_def)
qed

lemma sub_ok_received:
  assumes "sub_ok s i" "subs (rb s) i = Some (b # ch)"
  shows "sub_ok (s\<lparr>rb := (rb s)\<lparr>subs := (subs (rb s))(i \<mapsto> ch)\<rparr>, got := (got s)(i := got s i @ [b])\<rparr>) i"
  using assms fanned_cong [of "s\<lparr>rb := (rb s)\<lparr>subs := (subs (rb s))(i \<mapsto> ch)\<rparr>, got := (got s)(i := got s i @ [b])\<rparr>" s]
  by (simp add: sub_ok_def)

lemma sub_ok_cong:
  assumes "sub_ok s i" "base t i = base s i" "hist t = hist s" "pending t = pending s" "snap t i = snap s i" "got t i = got s i"
    "lost t i = lost s i" "subs (rb t) i = subs (rb s) i"
  shows "sub_ok t i"
  using assms fanned_cong [of t s] by (simp add: sub_ok_def)

lemma sub_ok_new:
  assumes "tail_inv s" "base t i = length (hist s)" "snap t i = snapshotLocked (rb s)" "got t i = []" "lost t i = 0"
    "hist t = hist s" "pending t = pending s" "subs (rb t) i = Some []"
  shows "sub_ok t i"
proof -
  have "snapshotLocked (rb s) = lastn ringSize (concat (hist s))" using assms(1) by (intro snapshot_lastn) (simp add: tail_inv_def)
  moreover have "\<exists>k. (k = length (hist s) \<or> Suc k = length (hist s)) \<and> k \<le> length (fanned t) \<and> [] = drop k (fanned t)"
  proof (cases "pending s")
    case None
    then show ?thesis using assms by (intro exI [of _ "length (hist s)"]) (simp add: fanned_def)
  next
    case (Some p)
    then have "hist s \<noteq> []" using assms(1) by (simp add: tail_inv_def)
    then show ?thesis using Some assms by (intro exI [of _ "length (hist s) - 1"]) (simp add: fanned_def)
  qed
  ultimately show ?thesis using assms by (simp add: sub_ok_def)
qed

lemma tail_step_inv: "tail_step s t \<Longrightarrow> tail_inv s \<Longrightarrow> tail_inv t"
proof (induction rule: tail_step.induct)
  case (written s projected entries)
  then show ?case using represents_push [of "rb s" "concat (hist s)" projected] sub_ok_written [of s _ projected]
    by (simp add: tail_inv_def)
next
  case (fanned_out s projected)
  have "subs (fan_out projected (rb s)) i \<noteq> None \<longleftrightarrow> subs (rb s) i \<noteq> None" for i by (simp add: fan_out_def)
  moreover have "nextSub (fan_out projected (rb s)) = nextSub (rb s)" by (simp add: fan_out_def)
  ultimately show ?case using fanned_out sub_ok_fanned [of s _ projected]
    by (auto simp: tail_inv_def fan_out_represents)
next
  case (subscribed s shot i rb')
  have i: "i = nextSub (rb s)" "shot = snapshotLocked (rb s)" "subs rb' = (subs (rb s))(i \<mapsto> [])" "nextSub rb' = Suc i"
      "rentries rb' = rentries (rb s)" "head rb' = head (rb s)" "rcount rb' = rcount (rb s)"
    using subscribed(1) by (auto simp: SnapshotAndSubscribe_def Subscribe_def)
  let ?t = "s\<lparr>rb := rb', base := (base s)(i := length (hist s)), snap := (snap s)(i := shot), got := (got s)(i := []), lost := (lost s)(i := 0)\<rparr>"
  have "sub_ok ?t i" by (rule sub_ok_new [OF subscribed(2)]) (simp_all add: i)
  moreover have "sub_ok ?t j" if "j \<noteq> i" "subs (rb s) j \<noteq> None" for j
  proof (rule sub_ok_cong [of s])
    show "sub_ok s j" using subscribed(2) that by (simp add: tail_inv_def)
  qed (use that i in simp_all)
  ultimately show ?case using subscribed(2) i by (auto simp: tail_inv_def represents_def less_SucI)
next
  case (received s i b ch)
  let ?t = "s\<lparr>rb := (rb s)\<lparr>subs := (subs (rb s))(i \<mapsto> ch)\<rparr>, got := (got s)(i := got s i @ [b])\<rparr>"
  have "sub_ok ?t i" using received by (intro sub_ok_received) (simp_all add: tail_inv_def)
  moreover have "sub_ok ?t j" if "j \<noteq> i" "subs (rb s) j \<noteq> None" for j
  proof (rule sub_ok_cong [of s])
    show "sub_ok s j" using received(2) that by (simp add: tail_inv_def)
  qed (use that in simp_all)
  ultimately show ?case using received by (auto simp: tail_inv_def represents_def)
next
  case (left s i)
  have "sub_ok (s\<lparr>rb := unsubscribe i (rb s)\<rparr>) j" if "j \<noteq> i" "subs (rb s) j \<noteq> None" for j
  proof (rule sub_ok_cong [of s])
    show "sub_ok s j" using left that by (simp add: tail_inv_def)
  qed (use that in \<open>simp_all add: unsubscribe_def\<close>)
  then show ?case using left by (auto simp: tail_inv_def represents_def unsubscribe_def)
qed

lemma tail_reachable_inv: "tail_reachable s \<Longrightarrow> tail_inv s"
proof (induction rule: tail_reachable.induct)
  case start
  show ?case using represents_new by (simp add: tail_inv_def tail_init_def NewRingBuffer_def)
next
  case (step s t)
  then show ?case using tail_step_inv by blast
qed

section \<open>Properties\<close>

text \<open>C23: The ring buffer refines a list: after any sequence of pushes into a new buffer the snapshot is
  exactly the last 256 entries pushed, oldest first, without their bodies, whatever the sizes of the
  batches.\<close>

theorem ring_refines_list:
  "Snapshot (fold Push batches NewRingBuffer) = lastn ringSize (map (\<lambda>e. e\<lparr>Body := []\<rparr>) (concat batches))"
proof -
  obtain ys where "represents (fold Push batches NewRingBuffer) ys"
    "lastn ringSize ys = lastn ringSize ([] @ map (\<lambda>e. e\<lparr>Body := []\<rparr>) (concat batches))"
    using pushes_represent [OF represents_new] by blast
  then show ?thesis by (simp add: Snapshot_def snapshot_lastn)
qed

text \<open>C21: A tail stream misses nothing between its snapshot and its channel: in every reachable state of the
  concurrent buffer, a subscriber that never fell behind its channel has, in the batches received and
  waiting, every batch fanned out since its subscription, in order, and its snapshot is the last 256 entries
  of all batches before; at most the one batch in flight at the subscription is in both.\<close>

theorem tail_no_gap:
  assumes "tail_reachable s" and "subs (rb s) i = Some ch" and "lost s i = 0"
  shows "snap s i = lastn ringSize (concat (take (base s i) (hist s))) \<and>
    (\<exists>k. (k = base s i \<or> Suc k = base s i) \<and> got s i @ ch = drop k (fanned s))"
  using tail_reachable_inv [OF assms(1)] assms(2,3) by (fastforce simp: tail_inv_def sub_ok_def)

theorem tail_no_gap_witness:
  "\<exists>s. tail_reachable s \<and> subs (rb s) 0 = Some [[zero_entry]] \<and> snap s 0 = [zero_entry] \<and>
     snap s 0 = lastn ringSize (concat (take (base s 0) (hist s)))"
proof -
  define b where "b = [zero_entry]"
  define s1 where "s1 = tail_init\<lparr>rb := push_locked b (rb tail_init), pending := Some b, hist := hist tail_init @ [b]\<rparr>"
  define r2 where "r2 = snd (Subscribe (rb s1))"
  define s2 where "s2 = s1\<lparr>rb := r2, base := (base s1)(0 := length (hist s1)), snap := (snap s1)(0 := snapshotLocked (rb s1)),
    got := (got s1)(0 := []), lost := (lost s1)(0 := 0)\<rparr>"
  define s3 where "s3 = s2\<lparr>rb := fan_out b (rb s2), pending := None,
    lost := (\<lambda>i. case subs (rb s2) i of Some ch \<Rightarrow> if length ch < subBuffer then lost s2 i else lost s2 i + 1 | None \<Rightarrow> lost s2 i)\<rparr>"
  have pb: "b = project b" by (simp add: b_def project_def ringSize_def zero_entry_def)
  have "tail_step tail_init s1" unfolding s1_def by (rule tail_step.written [OF _ pb]) (simp add: tail_init_def)
  moreover have "SnapshotAndSubscribe (rb s1) = (snapshotLocked (rb s1), 0, r2)"
    by (simp add: SnapshotAndSubscribe_def r2_def Subscribe_def s1_def tail_init_def NewRingBuffer_def)
  then have "tail_step s1 s2" unfolding s2_def by (rule tail_step.subscribed)
  moreover have "pending s2 = Some b" by (simp add: s2_def s1_def)
  then have "tail_step s2 s3" unfolding s3_def by (rule tail_step.fanned_out)
  ultimately have r: "tail_reachable s3" by (meson tail_reachable.intros)
  have ch: "subs (rb s3) 0 = Some [[zero_entry]]" "lost s3 0 = 0"
    by (simp_all add: s3_def s2_def s1_def r2_def fan_out_def Subscribe_def tail_init_def NewRingBuffer_def offer_def subBuffer_def b_def)
  have "snap s3 0 = [zero_entry]"
    by (simp add: s3_def s2_def s1_def tail_init_def NewRingBuffer_def snapshotLocked_def push_locked_def ring_write_def b_def ringSize_def)
  then show ?thesis using tail_no_gap [OF r ch] r ch by blast
qed

end
