(* ===== verification/Scanner.thy ===== *)
theory Scanner
  imports Wal
begin

text \<open>
  Reading a log file record by record, \<open>internal/logstore/wal/scanner.go\<close> and the two readers
  of \<open>internal/logstore/wal/binary.go\<close> built on it. The \<open>io.Reader\<close> is the bytes that are still
  to be read, and \<open>io.ReadFull\<close> returns \<open>io.EOF\<close> only when nothing at all could be read.
\<close>

datatype read_error = EOF | ErrUnexpectedEOF

definition ReadFull :: "bytes \<Rightarrow> nat \<Rightarrow> (read_error + bytes) \<times> bytes" where
  "ReadFull r n =
     (if n \<le> length r then (Inr (take n r), drop n r)
      else (Inl (if r = [] then EOF else ErrUnexpectedEOF), []))"

fun read_err :: "read_error \<Rightarrow> err" where
  "read_err EOF = Errorf ''EOF'' []"
| "read_err ErrUnexpectedEOF = Errorf ''unexpected EOF'' []"

record Scanner =
  rd :: bytes
  consumed :: nat
  serr :: "err option"

definition NewScanner :: "bytes \<Rightarrow> Scanner" where
  "NewScanner r = \<lparr>rd = r, consumed = 0, serr = None\<rparr>"

text \<open>\<open>Next\<close> returns the decoded entry, or \<open>None\<close> where the source returns false.\<close>

definition Next :: "zstd \<Rightarrow> Scanner \<Rightarrow> Entry option \<times> Scanner" where
  "Next Z s =
     (if serr s \<noteq> None then (None, s)
      else case ReadFull (rd s) 4 of
        (Inl e, r) \<Rightarrow>
          (None, if e \<noteq> EOF then s\<lparr>rd := r, serr := Some (Wrapf ''read entry length'' [] (read_err e))\<rparr> else s\<lparr>rd := r\<rparr>)
      | (Inr lenBuf, r) \<Rightarrow>
          (case get_u32 lenBuf of
             Inl e \<Rightarrow> (None, s\<lparr>rd := r, serr := Some e\<rparr>)
           | Inr w \<Rightarrow>
               (let entryLen = unat w
                in if entryLen < minRecordBytes \<or> entryLen > maxRecordBytes
                   then (None, s\<lparr>rd := r, serr := Some (Errorf ''invalid entry length: %d'' [D (int entryLen)])\<rparr>)
                   else case ReadFull r entryLen of
                     (Inl e, r) \<Rightarrow> (None, s\<lparr>rd := r, serr := Some (Wrapf ''read entry data'' [] (read_err e))\<rparr>)
                   | (Inr rec, r) \<Rightarrow>
                       (case UnmarshalEntryInto Z rec of
                          Inl e \<Rightarrow> (None, s\<lparr>rd := r, serr := Some (Wrapf ''unmarshal entry'' [] e)\<rparr>)
                        | Inr dst \<Rightarrow> (Some dst, s\<lparr>rd := r, consumed := consumed s + (4 + entryLen)\<rparr>)))))"

text \<open>
  \<open>NextBatch\<close> grows \<open>dst\<close> inside its capacity \<open>cap\<close>; reslicing past the capacity panics. The
  loop runs at most \<open>max - len(dst)\<close> times.
\<close>

fun next_batch_loop :: "zstd \<Rightarrow> nat \<Rightarrow> Scanner \<Rightarrow> Entry list \<Rightarrow> nat \<Rightarrow> (Entry list \<times> Scanner) res" where
  "next_batch_loop Z 0 s dst cap = Inr (dst, s)"
| "next_batch_loop Z (Suc k) s dst cap =
     (if length dst + 1 > cap then Inl Panic
      else case Next Z s of
        (None, s) \<Rightarrow> Inr (dst, s)
      | (Some e, s) \<Rightarrow> next_batch_loop Z k s (dst @ [e]) cap)"

definition NextBatch :: "zstd \<Rightarrow> Scanner \<Rightarrow> Entry list \<Rightarrow> nat \<Rightarrow> nat \<Rightarrow> (Entry list \<times> Scanner) res" where
  "NextBatch Z s dst cap mx = next_batch_loop Z (mx - length dst) s dst cap"

lemma ReadFull_shrinks: "ReadFull r n = (Inr b, r') \<Longrightarrow> length b = n \<and> r = b @ r'"
  by (auto simp: ReadFull_def split: if_splits)

lemma Next_shrinks: "Next Z s = (Some e, s') \<Longrightarrow> length (rd s') < length (rd s)"
  by (auto simp: Next_def Let_def split: if_splits prod.splits sum.splits dest!: ReadFull_shrinks)

function read_entries_loop :: "zstd \<Rightarrow> Scanner \<Rightarrow> Entry list \<times> Scanner" where
  "read_entries_loop Z sc =
     (case Next Z sc of
        (None, sc) \<Rightarrow> ([], sc)
      | (Some e, sc) \<Rightarrow> (let (es, sc) = read_entries_loop Z sc in (e # es, sc)))"
  by pat_completeness auto
termination
  by (relation "measure (\<lambda>(Z, sc). length (rd sc))") (auto dest!: sym [THEN Next_shrinks])

declare read_entries_loop.simps [simp del]

definition ReadEntriesFrom :: "zstd \<Rightarrow> bytes \<Rightarrow> Entry list \<times> nat \<times> err option" where
  "ReadEntriesFrom Z r =
     (let (entries, sc) = read_entries_loop Z (NewScanner r) in (entries, consumed sc, serr sc))"

definition ReadEntries :: "zstd \<Rightarrow> bytes \<Rightarrow> Entry list \<times> err option" where
  "ReadEntries Z r = (case ReadEntriesFrom Z r of (entries, _, err) \<Rightarrow> (entries, err))"

section \<open>One record\<close>

lemma ReadFull_append [simp]: "length b = n \<Longrightarrow> ReadFull (b @ r) n = (Inr b, r)"
  by (auto simp: ReadFull_def)

lemma Next_Some:
  assumes "Next Z s = (Some e, s')"
  obtains w where "rd s = w @ rd s'" "consumed s' = consumed s + length w" "serr s = None" "serr s' = None" "w \<noteq> []"
    "\<And>x c. Next Z \<lparr>rd = w @ x, consumed = c, serr = None\<rparr> = (Some e, \<lparr>rd = x, consumed = c + length w, serr = None\<rparr>)"
proof -
  from assms obtain lenBuf r w4 rec r' where s: "serr s = None"
    and a: "ReadFull (rd s) 4 = (Inr lenBuf, r)" and b: "get_u32 lenBuf = Inr w4"
    and l: "minRecordBytes \<le> unat w4" "unat w4 \<le> maxRecordBytes"
    and c: "ReadFull r (unat w4) = (Inr rec, r')" and d: "UnmarshalEntryInto Z rec = Inr e"
    and s': "s' = s\<lparr>rd := r', consumed := consumed s + (4 + unat w4)\<rparr>"
    by (auto simp: Next_def Let_def split: if_splits prod.splits sum.splits)
  note len = ReadFull_shrinks [OF a] ReadFull_shrinks [OF c]
  have next': "Next Z \<lparr>rd = (lenBuf @ rec) @ x, consumed = n, serr = None\<rparr>
      = (Some e, \<lparr>rd = x, consumed = n + length (lenBuf @ rec), serr = None\<rparr>)" for x n
    using len b l d by (simp add: Next_def Let_def)
  show thesis
    by (rule that [of "lenBuf @ rec"]) (use len s s' next' in auto)
qed

lemma Next_None:
  "Next Z s = (None, s') \<Longrightarrow> consumed s' = consumed s"
  by (auto simp: Next_def Let_def split: if_splits prod.splits sum.splits)

lemma Next_None_shift:
  "Next Z \<lparr>rd = r, consumed = c, serr = None\<rparr> = (None, s') \<Longrightarrow>
   Next Z \<lparr>rd = r, consumed = c', serr = None\<rparr> = (None, s'\<lparr>consumed := c'\<rparr>)"
  by (auto simp: Next_def Let_def split: if_splits prod.splits sum.splits)

section \<open>Whole files\<close>

abbreviation at :: "bytes \<Rightarrow> nat \<Rightarrow> Scanner" where
  "at r c \<equiv> \<lparr>rd = r, consumed = c, serr = None\<rparr>"

lemma loop_Some:
  "Next Z s = (Some e, s') \<Longrightarrow> read_entries_loop Z s = (e # fst (read_entries_loop Z s'), snd (read_entries_loop Z s'))"
  by (subst read_entries_loop.simps) (simp split: prod.splits)

lemma loop_None: "Next Z s = (None, s') \<Longrightarrow> read_entries_loop Z s = ([], s')"
  by (subst read_entries_loop.simps) simp

lemma loop_shift:
  "read_entries_loop Z (at r (c + k)) = (let (es, sc) = read_entries_loop Z (at r c) in (es, sc\<lparr>consumed := consumed sc + k\<rparr>))"
proof (induction "length r" arbitrary: r c rule: less_induct)
  case less
  obtain eo s' where n: "Next Z (at r c) = (eo, s')" by fastforce
  show ?case
  proof (cases eo)
    case None
    then show ?thesis
      using n Next_None [of Z "at r c" s'] Next_None_shift [of Z r c s' "c + k"]
      by (simp add: loop_None)
  next
    case (Some e)
    with n have "Next Z (at r c) = (Some e, s')" by simp
    then obtain w where w: "r = w @ rd s'" "consumed s' = c + length w" "serr s' = None" "w \<noteq> []"
      and nx: "\<And>x c. Next Z (at (w @ x) c) = (Some e, at x (c + length w))"
      by (auto elim!: Next_Some)
    have "read_entries_loop Z (at (rd s') ((c + length w) + k)) =
        (let (es, sc) = read_entries_loop Z (at (rd s') (c + length w)) in (es, sc\<lparr>consumed := consumed sc + k\<rparr>))"
      using w by (intro less) simp
    then show ?thesis
      using nx [of "rd s'" c] nx [of "rd s'" "c + k"] w(1)
      by (simp add: loop_Some add.commute add.left_commute Let_def split: prod.splits)
  qed
qed

lemma ReadEntriesFrom_step:
  assumes "\<And>x c. Next Z (at (w @ x) c) = (Some e, at x (c + length w))"
  shows "ReadEntriesFrom Z (w @ x) = (case ReadEntriesFrom Z x of (es, c, er) \<Rightarrow> (e # es, length w + c, er))"
  using loop_Some [OF assms [of x 0]] loop_shift [of Z x 0 "length w"]
  by (simp add: ReadEntriesFrom_def NewScanner_def Let_def add.commute split: prod.splits)

lemma ReadEntriesFrom_stop:
  "Next Z (at r 0) = (None, s') \<Longrightarrow> ReadEntriesFrom Z r = ([], 0, serr s')"
  using Next_None [of Z "at r 0" s'] by (simp add: ReadEntriesFrom_def NewScanner_def loop_None)

text \<open>
  Reading resumes where it stopped: the bytes up to \<open>consumed\<close> hold exactly the entries that
  were returned, whatever follows them.
\<close>

lemma ReadEntriesFrom_resume:
  "ReadEntriesFrom Z r = (es, c, er) \<Longrightarrow> c \<le> length r \<and>
     (\<forall>x. ReadEntriesFrom Z (take c r @ x) = (case ReadEntriesFrom Z x of (es', c', er') \<Rightarrow> (es @ es', c + c', er')))"
proof (induction "length r" arbitrary: r es c er rule: less_induct)
  case less
  obtain eo s' where n: "Next Z (at r 0) = (eo, s')" by fastforce
  show ?case
  proof (cases eo)
    case None
    then show ?thesis using ReadEntriesFrom_stop n less.prems by (auto split: prod.splits)
  next
    case (Some e)
    with n have "Next Z (at r 0) = (Some e, s')" by simp
    then obtain w where w: "r = w @ rd s'" "w \<noteq> []"
      and nx: "\<And>x c. Next Z (at (w @ x) c) = (Some e, at x (c + length w))"
      by (auto elim!: Next_Some)
    obtain es1 c1 where r1: "ReadEntriesFrom Z (rd s') = (es1, c1, er)" and es: "es = e # es1" "c = length w + c1"
      using less.prems w(1) ReadEntriesFrom_step [OF nx, of "rd s'"] by (cases "ReadEntriesFrom Z (rd s')") auto
    have "c1 \<le> length (rd s') \<and> (\<forall>x. ReadEntriesFrom Z (take c1 (rd s') @ x)
        = (case ReadEntriesFrom Z x of (es', c', er') \<Rightarrow> (es1 @ es', c1 + c', er')))"
      using w by (intro less(1) [OF _ r1]) simp
    then show ?thesis
      using w es ReadEntriesFrom_step [OF nx] by (auto simp: add.assoc split: prod.splits)
  qed
qed

section \<open>Files of records\<close>

lemma unat_payload_len: "unat (of_nat (length (record_payload Z c e)) :: u32) = length (record_payload Z c e)"
  using length_payload [of Z c e] by (intro unat_of_nat_small) (simp add: maxRecordBytes_def)

lemma MarshalEntry_payload:
  "MarshalEntry Z c e = put_u32 (of_nat (length (record_payload Z c e))) @ record_payload Z c e"
  by (simp add: MarshalEntry_def AppendEntry_payload)

lemma Next_MarshalEntry:
  assumes "zstd_lib Z" "int (length (Body e)) \<le> MaxBlockBytes"
  shows "Next Z (at (MarshalEntry Z c e @ x) n) = (Some (wal_normal Z c e), at x (n + length (MarshalEntry Z c e)))"
  using length_payload [of Z c e] unmarshal_payload [OF assms, of c]
  by (simp add: Next_def MarshalEntry_payload unat_payload_len Let_def UnmarshalEntry_def)

lemma Next_torn:
  assumes "k < length (MarshalEntry Z c e)"
  shows "\<exists>s'. Next Z (at (take k (MarshalEntry Z c e)) n) = (None, s') \<and> (serr s' = None \<longleftrightarrow> k = 0)"
proof (cases "k < 4")
  case True
  then show ?thesis using assms by (auto simp: Next_def ReadFull_def min_def split: if_splits)
next
  case False
  let ?p = "record_payload Z c e"
  have t: "take k (MarshalEntry Z c e) = put_u32 (of_nat (length ?p)) @ take (k - 4) ?p"
    using False by (simp add: MarshalEntry_payload)
  have "k - 4 < length ?p" using False assms by (simp add: MarshalEntry_payload)
  then show ?thesis
    using length_payload [of Z c e] False
    by (auto simp: Next_def t Let_def unat_payload_len ReadFull_def)
qed

lemma file_reads_back:
  assumes Z: "zstd_lib Z" and small: "\<forall>e \<in> set es. int (length (Body e)) \<le> MaxBlockBytes"
  shows "ReadEntriesFrom Z (concat (map (MarshalEntry Z c) es) @ x)
    = (case ReadEntriesFrom Z x of (es', c', er) \<Rightarrow>
         (map (wal_normal Z c) es @ es', length (concat (map (MarshalEntry Z c) es)) + c', er))"
  using small
proof (induction es)
  case Nil
  then show ?case by (simp split: prod.splits)
next
  case (Cons e es)
  have nx: "Next Z (at (MarshalEntry Z c e @ y) n) = (Some (wal_normal Z c e), at y (n + length (MarshalEntry Z c e)))" for y n
    using Cons.prems by (intro Next_MarshalEntry [OF Z]) simp
  show ?case
    using Cons ReadEntriesFrom_step [OF nx, of "concat (map (MarshalEntry Z c) es) @ x"]
    by (simp add: add.assoc split: prod.splits)
qed

lemma torn_file:
  assumes "k < length (MarshalEntry Z c e)"
  shows "\<exists>er. ReadEntriesFrom Z (take k (MarshalEntry Z c e)) = ([], 0, er) \<and> (er = None \<longleftrightarrow> k = 0)"
  using Next_torn [OF assms, of 0] ReadEntriesFrom_stop [of Z "take k (MarshalEntry Z c e)"] by auto

section \<open>Batches\<close>

lemma next_batch_loop_no_panic:
  "length dst + k \<le> cap \<Longrightarrow> next_batch_loop Z k s dst cap \<noteq> Inl Panic"
  by (induction k arbitrary: s dst) (auto split: prod.splits option.splits)

lemma ReadFull_fail: "ReadFull r n = (Inl e, r') \<Longrightarrow> r' = [] \<and> (e = EOF \<longleftrightarrow> r = []) \<and> length r' \<le> length r"
  by (auto simp: ReadFull_def split: if_splits)

lemma Next_None_cases:
  "Next Z s = (None, s') \<Longrightarrow> (serr s' \<noteq> None \<or> serr s' = None \<and> rd s' = []) \<and> length (rd s') \<le> length (rd s)"
  by (auto simp: Next_def Let_def split: if_splits prod.splits sum.splits dest!: ReadFull_fail ReadFull_shrinks)

lemma Next_None_idem:
  assumes "Next Z s = (None, s')"
  shows "Next Z s' = (None, s')"
proof (cases "serr s' = None")
  case True
  then have "rd s' = []" using Next_None_cases [OF assms] by simp
  moreover from this have "s'\<lparr>rd := []\<rparr> = s'" by simp
  ultimately show ?thesis using True by (simp add: Next_def ReadFull_def)
qed (simp add: Next_def)

text \<open>A batch is the next entries of the file, and the scanner is left before the rest.\<close>

lemma next_batch_loop_spec:
  "length dst + k \<le> cap \<Longrightarrow> read_entries_loop Z s = (es, f) \<Longrightarrow>
   \<exists>s'. next_batch_loop Z k s dst cap = Inr (dst @ take k es, s') \<and> read_entries_loop Z s' = (drop k es, f) \<and>
     length (rd s') + length (take k es) \<le> length (rd s)"
proof (induction k arbitrary: s dst es)
  case 0
  then show ?case by auto
next
  case (Suc k)
  obtain eo s1 where n: "Next Z s = (eo, s1)" by fastforce
  show ?case
  proof (cases eo)
    case None
    then have "read_entries_loop Z s = ([], s1)" "read_entries_loop Z s1 = ([], s1)"
      using n Next_None_idem [of Z s s1] by (simp_all add: loop_None)
    moreover have "length (rd s1) \<le> length (rd s)"
      using n None Next_None_cases by blast
    ultimately show ?thesis using Suc.prems n None by auto
  next
    case (Some e)
    then have es: "es = e # fst (read_entries_loop Z s1)" "f = snd (read_entries_loop Z s1)"
      using Suc.prems(2) n by (simp_all add: loop_Some)
    have "length (rd s1) < length (rd s)" using Next_shrinks n Some by simp
    moreover obtain s' where "next_batch_loop Z k s1 (dst @ [e]) cap = Inr ((dst @ [e]) @ take k (fst (read_entries_loop Z s1)), s')"
      "read_entries_loop Z s' = (drop k (fst (read_entries_loop Z s1)), f)"
      "length (rd s') + length (take k (fst (read_entries_loop Z s1))) \<le> length (rd s1)"
      using Suc.IH [of "dst @ [e]" s1 "fst (read_entries_loop Z s1)"] Suc.prems(1) es(2) by auto
    ultimately show ?thesis using Suc.prems(1) n Some es by auto
  qed
qed

lemma NextBatch_spec:
  assumes "limit \<le> cap" "read_entries_loop Z s = (es, f)"
  obtains s' where "NextBatch Z s [] cap limit = Inr (take limit es, s')" "read_entries_loop Z s' = (drop limit es, f)"
    "length (rd s') + length (take limit es) \<le> length (rd s)"
  using next_batch_loop_spec [of "[]" limit cap Z s es f] assms by (auto simp: NextBatch_def)

lemma NextBatch_shrinks:
  assumes "NextBatch Z s [] cap limit = Inr (batch, s')" "batch \<noteq> []" "limit \<le> cap"
  shows "length (rd s') < length (rd s)"
proof -
  obtain es f where "read_entries_loop Z s = (es, f)" by fastforce
  from NextBatch_spec [OF assms(3) this] assms(1,2) show ?thesis by (metis add.commute dual_order.strict_trans1 length_greater_0_conv less_add_same_cancel2 old.prod.inject sum.inject(2))
qed

section \<open>Properties\<close>

text \<open>C2: A log file with a torn last record reads back as the normal forms of its complete entries;
  the consumed offset is the end of the last complete record, and the error is nil exactly when
  nothing was torn.\<close>

theorem wal_file_roundtrip:
  assumes "zstd_lib Z" and "\<forall>e \<in> set es. int (length (Body e)) \<le> MaxBlockBytes"
    and "k < length (MarshalEntry Z c e')"
  shows "\<exists>er. ReadEntriesFrom Z (concat (map (MarshalEntry Z c) es) @ take k (MarshalEntry Z c e'))
           = (map (wal_normal Z c) es, length (concat (map (MarshalEntry Z c) es)), er) \<and> (er = None \<longleftrightarrow> k = 0)"
  using torn_file [OF assms(3)] file_reads_back [OF assms(1,2), of c "take k (MarshalEntry Z c e')"] by auto

theorem wal_file_roundtrip_witness:
  "\<exists>er. ReadEntriesFrom stored_zstd (concat (map (MarshalEntry stored_zstd True) [zero_entry]) @ take 3 (MarshalEntry stored_zstd True zero_entry))
     = (map (wal_normal stored_zstd True) [zero_entry], length (concat (map (MarshalEntry stored_zstd True) [zero_entry])), er) \<and> (er = None \<longleftrightarrow> (3 :: nat) = 0)"
  using wal_file_roundtrip [of stored_zstd "[zero_entry]" 3 True zero_entry] stored_zstd_lib
  by (simp add: zero_entry_def MaxBlockBytes_def MarshalEntry_payload)

text \<open>C18: An append-only log can be read in pieces: on any bytes, well formed or not, reading again from
  the consumed offset after more bytes were appended gives exactly the entries of reading the whole.\<close>

theorem wal_resume:
  assumes "ReadEntriesFrom Z r = (es, c, er)"
  shows "c \<le> length r \<and>
    (\<forall>more. ReadEntriesFrom Z (r @ more) =
       (case ReadEntriesFrom Z (drop c (r @ more)) of (es', c', er') \<Rightarrow> (es @ es', c + c', er')))"
proof (intro conjI allI)
  show c: "c \<le> length r" using ReadEntriesFrom_resume [OF assms] by blast
  fix more
  have "r @ more = take c r @ drop c (r @ more)" using c by simp
  then show "ReadEntriesFrom Z (r @ more) =
       (case ReadEntriesFrom Z (drop c (r @ more)) of (es', c', er') \<Rightarrow> (es @ es', c + c', er'))"
    using ReadEntriesFrom_resume [OF assms] by metis
qed

theorem wal_resume_witness:
  "\<forall>more. ReadEntriesFrom stored_zstd ([1, 2] @ more) =
       (case ReadEntriesFrom stored_zstd (drop 0 ([1, 2] @ more)) of (es', c', er') \<Rightarrow> ([] @ es', 0 + c', er'))"
proof -
  have "ReadEntriesFrom stored_zstd [1, 2] = ([], 0, Some (Wrapf ''read entry length'' [] (Errorf ''unexpected EOF'' [])))"
    by (rule ReadEntriesFrom_stop [where s' = "\<lparr>rd = [], consumed = 0, serr = Some (Wrapf ''read entry length'' [] (Errorf ''unexpected EOF'' []))\<rparr>", simplified])
      (simp add: Next_def ReadFull_def)
  from wal_resume [OF this] show ?thesis by blast
qed

end
