(* ===== verification/Wal_Cache.thy ===== *)
theory Wal_Cache
  imports Scanner
begin

text \<open>
  The cache of parsed write-ahead logs, \<open>internal/logstore/engine/walcache.go\<close>. The file system is a
  parameter of every call: \<open>names\<close> gives the file a path names, \<open>contents\<close> its bytes; an open handle is the
  file itself, so it survives a rename. Logs are append-only; their names may change at any time.
\<close>

section \<open>State\<close>

record filesys =
  names :: "string \<Rightarrow> nat option"
  contents :: "nat \<Rightarrow> bytes"

record walCacheFile =
  wf :: nat
  woff :: nat
  wents :: "Entry list"
  wbytes :: int

record walCache =
  files :: "(string \<times> walCacheFile) list"
  wused :: int

definition newWALCache :: walCache where
  "newWALCache = \<lparr>files = [], wused = 0\<rparr>"

text \<open>\<open>unsafe.Sizeof\<close> of an entry: 3 + 16 words, 26 string headers, a pointer and a slice header.\<close>

definition sizeofEntry :: int where "sizeofEntry = 19 * 8 + 26 * 16 + 8 + 24"

definition entryMemoryBytes :: "Entry \<Rightarrow> int" where
  "entryMemoryBytes e =
     sizeofEntry + int (length (Body e)) +
     sum_list (map (\<lambda>s. int (length s))
       [Level e, Service e, Message e, Env e, Version e, Host e, Kind e,
        EventType e, TraceID e, SpanID e, ParentSpanID e, RequestID e,
        UserID e, TenantID e, SessionID e, Method e, Path e, Route e,
        Handler e, ErrorClass e, ErrorMessage e, SourceFile e,
        ErrorFingerprint e, JobClass e, JobQueue e, JobID e])"

definition entriesMemoryBytes :: "Entry list \<Rightarrow> int" where
  "entriesMemoryBytes es = sum_list (map entryMemoryBytes es)"

section \<open>Operations\<close>

definition sameFileAs :: "filesys \<Rightarrow> walCacheFile \<Rightarrow> string \<Rightarrow> bool" where
  "sameFileAs fs cf path =
     (case names fs path of
        None \<Rightarrow> False
      | Some i \<Rightarrow> if length (contents fs (wf cf)) < woff cf then False else i = wf cf)"

definition removeLocked :: "string \<Rightarrow> walCache \<Rightarrow> walCache" where
  "removeLocked path c =
     (case map_of (files c) path of
        None \<Rightarrow> c
      | Some cf \<Rightarrow>
          let u = wused c - wbytes cf
          in c\<lparr>wused := if u < 0 then 0 else u, files := filter (\<lambda>(p, _). p \<noteq> path) (files c)\<rparr>)"

definition evictDeletedLocked :: "filesys \<Rightarrow> string \<Rightarrow> walCache \<Rightarrow> walCache" where
  "evictDeletedLocked fs keep c =
     fold (\<lambda>path c. if path = keep then c else if names fs path = None then removeLocked path c else c) (map fst (files c)) c"

definition forget :: "string \<Rightarrow> walCache \<Rightarrow> walCache" where
  "forget path c = removeLocked path c"

definition close_cache :: "walCache \<Rightarrow> walCache" where
  "close_cache c = fold removeLocked (map fst (files c)) c"

definition set_file :: "string \<Rightarrow> walCacheFile \<Rightarrow> walCache \<Rightarrow> walCache" where
  "set_file path cf c = c\<lparr>files := (path, cf) # filter (\<lambda>(p, _). p \<noteq> path) (files c)\<rparr>"

text \<open>The part of \<open>cached\<close> after the handle has been found or opened.\<close>

definition read_appended ::
  "zstd \<Rightarrow> int \<Rightarrow> int \<Rightarrow> filesys \<Rightarrow> walCacheFile \<Rightarrow> string \<Rightarrow> walCache \<Rightarrow> Entry list option \<times> walCache" where
  "read_appended Z WALCacheMaxEntries WALCacheBytes fs cf path c =
     (let data = contents fs (wf cf); waiting = int (length data) - int (woff cf)
      in if wused c + waiting > WALCacheBytes then (None, removeLocked path c)
         else case ReadEntriesFrom Z (drop (woff cf) data) of (added, nread, _) \<Rightarrow>
           let addedBytes = entriesMemoryBytes added;
               cf = cf\<lparr>woff := woff cf + nread, wents := wents cf @ added, wbytes := wbytes cf + addedBytes\<rparr>;
               c = (set_file path cf c)\<lparr>wused := wused c + addedBytes\<rparr>
           in if int (length (wents cf)) > WALCacheMaxEntries \<or> wused c > WALCacheBytes
              then (None, removeLocked path c)
              else (Some (wents cf), c))"

definition cached ::
  "zstd \<Rightarrow> int \<Rightarrow> int \<Rightarrow> filesys \<Rightarrow> walCache \<Rightarrow> string \<Rightarrow> Entry list option \<times> walCache" where
  "cached Z WALCacheMaxEntries WALCacheBytes fs c path =
     (if WALCacheMaxEntries \<le> 0 \<or> WALCacheBytes \<le> 0 then (None, c)
      else
        let c = (case map_of (files c) path of
                   Some cf \<Rightarrow> if sameFileAs fs cf path then c else removeLocked path c
                 | None \<Rightarrow> c)
        in case map_of (files c) path of
             Some cf \<Rightarrow> read_appended Z WALCacheMaxEntries WALCacheBytes fs cf path c
           | None \<Rightarrow>
               (case names fs path of
                  None \<Rightarrow> (None, c)
                | Some i \<Rightarrow>
                    let cf = \<lparr>wf = i, woff = 0, wents = [], wbytes = 0\<rparr>;
                        c = evictDeletedLocked fs path (set_file path cf c)
                    in read_appended Z WALCacheMaxEntries WALCacheBytes fs cf path c))"

text \<open>
  A callback takes an entry and its own state and says whether to go on; a walk reports whether it was
  stopped.
\<close>

type_synonym 's callback = "Entry \<Rightarrow> 's \<Rightarrow> bool \<times> 's"

fun walk :: "'s callback \<Rightarrow> Entry list \<Rightarrow> 's \<Rightarrow> bool \<times> 's" where
  "walk fn [] s = (False, s)"
| "walk fn (e # es) s = (case fn e s of (True, s) \<Rightarrow> walk fn es s | (False, s) \<Rightarrow> (True, s))"

function stream_loop :: "zstd \<Rightarrow> 's callback \<Rightarrow> Scanner \<Rightarrow> 's \<Rightarrow> bool \<times> 's" where
  "stream_loop Z fn sc s =
     (case Next Z sc of
        (None, sc) \<Rightarrow> (False, s)
      | (Some e, sc) \<Rightarrow> (case fn e s of (True, s) \<Rightarrow> stream_loop Z fn sc s | (False, s) \<Rightarrow> (True, s)))"
  by pat_completeness auto
termination
  by (relation "measure (\<lambda>(Z, fn, sc, s). length (rd sc))") (auto dest!: sym [THEN Next_shrinks])

declare stream_loop.simps [simp del]

definition streamWALFile :: "zstd \<Rightarrow> filesys \<Rightarrow> string \<Rightarrow> 's callback \<Rightarrow> 's \<Rightarrow> bool \<times> 's" where
  "streamWALFile Z fs path fn s =
     (case names fs path of None \<Rightarrow> (False, s) | Some i \<Rightarrow> stream_loop Z fn (NewScanner (contents fs i)) s)"

definition forEach ::
  "zstd \<Rightarrow> int \<Rightarrow> int \<Rightarrow> filesys \<Rightarrow> walCache \<Rightarrow> string \<Rightarrow> 's callback \<Rightarrow> 's \<Rightarrow> (bool \<times> 's) \<times> walCache" where
  "forEach Z WALCacheMaxEntries WALCacheBytes fs c path fn s =
     (case cached Z WALCacheMaxEntries WALCacheBytes fs c path of
        (Some entries, c) \<Rightarrow> (walk fn entries s, c)
      | (None, c) \<Rightarrow> (streamWALFile Z fs path fn s, c))"

fun forEachWALEntry ::
  "zstd \<Rightarrow> int \<Rightarrow> int \<Rightarrow> filesys \<Rightarrow> walCache \<Rightarrow> string list \<Rightarrow> 's callback \<Rightarrow> 's \<Rightarrow> 's \<times> walCache" where
  "forEachWALEntry Z M B fs c [] fn s = (s, c)"
| "forEachWALEntry Z M B fs c (path # paths) fn s =
     (case forEach Z M B fs c path fn s of
        ((True, s), c) \<Rightarrow> (s, c)
      | ((False, s), c) \<Rightarrow> forEachWALEntry Z M B fs c paths fn s)"

text \<open>
  A history: before each query the file system may have changed and some paths have been forgotten (their
  logs were sealed); the query walks the logs of its paths.
\<close>

fun wal_queries ::
  "zstd \<Rightarrow> int \<Rightarrow> int \<Rightarrow> 's callback \<Rightarrow> 's \<Rightarrow> walCache \<Rightarrow> (filesys \<times> string list \<times> string list) list \<Rightarrow> 's list \<times> walCache" where
  "wal_queries Z M B fn s c [] = ([], c)"
| "wal_queries Z M B fn s c ((fs, gone, paths) # qs) =
     (case forEachWALEntry Z M B fs (fold forget gone c) paths fn s of
        (r, c) \<Rightarrow> (case wal_queries Z M B fn s c qs of (rs, c) \<Rightarrow> (r # rs, c)))"

section \<open>What a walk sees\<close>

lemma stream_loop_walk: "stream_loop Z fn sc s = walk fn (fst (read_entries_loop Z sc)) s"
proof (induction Z fn sc s rule: stream_loop.induct)
  case (1 Z fn sc s)
  obtain eo sc' where n: "Next Z sc = (eo, sc')" by fastforce
  show ?case
  proof (cases eo)
    case None
    then show ?thesis using n by (subst stream_loop.simps) (simp add: loop_None)
  next
    case (Some e)
    then show ?thesis using n 1
      by (subst stream_loop.simps) (auto simp: loop_Some split: prod.split bool.split)
  qed
qed

text \<open>The entries of a log: those of the parseable prefix of its bytes, none when it is missing.\<close>

definition wal_entries :: "zstd \<Rightarrow> filesys \<Rightarrow> string \<Rightarrow> Entry list" where
  "wal_entries Z fs path = (case names fs path of None \<Rightarrow> [] | Some i \<Rightarrow> fst (ReadEntries Z (contents fs i)))"

lemma stream_walk: "streamWALFile Z fs path fn s = walk fn (wal_entries Z fs path) s"
  by (simp add: streamWALFile_def wal_entries_def stream_loop_walk ReadEntries_def ReadEntriesFrom_def split: option.split prod.split)

lemma walk_append: "walk fn (xs @ ys) s = (case walk fn xs s of (True, s) \<Rightarrow> (True, s) | (False, s) \<Rightarrow> walk fn ys s)"
  by (induction xs arbitrary: s) (auto split: prod.split bool.split)

section \<open>Invariant\<close>

text \<open>
  \<open>parsed Z data off es\<close>: the first \<open>off\<close> bytes hold exactly the records of \<open>es\<close>, whatever follows. It is
  kept by appends.
\<close>

definition parsed :: "zstd \<Rightarrow> bytes \<Rightarrow> nat \<Rightarrow> Entry list \<Rightarrow> bool" where
  "parsed Z data off es \<longleftrightarrow> off \<le> length data \<and>
     (\<forall>x. ReadEntriesFrom Z (take off data @ x) = (case ReadEntriesFrom Z x of (es', c', er') \<Rightarrow> (es @ es', off + c', er')))"

lemma parsed_0: "parsed Z data 0 []"
  by (simp add: parsed_def split: prod.split)

lemma parsed_append: "parsed Z data off es \<Longrightarrow> parsed Z (data @ x) off es"
  by (simp add: parsed_def)

lemma parsed_step:
  assumes p: "parsed Z data off es" and r: "ReadEntriesFrom Z (drop off data) = (added, n, er)"
  shows "parsed Z data (off + n) (es @ added)" and "fst (ReadEntries Z data) = es @ added"
proof -
  have n: "n \<le> length (drop off data)"
    and add: "\<And>x. ReadEntriesFrom Z (take n (drop off data) @ x) = (case ReadEntriesFrom Z x of (es', c', er') \<Rightarrow> (added @ es', n + c', er'))"
    using ReadEntriesFrom_resume [OF r] by auto
  have t: "take (off + n) data = take off data @ take n (drop off data)" by (simp add: take_add)
  show "parsed Z data (off + n) (es @ added)"
    using p n add unfolding parsed_def t by (auto split: prod.splits)
  have "data = take off data @ drop off data" by simp
  then have "ReadEntriesFrom Z data = (es @ added, off + n, er)" using p r unfolding parsed_def by (metis (no_types, lifting) prod.case)
  then show "fst (ReadEntries Z data) = es @ added" by (simp add: ReadEntries_def)
qed

definition file_ok :: "zstd \<Rightarrow> filesys \<Rightarrow> walCacheFile \<Rightarrow> bool" where
  "file_ok Z fs cf \<longleftrightarrow> parsed Z (contents fs (wf cf)) (woff cf) (wents cf) \<and> 0 \<le> wbytes cf"

definition accounted :: "walCache \<Rightarrow> int" where
  "accounted c = sum_list (map (\<lambda>(p, cf). wbytes cf) (files c))"

definition wal_cache_ok :: "zstd \<Rightarrow> int \<Rightarrow> filesys \<Rightarrow> walCache \<Rightarrow> bool" where
  "wal_cache_ok Z B fs c \<longleftrightarrow> distinct (map fst (files c)) \<and> list_all (\<lambda>(p, cf). file_ok Z fs cf) (files c) \<and>
     wused c = accounted c \<and> (0 < B \<longrightarrow> wused c \<le> B)"

lemma accounted_remove:
  "distinct (map fst l) \<Longrightarrow> map_of l path = Some cf \<Longrightarrow>
   sum_list (map (\<lambda>(p, cf). wbytes cf) (filter (\<lambda>(p, _). p \<noteq> path) l)) = sum_list (map (\<lambda>(p, cf). wbytes cf) l) - wbytes cf"
proof (induction l)
  case (Cons x l)
  have "path \<notin> fst ` set l \<Longrightarrow> filter (\<lambda>(p, _). p \<noteq> path) l = l"
    by (rule filter_True) (auto simp: rev_image_eqI)
  then show ?case using Cons by (cases x) (auto split: if_splits)
qed simp

lemma accounted_nonneg: "list_all (\<lambda>(p, cf). file_ok Z fs cf) l \<Longrightarrow> 0 \<le> sum_list (map (\<lambda>(p, cf). wbytes cf) l)"
  by (intro sum_list_nonneg) (auto simp: list_all_iff file_ok_def)

lemma map_of_filter_neq: "map_of (filter (\<lambda>(p, _). p \<noteq> path) l) q = (if q = path then None else map_of l q)"
  by (induction l) auto

lemma distinct_map_filter': "distinct (map f l) \<Longrightarrow> distinct (map f (filter P l))"
  by (induction l) auto

lemma remove_ok:
  assumes "wal_cache_ok Z B fs c"
  shows "wal_cache_ok Z B fs (removeLocked path c)" and "wused (removeLocked path c) \<le> wused c"
    and "map_of (files (removeLocked path c)) q = (if q = path then None else map_of (files c) q)"
proof -
  let ?l = "filter (\<lambda>(p, _). p \<noteq> path) (files c)"
  have all: "list_all (\<lambda>(p, cf). file_ok Z fs cf) ?l" using assms by (auto simp: wal_cache_ok_def list_all_iff)
  have "wal_cache_ok Z B fs (removeLocked path c) \<and> wused (removeLocked path c) \<le> wused c"
  proof (cases "map_of (files c) path")
    case None
    then show ?thesis using assms by (simp add: removeLocked_def)
  next
    case (Some cf)
    have "0 \<le> wbytes cf" using assms map_of_SomeD [OF Some] by (auto simp: wal_cache_ok_def list_all_iff file_ok_def)
    moreover have "accounted (c\<lparr>files := ?l\<rparr>) = accounted c - wbytes cf"
      using accounted_remove [OF _ Some] assms by (simp add: accounted_def wal_cache_ok_def)
    moreover have "0 \<le> accounted (c\<lparr>files := ?l\<rparr>)" using accounted_nonneg [OF all] by (simp add: accounted_def)
    ultimately show ?thesis using assms all Some
      by (auto simp: wal_cache_ok_def removeLocked_def Let_def distinct_map_filter' accounted_def)
  qed
  then show "wal_cache_ok Z B fs (removeLocked path c)" "wused (removeLocked path c) \<le> wused c" by simp_all
  show "map_of (files (removeLocked path c)) q = (if q = path then None else map_of (files c) q)"
    by (auto simp: removeLocked_def map_of_filter_neq Let_def split: option.split)
qed

lemma evict_ok:
  assumes "wal_cache_ok Z B fs c"
  shows "wal_cache_ok Z B fs (evictDeletedLocked fs keep c) \<and> map_of (files (evictDeletedLocked fs keep c)) keep = map_of (files c) keep"
proof -
  have "wal_cache_ok Z B fs c' \<Longrightarrow>
      wal_cache_ok Z B fs (fold (\<lambda>path c. if path = keep then c else if names fs path = None then removeLocked path c else c) ps c') \<and>
      map_of (files (fold (\<lambda>path c. if path = keep then c else if names fs path = None then removeLocked path c else c) ps c')) keep
        = map_of (files c') keep" for ps c'
    by (induction ps arbitrary: c') (simp_all add: remove_ok)
  then show ?thesis using assms by (simp add: evictDeletedLocked_def)
qed

lemma set_file_ok:
  assumes ok: "wal_cache_ok Z B fs c" and cf: "file_ok Z fs cf" and old: "map_of (files c) path = old"
    and u: "u = wused c - (case old of None \<Rightarrow> 0 | Some cf' \<Rightarrow> wbytes cf') + wbytes cf" "0 < B \<longrightarrow> u \<le> B"
  shows "wal_cache_ok Z B fs ((set_file path cf c)\<lparr>wused := u\<rparr>) \<and> map_of (files (set_file path cf c)) path = Some cf"
proof -
  let ?l = "filter (\<lambda>(p, _). p \<noteq> path) (files c)"
  have "sum_list (map (\<lambda>(p, cf). wbytes cf) ?l) = accounted c - (case old of None \<Rightarrow> 0 | Some cf' \<Rightarrow> wbytes cf')"
  proof (cases old)
    case None
    then have "path \<notin> fst ` set (files c)" using old by (simp add: map_of_eq_None_iff)
    then have "?l = files c" by (intro filter_True) (auto simp: rev_image_eqI)
    then show ?thesis using None by (simp add: accounted_def)
  next
    case (Some cf')
    then show ?thesis using ok old accounted_remove [of "files c" path cf'] by (simp add: wal_cache_ok_def accounted_def)
  qed
  then show ?thesis using ok cf u
    by (auto simp: wal_cache_ok_def set_file_def accounted_def distinct_map_filter' list_all_iff)
qed

lemma read_appended_ok:
  assumes ok: "wal_cache_ok Z B fs c" and B: "0 < B" and cf: "map_of (files c) path = Some cf"
  shows "wal_cache_ok Z B fs (snd (read_appended Z M B fs cf path c)) \<and>
    (\<forall>es. fst (read_appended Z M B fs cf path c) = Some es \<longrightarrow> es = fst (ReadEntries Z (contents fs (wf cf))))"
proof -
  let ?data = "contents fs (wf cf)"
  obtain added n er where r: "ReadEntriesFrom Z (drop (woff cf) ?data) = (added, n, er)" by (cases "ReadEntriesFrom Z (drop (woff cf) ?data)")
  have fok: "file_ok Z fs cf" using ok map_of_SomeD [OF cf] by (auto simp: wal_cache_ok_def list_all_iff)
  define cf' where "cf' = cf\<lparr>woff := woff cf + n, wents := wents cf @ added, wbytes := wbytes cf + entriesMemoryBytes added\<rparr>"
  have "0 \<le> entryMemoryBytes e" for e
    unfolding entryMemoryBytes_def sizeofEntry_def by (intro add_nonneg_nonneg sum_list_nonneg) auto
  then have nn: "0 \<le> entriesMemoryBytes added" unfolding entriesMemoryBytes_def by (intro sum_list_nonneg) auto
  have ps: "parsed Z ?data (woff cf + n) (wents cf @ added)" "fst (ReadEntries Z ?data) = wents cf @ added"
    using parsed_step [OF _ r] fok by (simp_all add: file_ok_def)
  then have f': "file_ok Z fs cf'" using fok nn by (simp add: file_ok_def cf'_def)
  let ?u = "wused c + entriesMemoryBytes added"
  let ?c = "(set_file path cf' c)\<lparr>wused := ?u\<rparr>"
  show ?thesis
  proof (cases "wused c + (int (length ?data) - int (woff cf)) > B")
    case True
    then show ?thesis using remove_ok(1) [OF ok] by (simp add: read_appended_def Let_def)
  next
    case False
    have ra: "read_appended Z M B fs cf path c
        = (if int (length (wents cf')) > M \<or> ?u > B then (None, removeLocked path ?c) else (Some (wents cf'), ?c))"
      using False r by (simp add: read_appended_def Let_def cf'_def)
    have ok0: "wal_cache_ok Z 0 fs c" using ok by (simp add: wal_cache_ok_def)
    have "?u = wused c - (case Some cf of None \<Rightarrow> 0 | Some cf' \<Rightarrow> wbytes cf') + wbytes cf'" by (simp add: cf'_def)
    note set = set_file_ok [OF ok0 f' cf this]
    then have okc: "wal_cache_ok Z 0 fs ?c" "map_of (files ?c) path = Some cf'" by simp_all
    have "wal_cache_ok Z B fs (removeLocked path ?c)"
    proof -
      have "wused (removeLocked path ?c) \<le> B"
        using okc(2) ok B fok by (simp add: removeLocked_def Let_def cf'_def wal_cache_ok_def file_ok_def)
      then show ?thesis using remove_ok(1) [OF okc(1), of path] by (simp add: wal_cache_ok_def)
    qed
    moreover have "wal_cache_ok Z B fs ?c" if "\<not> ?u > B" using okc(1) that by (simp add: wal_cache_ok_def)
    ultimately show ?thesis using ps(2) by (simp add: ra cf'_def)
  qed
qed

lemma cached_ok:
  assumes ok: "wal_cache_ok Z B fs c"
  shows "wal_cache_ok Z B fs (snd (cached Z M B fs c path)) \<and>
    (\<forall>es. fst (cached Z M B fs c path) = Some es \<longrightarrow> es = wal_entries Z fs path)"
proof (cases "M \<le> 0 \<or> B \<le> 0")
  case True
  then show ?thesis using ok by (simp add: cached_def)
next
  case False
  then have B: "0 < B" by simp
  define c1 where "c1 = (case map_of (files c) path of Some cf \<Rightarrow> if sameFileAs fs cf path then c else removeLocked path c | None \<Rightarrow> c)"
  have ok1: "wal_cache_ok Z B fs c1" using ok remove_ok(1) [OF ok] by (simp add: c1_def split: option.split)
  show ?thesis
  proof (cases "map_of (files c1) path")
    case (Some cf)
    have "names fs path = Some (wf cf)"
      using Some remove_ok(3) [OF ok, of path path] by (auto simp: c1_def sameFileAs_def split: option.splits if_splits)
    moreover have "cached Z M B fs c path = read_appended Z M B fs cf path c1"
      using False Some by (simp add: cached_def c1_def [symmetric])
    ultimately show ?thesis using read_appended_ok [OF ok1 B Some, of M] by (simp add: wal_entries_def)
  next
    case None
    show ?thesis
    proof (cases "names fs path")
      case None
      then show ?thesis using False \<open>map_of (files c1) path = None\<close> ok1 by (simp add: cached_def c1_def [symmetric])
    next
      case (Some i)
      let ?cf = "\<lparr>wf = i, woff = 0, wents = [], wbytes = 0\<rparr>"
      have "file_ok Z fs ?cf" by (simp add: file_ok_def parsed_0)
      then have s: "wal_cache_ok Z B fs (set_file path ?cf c1)" "map_of (files (set_file path ?cf c1)) path = Some ?cf"
        using set_file_ok [OF ok1 _ \<open>map_of (files c1) path = None\<close>, of ?cf "wused c1"] ok1 by (auto simp: wal_cache_ok_def set_file_def)
      let ?c2 = "evictDeletedLocked fs path (set_file path ?cf c1)"
      have "wal_cache_ok Z B fs ?c2" "map_of (files ?c2) path = Some ?cf" using evict_ok [OF s(1), of path] s(2) by simp_all
      from read_appended_ok [OF this(1) B this(2), of M] show ?thesis
        using False Some \<open>map_of (files c1) path = None\<close> by (simp add: cached_def c1_def [symmetric] wal_entries_def Let_def)
    qed
  qed
qed

lemma forEach_ok:
  assumes "wal_cache_ok Z B fs c"
  shows "fst (forEach Z M B fs c path fn s) = walk fn (wal_entries Z fs path) s \<and> wal_cache_ok Z B fs (snd (forEach Z M B fs c path fn s))"
  using cached_ok [OF assms, of M path] by (auto simp: forEach_def stream_walk split: prod.split option.split)

lemma forEachWALEntry_ok:
  "wal_cache_ok Z B fs c \<Longrightarrow>
   fst (forEachWALEntry Z M B fs c paths fn s) = snd (walk fn (concat (map (wal_entries Z fs) paths)) s) \<and>
   wal_cache_ok Z B fs (snd (forEachWALEntry Z M B fs c paths fn s))"
proof (induction paths arbitrary: c s)
  case (Cons path paths)
  then show ?case using forEach_ok [OF Cons.prems, of M path fn s]
    by (auto simp: walk_append split: prod.split bool.split)
qed simp

definition grows :: "filesys \<Rightarrow> filesys \<Rightarrow> bool" where
  "grows fs fs' \<longleftrightarrow> (\<forall>i. \<exists>x. contents fs' i = contents fs i @ x)"

fun append_only :: "(filesys \<times> string list \<times> string list) list \<Rightarrow> bool" where
  "append_only ((fs, q) # (fs', q') # qs) \<longleftrightarrow> grows fs fs' \<and> append_only ((fs', q') # qs)"
| "append_only _ \<longleftrightarrow> True"

lemma wal_cache_okD: "wal_cache_ok Z B fs c \<Longrightarrow> 0 < B \<Longrightarrow> wused c \<le> B"
  by (simp add: wal_cache_ok_def)

lemma grows_ok:
  assumes "wal_cache_ok Z B fs c" "grows fs fs'"
  shows "wal_cache_ok Z B fs' c"
proof -
  have "file_ok Z fs cf \<Longrightarrow> file_ok Z fs' cf" for cf
    using assms(2) unfolding file_ok_def grows_def by (metis parsed_append)
  then show ?thesis using assms(1) by (auto simp: wal_cache_ok_def list_all_iff)
qed

lemma forgets_ok: "wal_cache_ok Z B fs c \<Longrightarrow> wal_cache_ok Z B fs (fold forget gone c)"
  by (induction gone arbitrary: c) (simp_all add: forget_def remove_ok)

lemma close_empties: "files (close_cache c) = []"
proof -
  have sub: "set (map fst (files (removeLocked p c))) = set (map fst (files c)) - {p}" for p and c :: walCache
    by (auto simp: removeLocked_def Let_def map_of_eq_None_iff image_iff split: option.split)
  have "set (map fst (files (fold removeLocked ps c'))) = set (map fst (files c')) - set ps" for ps c'
    by (induction ps arbitrary: c') (auto simp: sub simp del: set_map)
  from this [of "map fst (files c)" c] show ?thesis by (simp add: close_cache_def)
qed

lemma wal_queries_ok:
  assumes "append_only qs" "qs \<noteq> [] \<Longrightarrow> wal_cache_ok Z B (fst (hd qs)) c" "0 < B \<Longrightarrow> wused c \<le> B"
  shows "fst (wal_queries Z M B fn s c qs) = map (\<lambda>(fs, gone, paths). snd (walk fn (concat (map (wal_entries Z fs) paths)) s)) qs
    \<and> (0 < B \<longrightarrow> wused (snd (wal_queries Z M B fn s c qs)) \<le> B)"
  using assms
proof (induction qs arbitrary: c)
  case (Cons q qs)
  obtain fs gone paths where q: "q = (fs, gone, paths)" by (cases q)
  let ?r = "forEachWALEntry Z M B fs (fold forget gone c) paths fn s"
  have ok: "wal_cache_ok Z B fs c" using Cons.prems(2) q by simp
  note r = forEachWALEntry_ok [OF forgets_ok [OF ok], of M gone paths fn s]
  have "append_only qs" "qs \<noteq> [] \<Longrightarrow> grows fs (fst (hd qs))"
    using Cons.prems(1) q by (cases qs; auto)+
  then have "fst (wal_queries Z M B fn s (snd ?r) qs) = map (\<lambda>(fs, gone, paths). snd (walk fn (concat (map (wal_entries Z fs) paths)) s)) qs
      \<and> (0 < B \<longrightarrow> wused (snd (wal_queries Z M B fn s (snd ?r) qs)) \<le> B)"
    using r by (intro Cons.IH) (auto intro: grows_ok dest: wal_cache_okD)
  then show ?case using r q by (simp add: split_beta)
qed simp

text \<open>
  C20: reading the live logs through the cache is the same as parsing the whole of every log at every query.
  For every history of queries, logs that only grow, files that are created, renamed over or removed between
  queries, and any budgets, each query's callback runs over exactly the entries of the parseable prefix of
  each named file, in order, up to the point where it stops; and the parsed entries kept never exceed the
  byte budget.
\<close>

theorem wal_cache_transparent:
  assumes "append_only qs"
  shows "fst (wal_queries Z M B fn s newWALCache qs)
           = map (\<lambda>(fs, gone, paths). snd (walk fn (concat (map (wal_entries Z fs) paths)) s)) qs
       \<and> (0 < B \<longrightarrow> wused (snd (wal_queries Z M B fn s newWALCache qs)) \<le> B)"
  by (rule wal_queries_ok [OF assms]) (simp_all add: wal_cache_ok_def newWALCache_def accounted_def)

theorem wal_cache_transparent_witness:
  "let fs1 = \<lparr>names = (\<lambda>p. if p = ''wal'' then Some 0 else None), contents = (\<lambda>i. [])\<rparr>;
       fs2 = \<lparr>names = (\<lambda>p. if p = ''wal'' then Some 1 else if p = ''old'' then Some 0 else None), contents = (\<lambda>i. [1, 2])\<rparr>;
       qs = [(fs1, [], [''wal'']), (fs2, [''gone''], [''wal'', ''old''])]
   in append_only qs \<and> length (fst (wal_queries stored_zstd 10 1000 (\<lambda>e (n::nat). (True, n + 1)) 0 newWALCache qs)) = 2
      \<and> wused (snd (wal_queries stored_zstd 10 1000 (\<lambda>e (n::nat). (True, n + 1)) 0 newWALCache qs)) \<le> 1000"
proof -
  let ?fs1 = "\<lparr>names = (\<lambda>p. if p = ''wal'' then Some 0 else None), contents = (\<lambda>i. [])\<rparr>"
  let ?fs2 = "\<lparr>names = (\<lambda>p. if p = ''wal'' then Some 1 else if p = ''old'' then Some 0 else None), contents = (\<lambda>i. [1, 2])\<rparr>"
  let ?qs = "[(?fs1, [], [''wal'']), (?fs2, [''gone''], [''wal'', ''old''])]"
  have "append_only ?qs" by (simp add: grows_def)
  from this wal_cache_transparent [OF this, of stored_zstd 10 1000 "\<lambda>e (n::nat). (True, n + 1)" 0]
  show ?thesis by (simp only: Let_def list.map list.size) simp
qed

end
