(* ===== verification/Top_Heap.thy ===== *)
theory Top_Heap
  imports Prelude "HOL-Library.Multiset" "HOL-Library.Product_Lexorder"
begin

text \<open>
  Keeping the best \<open>n\<close> of a stream: \<open>container/heap\<close> as \<open>rowTopHeap\<close> and \<open>entryTopHeap\<close> of
  \<open>internal/logstore/engine/store.go\<close> use it, with the worst selected element at index zero, and \<open>sort.Slice\<close>.
  Both heaps are ordered by a comparison "comes before"; the interface is the locale \<open>page_order\<close>: a comparison given
  by a key. It shows that the heap selects a best part, that best parts compose (per chunk, per segment, for
  the live logs) and that a page of the sorted best part is the page of everything sorted.
\<close>

section \<open>Heap\<close>

definition parent :: "nat \<Rightarrow> nat" where "parent j = (j - 1) div 2"

definition swap :: "'a list \<Rightarrow> nat \<Rightarrow> nat \<Rightarrow> 'a list" where
  "swap h i j = h[i := h ! j, j := h ! i]"

function heap_up :: "('a \<Rightarrow> 'a \<Rightarrow> bool) \<Rightarrow> 'a list \<Rightarrow> nat \<Rightarrow> 'a list" where
  "heap_up before h j =
     (let i = parent j
      in if i = j \<or> \<not> before (h ! i) (h ! j) then h else heap_up before (swap h i j) i)"
  by pat_completeness auto
termination by (relation "measure (\<lambda>(before, h, j). j)") (auto simp: parent_def)

declare heap_up.simps [simp del]

function heap_down :: "('a \<Rightarrow> 'a \<Rightarrow> bool) \<Rightarrow> 'a list \<Rightarrow> nat \<Rightarrow> nat \<Rightarrow> 'a list \<times> nat" where
  "heap_down before h i n =
     (let j1 = 2 * i + 1
      in if j1 \<ge> n then (h, i)
         else let j2 = j1 + 1;
                  j = (if j2 < n \<and> before (h ! j1) (h ! j2) then j2 else j1)
              in if \<not> before (h ! i) (h ! j) then (h, i) else heap_down before (swap h i j) j n)"
  by pat_completeness auto
termination by (relation "measure (\<lambda>(before, h, i, n). n - i)") (auto simp: Let_def)

declare heap_down.simps [simp del]

definition heap_Push :: "('a \<Rightarrow> 'a \<Rightarrow> bool) \<Rightarrow> 'a list \<Rightarrow> 'a \<Rightarrow> 'a list" where
  "heap_Push before h x = heap_up before (h @ [x]) (length h)"

definition heap_Fix :: "('a \<Rightarrow> 'a \<Rightarrow> bool) \<Rightarrow> 'a list \<Rightarrow> nat \<Rightarrow> 'a list" where
  "heap_Fix before h i =
     (case heap_down before h i (length h) of (h', i') \<Rightarrow> if i' > i then h' else heap_up before h' i)"

text \<open>One candidate of a bounded selection: pushed while there is room, else it replaces a worse root.\<close>

definition offer_top :: "('a \<Rightarrow> 'a \<Rightarrow> bool) \<Rightarrow> nat \<Rightarrow> 'a \<Rightarrow> 'a list \<Rightarrow> 'a list" where
  "offer_top before n x h =
     (if length h < n then heap_Push before h x
      else if before x (h ! 0) then heap_Fix before (h[0 := x]) 0
      else h)"

text \<open>\<open>sort.Slice\<close>: insertion by the comparison. Its order of elements neither of which comes before the other is unspecified.\<close>

fun insert_by :: "('a \<Rightarrow> 'a \<Rightarrow> bool) \<Rightarrow> 'a \<Rightarrow> 'a list \<Rightarrow> 'a list" where
  "insert_by lt x [] = [x]"
| "insert_by lt x (y # ys) = (if lt y x then y # insert_by lt x ys else x # y # ys)"

definition sort_Slice :: "('a \<Rightarrow> 'a \<Rightarrow> bool) \<Rightarrow> 'a list \<Rightarrow> 'a list" where
  "sort_Slice lt xs = foldr (insert_by lt) xs []"

lemma parent_less: "0 < i \<Longrightarrow> parent i < i"
  by (auto simp: parent_def)

section \<open>Selection by a key\<close>

locale page_order =
  fixes before :: "'a \<Rightarrow> 'a \<Rightarrow> bool" and key :: "'a \<Rightarrow> 'k :: linorder"
  assumes before_iff: "before a b \<longleftrightarrow> key a < key b"
begin

definition heap :: "'a list \<Rightarrow> bool" where
  "heap h \<longleftrightarrow> (\<forall>i. 0 < i \<and> i < length h \<longrightarrow> key (h ! i) \<le> key (h ! parent i))"

lemma heap_root:
  assumes "heap h" "i < length h"
  shows "key (h ! i) \<le> key (h ! 0)"
  using assms(2)
proof (induction i rule: less_induct)
  case (less i)
  show ?case
  proof (cases "i = 0")
    case False
    then have "parent i < i" by (auto simp: parent_def)
    then show ?thesis using less False assms(1) unfolding heap_def by (meson dual_order.trans less_trans not_gr_zero)
  qed simp
qed

lemma length_swap [simp]: "length (swap h i j) = length h"
  by (simp add: swap_def)

lemma mset_swap_eq: "i < length h \<Longrightarrow> j < length h \<Longrightarrow> mset (swap h i j) = mset h"
  by (simp add: swap_def mset_swap)

lemma nth_swap: "i < length h \<Longrightarrow> j < length h \<Longrightarrow> swap h i j ! k = (if k = j then h ! i else if k = i then h ! j else h ! k)"
  by (auto simp: swap_def nth_list_update)

text \<open>A heap but for the place \<open>j\<close>, which may be larger than its parent.\<close>

definition heap_but_up :: "'a list \<Rightarrow> nat \<Rightarrow> bool" where
  "heap_but_up h j \<longleftrightarrow> (\<forall>i. 0 < i \<and> i < length h \<longrightarrow>
     (i \<noteq> j \<longrightarrow> key (h ! i) \<le> key (h ! parent i)) \<and> (parent i = j \<and> 0 < j \<longrightarrow> key (h ! i) \<le> key (h ! parent j)))"


lemma heap_up_ok: "heap_but_up h j \<Longrightarrow> j < length h \<Longrightarrow> heap (heap_up before h j) \<and> mset (heap_up before h j) = mset h"
proof (induction j arbitrary: h rule: less_induct)
  case (less j)
  let ?i = "parent j"
  show ?case
  proof (cases "?i = j \<or> \<not> before (h ! ?i) (h ! j)")
    case True
    then have "heap h" using less.prems(1) by (auto simp: heap_def heap_but_up_def before_iff parent_def)
    then show ?thesis using True by (subst (1 2) heap_up.simps) (simp add: Let_def)
  next
    case False
    then have j: "0 < j" "?i < j" by (auto simp: parent_def)
    have lt: "key (h ! ?i) < key (h ! j)" using False by (simp add: before_iff)
    let ?h = "swap h ?i j"
    have n: "?h ! k = (if k = j then h ! ?i else if k = ?i then h ! j else h ! k)" for k
      using j less.prems(2) by (intro nth_swap) auto
    have up: "key (h ! k) \<le> key (h ! parent k)" if "0 < k" "k < length h" "k \<noteq> j" for k
      using less.prems(1) that by (simp add: heap_but_up_def)
    have over: "key (h ! k) \<le> key (h ! ?i)" if "k < length h" "0 < k" "parent k = j" for k
      using less.prems(1) that j by (simp add: heap_but_up_def)
    have "heap_but_up ?h ?i"
      unfolding heap_but_up_def
    proof (intro allI impI conjI)
      fix k assume k: "0 < k \<and> k < length ?h" and "k \<noteq> ?i"
      then show "key (?h ! k) \<le> key (?h ! parent k)"
        using up [of k] over [of k] lt j by (cases "k = j"; cases "parent k = j"; cases "parent k = ?i") (auto simp: n intro: less_imp_le)
    next
      fix k assume k: "0 < k \<and> k < length ?h" and p: "parent k = ?i \<and> 0 < ?i"
      have pp: "parent ?i < ?i" using p parent_less by blast
      have "key (h ! ?i) \<le> key (h ! parent ?i)" using up [of ?i] p j less.prems(2) by auto
      moreover have "k \<noteq> ?i" using pp p by auto
      ultimately show "key (?h ! k) \<le> key (?h ! parent ?i)"
        using up [of k] k p pp j by (cases "k = j") (auto simp: n)
    qed
    then show ?thesis
      using less.IH [OF j(2), of ?h] less.prems(2) j False mset_swap_eq [of ?i h j]
      by (subst (1 2) heap_up.simps) (simp add: Let_def)
  qed
qed

text \<open>A heap but for the place \<open>i\<close>, which may be smaller than its children.\<close>

definition heap_but_down :: "'a list \<Rightarrow> nat \<Rightarrow> bool" where
  "heap_but_down h i \<longleftrightarrow> (\<forall>k. 0 < k \<and> k < length h \<longrightarrow>
     (parent k \<noteq> i \<longrightarrow> key (h ! k) \<le> key (h ! parent k)) \<and> (parent k = i \<and> 0 < i \<longrightarrow> key (h ! k) \<le> key (h ! parent i)))"

lemma parent_children: "0 < k \<Longrightarrow> parent k = i \<longleftrightarrow> k = 2 * i + 1 \<or> k = 2 * i + 2"
  by (auto simp: parent_def)

lemma heap_down_ok:
  "heap_but_down h i \<Longrightarrow> i < length h \<Longrightarrow>
   heap (fst (heap_down before h i (length h))) \<and> mset (fst (heap_down before h i (length h))) = mset h"
proof (induction "length h - i" arbitrary: h i rule: less_induct)
  case less
  let ?n = "length h" and ?j1 = "2 * i + 1"
  define j where "j = (if ?j1 + 1 < ?n \<and> before (h ! ?j1) (h ! (?j1 + 1)) then ?j1 + 1 else ?j1)"
  have down: "key (h ! k) \<le> key (h ! parent k)" if "0 < k" "k < ?n" "parent k \<noteq> i" for k
    using less.prems(1) that by (simp add: heap_but_down_def)
  have best: "key (h ! k) \<le> key (h ! j)" if "0 < k" "k < ?n" "parent k = i" for k
    using that by (auto simp: parent_children j_def before_iff)
  show ?case
  proof (cases "?j1 \<ge> ?n \<or> \<not> before (h ! i) (h ! j)")
    case True
    have "heap h"
      unfolding heap_def
    proof (intro allI impI)
      fix k assume k: "0 < k \<and> k < ?n"
      show "key (h ! k) \<le> key (h ! parent k)"
      proof (cases "parent k = i")
        case True
        then have "key (h ! k) \<le> key (h ! j)" "\<not> ?j1 \<ge> ?n" using best [of k] k by (auto simp: parent_children)
        then show ?thesis using \<open>?j1 \<ge> ?n \<or> \<not> before (h ! i) (h ! j)\<close> True by (auto simp: before_iff)
      qed (use down k in auto)
    qed
    moreover have "heap_down before h i ?n = (h, i)" using True by (subst heap_down.simps) (auto simp: Let_def j_def)
    ultimately show ?thesis by simp
  next
    case False
    then have lt: "key (h ! i) < key (h ! j)" and j: "j < ?n" "parent j = i" "i < j"
      by (auto simp: before_iff j_def parent_def)
    let ?h = "swap h i j"
    have n: "?h ! k = (if k = j then h ! i else if k = i then h ! j else h ! k)" for k
      using j less.prems(2) by (intro nth_swap) auto
    have "heap_but_down ?h j"
      unfolding heap_but_down_def
    proof (intro allI impI conjI)
      fix k assume k: "0 < k \<and> k < length ?h" and p: "parent k \<noteq> j"
      show "key (?h ! k) \<le> key (?h ! parent k)"
      proof (cases "k = i")
        case True
        then have "key (h ! j) \<le> key (h ! parent i)" using less.prems(1) j k by (simp add: heap_but_down_def)
        then show ?thesis using True k p j by (auto simp: n parent_def)
      next
        case False
        then show ?thesis using down [of k] best [of k] k p lt j by (auto simp: n intro: less_imp_le)
      qed
    next
      fix k assume k: "0 < k \<and> k < length ?h" and p: "parent k = j \<and> 0 < j"
      then have "k \<noteq> j" "k \<noteq> i" using j by (auto simp: parent_def)
      then show "key (?h ! k) \<le> key (?h ! parent j)" using down [of k] k p j by (auto simp: n)
    qed
    moreover have "heap_down before h i ?n = heap_down before ?h j ?n"
      using False by (subst heap_down.simps) (auto simp: Let_def j_def)
    moreover have "length ?h - j < ?n - i" using j by auto
    ultimately show ?thesis using less.hyps [of ?h j] j less.prems(2) mset_swap_eq [of i h j] by simp
  qed
qed

lemma Push_ok:
  assumes "heap h"
  shows "heap (heap_Push before h x)" "mset (heap_Push before h x) = add_mset x (mset h)"
proof -
  have "heap_but_up (h @ [x]) (length h)"
    unfolding heap_but_up_def
  proof (intro allI impI conjI)
    fix i assume i: "0 < i \<and> i < length (h @ [x])"
    then have p: "parent i < i" by (simp add: parent_less)
    show "key ((h @ [x]) ! i) \<le> key ((h @ [x]) ! parent i)" if "i \<noteq> length h"
      using that i p assms by (simp add: nth_append heap_def)
    show "key ((h @ [x]) ! i) \<le> key ((h @ [x]) ! parent (length h))" if "parent i = length h \<and> 0 < length h"
      using that i p by simp
  qed
  from heap_up_ok [OF this] show "heap (heap_Push before h x)" "mset (heap_Push before h x) = add_mset x (mset h)"
    by (simp_all add: heap_Push_def)
qed

lemma Fix_root_ok:
  assumes "heap h" "h \<noteq> []"
  shows "heap (heap_Fix before (h[0 := x]) 0)" "mset (heap_Fix before (h[0 := x]) 0) = add_mset x (mset h - {#h ! 0#})"
proof -
  let ?h = "h[0 := x]"
  have "heap_but_down ?h 0"
    using assms(1) by (auto simp: heap_but_down_def heap_def)
  from heap_down_ok [OF this] have d: "heap (fst (heap_down before ?h 0 (length ?h)))" "mset (fst (heap_down before ?h 0 (length ?h))) = mset ?h"
    using assms(2) by simp_all
  have up: "heap_up before g 0 = g" for g :: "'a list" by (subst heap_up.simps) (simp add: parent_def)
  have "heap_Fix before ?h 0 = fst (heap_down before ?h 0 (length ?h))"
    by (simp add: heap_Fix_def up split: prod.split)
  then show "heap (heap_Fix before ?h 0)" "mset (heap_Fix before ?h 0) = add_mset x (mset h - {#h ! 0#})"
    using d assms(2) by (simp_all add: mset_update)
qed

text \<open>
  \<open>best n X H\<close>: \<open>H\<close> is a part of \<open>X\<close>, and each element left out has at least \<open>n\<close> elements of \<open>H\<close> that
  come before it: no page of \<open>n\<close> rows can tell \<open>H\<close> from \<open>X\<close>.
\<close>

definition better :: "'a \<Rightarrow> 'a multiset \<Rightarrow> nat" where
  "better x H = size (filter_mset (\<lambda>h. before h x) H)"

definition best :: "nat \<Rightarrow> 'a multiset \<Rightarrow> 'a multiset \<Rightarrow> bool" where
  "best n X H \<longleftrightarrow> H \<subseteq># X \<and> (\<forall>x \<in># X - H. n \<le> better x H)"

lemma better_mono: "H \<subseteq># H' \<Longrightarrow> better x H \<le> better x H'"
  unfolding better_def by (intro size_mset_mono multiset_filter_mono)

lemma best_refl: "best n X X"
  by (simp add: best_def)

lemma best_union:
  assumes "best n X H" "best n Y G"
  shows "best n (X + Y) (H + G)"
proof -
  obtain R S where X: "X = H + R" and Y: "Y = G + S" using assms by (auto simp: best_def mset_subset_eq_exists_conv)
  have "X + Y - (H + G) = R + S" by (simp add: X Y)
  moreover have "better x H \<le> better x (H + G)" "better x G \<le> better x (H + G)" for x by (simp_all add: better_mono)
  moreover have "x \<in># R \<Longrightarrow> n \<le> better x H" "x \<in># S \<Longrightarrow> n \<le> better x G" for x using assms by (simp_all add: best_def X Y)
  ultimately have "x \<in># X + Y - (H + G) \<Longrightarrow> n \<le> better x (H + G)" for x by (metis le_trans union_iff)
  then show ?thesis using X Y by (simp add: best_def)
qed

lemma better_trans:
  assumes "best n X H" "n \<le> better x X"
  shows "n \<le> better x H"
proof (cases "filter_mset (\<lambda>h. before h x) X \<subseteq># H")
  case True
  then have "filter_mset (\<lambda>h. before h x) X \<subseteq># filter_mset (\<lambda>h. before h x) H"
    using multiset_filter_mono [OF True, of "\<lambda>h. before h x"] by (simp add: filter_filter_mset)
  then show ?thesis using assms(2) size_mset_mono unfolding better_def by (metis le_trans)
next
  case False
  then obtain y where y: "count H y < count (filter_mset (\<lambda>h. before h x) X) y" by (auto simp: subseteq_mset_def not_le)
  then have yx: "before y x" and "y \<in># X - H" by (auto simp: in_diff_count split: if_splits)
  then have "n \<le> better y H" using assms(1) by (simp add: best_def)
  moreover have "filter_mset (\<lambda>h. before h y) H \<subseteq># filter_mset (\<lambda>h. before h x) H"
    using yx by (auto simp: before_iff subseteq_mset_def)
  ultimately show ?thesis using size_mset_mono unfolding better_def by (metis le_trans)
qed

lemma best_trans:
  assumes "best n X H" "best n H G"
  shows "best n X G"
proof -
  have "n \<le> better x G" if "x \<in># X - G" for x
  proof (cases "x \<in># X - H")
    case True
    then show ?thesis using assms better_trans by (auto simp: best_def)
  next
    case False
    have "X - G = (X - H) + (H - G)" using assms by (auto simp: best_def subset_mset.diff_add_assoc2 [symmetric] subset_mset.add_diff_inverse)
    then show ?thesis using False that assms(2) by (auto simp: best_def)
  qed
  then show ?thesis using assms by (auto simp: best_def intro: subset_mset.order_trans)
qed

lemma distinct_keys_part:
  assumes "mset H \<subseteq># mset X" "distinct (map key X)"
  shows "distinct (map key H)"
proof -
  obtain R where "mset X = mset (H @ R)" using assms(1) by (metis ex_mset mset_append mset_subset_eq_exists_conv)
  then have "mset (map key X) = mset (map key (H @ R))" by (metis mset_map)
  then show ?thesis using assms(2) mset_eq_imp_distinct_iff by fastforce
qed

text \<open>One candidate keeps the selection a best part.\<close>

lemma best_drop:
  assumes "\<And>h. h \<in># H \<Longrightarrow> before h x" "size H = n"
  shows "best n (add_mset x H) H"
proof -
  have "filter_mset (\<lambda>h. before h x) H = H" using assms(1) by (simp add: filter_mset_eq_conv)
  then show ?thesis using assms(2) by (simp add: best_def better_def)
qed

definition selected :: "nat \<Rightarrow> 'a list \<Rightarrow> 'a list \<Rightarrow> bool" where
  "selected n X h \<longleftrightarrow> heap h \<and> length h = min n (length X) \<and> best n (mset X) (mset h)"

lemma offer_top_ok:
  assumes sel: "selected n X h" and n: "0 < n" and d: "distinct (map key (x # X))"
  shows "selected n (x # X) (offer_top before n x h)"
proof -
  have h: "heap h" "length h = min n (length X)" "best n (mset X) (mset h)" using sel by (simp_all add: selected_def)
  then have sub: "mset h \<subseteq># mset X" by (simp add: best_def)
  then have "set h \<subseteq> set X" by (metis set_mset_mono set_mset_mset)
  then have img: "y \<in> set h \<Longrightarrow> key y \<in> key ` set X" for y by blast
  have "key x \<notin> key ` set X" using d by simp
  then have dh: "distinct (map key h)" "\<And>y. y \<in> set h \<Longrightarrow> key y \<noteq> key x"
    using distinct_keys_part [OF sub] d img by (simp, metis)
  show ?thesis
  proof (cases "length h < n")
    case True
    then have "size (mset h) = size (mset X)" using h(2) by simp
    then have "mset h = mset X" using sub mset_subset_size [of "mset h" "mset X"] by (auto simp: subset_mset.le_less)
    then show ?thesis using True Push_ok [OF h(1), of x] mset_eq_length [of "heap_Push before h x" "x # X"] mset_eq_length [of h X]
      by (simp add: selected_def offer_top_def best_refl)
  next
    case False
    then have len: "length h = n" "n \<le> length X" "h \<noteq> []" using h(2) n by auto
    have root: "key y \<le> key (h ! 0)" if "y \<in> set h" for y using heap_root [OF h(1)] that by (auto simp: in_set_conv_nth)
    have in0: "h ! 0 \<in> set h" using len(3) by (intro nth_mem) simp
    have grow: "best n (add_mset x (mset X)) (add_mset x (mset h))"
      using best_union [OF h(3) best_refl, of "{#x#}"] by simp
    show ?thesis
    proof (cases "before x (h ! 0)")
      case True
      let ?g = "heap_Fix before (h[0 := x]) 0"
      note fix' = Fix_root_ok [OF h(1) len(3), of x]
      have H: "add_mset (h ! 0) (mset ?g) = add_mset x (mset h)" using fix'(2) in0 by simp
      have "before y (h ! 0)" if "y \<in># mset ?g" for y
      proof -
        obtain a t where a: "h = a # t" using len(3) by (cases h) auto
        moreover have "y \<in># add_mset x (mset h - {#h ! 0#})" using that unfolding fix'(2) .
        ultimately have "y = x \<or> y \<in> set t" by simp
        moreover have "key y \<noteq> key a" if "y \<in> set t" using dh(1) that a by (auto simp: rev_image_eqI)
        ultimately show ?thesis using True root [of y] a by (auto simp: before_iff order_less_le)
      qed
      moreover have "size (mset ?g) = n" using fix'(2) len in0 n by (simp add: size_Diff_singleton)
      ultimately have "best n (add_mset x (mset h)) (mset ?g)" using best_drop [of "mset ?g" "h ! 0" n] H by simp
      then have "best n (mset (x # X)) (mset ?g)" using best_trans [OF grow] by simp
      then show ?thesis using True False fix'(1) \<open>size (mset ?g) = n\<close> len by (simp add: selected_def offer_top_def)
    next
      case worse: False
      have "before y x" if "y \<in># mset h" for y
        using root [of y] worse dh(2) [of y] that by (auto simp: before_iff)
      then have "best n (add_mset x (mset h)) (mset h)" using best_drop [of "mset h" x n] len by simp
      then have "best n (mset (x # X)) (mset h)" using best_trans [OF grow] by simp
      then show ?thesis using worse False h(1) len by (simp add: selected_def offer_top_def)
    qed
  qed
qed

lemma select_top:
  assumes "0 < n" "distinct (map key xs)"
  shows "selected n (rev xs) (fold (offer_top before n) xs [])"
  using assms(2)
proof (induction xs rule: rev_induct)
  case Nil
  show ?case by (simp add: selected_def heap_def best_def)
next
  case (snoc x xs)
  then show ?case using offer_top_ok [OF _ assms(1), of "rev xs" "fold (offer_top before n) xs []" x] by (auto simp: rev_map [symmetric])
qed

lemma select_best:
  assumes "0 < n" "distinct (map key xs)"
  shows "best n (mset xs) (mset (fold (offer_top before n) xs []))"
  using select_top [OF assms] by (simp add: selected_def)

section \<open>Pages\<close>

lemma insert_by_insort: "insert_by before x ys = insort_key key x ys"
  by (induction ys) (auto simp: before_iff not_le)

lemma sort_Slice_key: "sort_Slice before xs = sort_key key xs"
  unfolding sort_Slice_def sort_key_def by (induction xs) (simp_all add: insert_by_insort)

lemma sort_key_perm: "mset xs = mset ys \<Longrightarrow> distinct (map key xs) \<Longrightarrow> sort_key key xs = sort_key key ys"
  by (intro sort_key_inj_key_eq) (simp_all add: distinct_map)

lemma take_insort:
  "sorted (map key ys) \<Longrightarrow> n \<le> length (filter (\<lambda>y. before y x) ys) \<Longrightarrow> take n (insort_key key x ys) = take n ys"
proof (induction ys arbitrary: n)
  case (Cons y ys)
  show ?case
  proof (cases n)
    case (Suc m)
    show ?thesis
    proof (cases "before y x")
      case True
      then show ?thesis using Cons Suc by (auto simp: before_iff)
    next
      case False
      then have "filter (\<lambda>y. before y x) (y # ys) = []" using Cons.prems(1) by (auto simp: before_iff filter_empty_conv)
      then show ?thesis using Cons.prems(2) Suc by simp
    qed
  qed simp
qed simp

lemma page_of_best:
  assumes b: "best n (mset X) (mset H)" and d: "distinct (map key X)"
  shows "take n (sort_Slice before H) = take n (sort_Slice before X)"
proof -
  obtain R where R: "mset R = mset X - mset H" by (metis ex_mset)
  have X: "mset X = mset (R @ H)" using b R by (simp add: best_def)
  have "\<forall>x \<in> set R. n \<le> better x (mset H)" using b R by (metis best_def set_mset_mset)
  then have "take n (sort_key key (R @ H)) = take n (sort_key key H)"
  proof (induction R)
    case (Cons x R)
    have "n \<le> better x (mset (R @ H))" using Cons.prems better_mono [of "mset H" "mset (R @ H)" x] by (auto intro: le_trans)
    then have "n \<le> length (filter (\<lambda>y. before y x) (sort_key key (R @ H)))"
      by (metis better_def mset_filter mset_sort size_mset)
    from take_insort [OF _ this] show ?case using Cons by simp
  qed simp
  moreover have "sort_key key X = sort_key key (R @ H)" using X d by (rule sort_key_perm)
  ultimately show ?thesis by (simp add: sort_Slice_key)
qed

lemma take_best:
  assumes d: "distinct (map key X)"
  shows "best n (mset X) (mset (take n (sort_Slice before X)))"
proof -
  let ?s = "sort_key key X"
  have split: "mset X = mset (take n ?s) + mset (drop n ?s)" by (metis append_take_drop_id mset_append mset_sort)
  have "n \<le> better x (mset (take n ?s))" if x: "x \<in> set (drop n ?s)" for x
  proof -
    have n: "length (take n ?s) = n" using x by (cases "n \<le> length ?s") auto
    have "distinct (map key (take n ?s @ drop n ?s))" "sorted (map key (take n ?s @ drop n ?s))"
      using d by (simp_all add: distinct_map)
    then have "before y x" if "y \<in> set (take n ?s)" for y
      using x that unfolding before_iff map_append by (fastforce simp: sorted_append order_le_less)
    then have "filter (\<lambda>h. before h x) (take n ?s) = take n ?s" by (simp add: filter_id_conv)
    then have "size (filter_mset (\<lambda>h. before h x) (mset (take n ?s))) = n" using n by (metis mset_filter size_mset)
    then show ?thesis by (simp add: better_def)
  qed
  then show ?thesis using split by (simp add: best_def sort_Slice_key)
qed

end

text \<open>Sorting and a map that preserves the comparison.\<close>

lemma set_insert_by [simp]: "set (insert_by lt x ys) = insert x (set ys)"
  by (induction lt x ys rule: insert_by.induct) auto

lemma set_sort_Slice [simp]: "set (sort_Slice lt xs) = set xs"
  by (induction xs) (simp_all add: sort_Slice_def)

lemma length_insert_by [simp]: "length (insert_by lt x ys) = Suc (length ys)"
  by (induction lt x ys rule: insert_by.induct) auto

lemma length_sort_Slice [simp]: "length (sort_Slice lt xs) = length xs"
  by (induction xs) (simp_all add: sort_Slice_def)

lemma insert_by_map:
  "(\<And>y. y \<in> set ys \<Longrightarrow> lt y x = lt' (f y) (f x)) \<Longrightarrow> map f (insert_by lt x ys) = insert_by lt' (f x) (map f ys)"
  by (induction ys) auto

lemma sort_Slice_map:
  "(\<And>x y. x \<in> set xs \<Longrightarrow> y \<in> set xs \<Longrightarrow> lt x y = lt' (f x) (f y)) \<Longrightarrow> map f (sort_Slice lt xs) = sort_Slice lt' (map f xs)"
proof (induction xs)
  case (Cons x xs)
  then have "map f (sort_Slice lt xs) = sort_Slice lt' (map f xs)" by simp
  moreover have "map f (insert_by lt x (sort_Slice lt xs)) = insert_by lt' (f x) (map f (sort_Slice lt xs))"
    using Cons.prems by (intro insert_by_map) simp
  ultimately show ?case by (simp add: sort_Slice_def)
qed (simp add: sort_Slice_def)

end
