(* ===== verification/Go_Strings.thy ===== *)
theory Go_Strings
  imports Tokenizer
begin

text \<open>
  The functions of the standard library's \<open>strings\<close> package that the queries use, on byte strings, following
  the library's algorithms; the Unicode tables are the record of the tokenizer.
\<close>

section \<open>Case folding\<close>

text \<open>Two ASCII characters that are equal up to case.\<close>

definition ascii_fold :: "nat \<Rightarrow> nat \<Rightarrow> bool" where
  "ascii_fold a b \<longleftrightarrow> a = b \<or> (let lo = min a b; hi = max a b in 65 \<le> lo \<and> lo \<le> 90 \<and> hi = lo + 32)"

text \<open>
  The walk along the folding orbit of \<open>sr\<close>, from \<open>r\<close>, while it is below \<open>tr\<close>. Every step is below \<open>tr\<close>, so
  a walk of more than \<open>tr\<close> steps repeats; \<open>fuel\<close> is \<open>tr + 1\<close>.
\<close>

fun fold_walk :: "unicode \<Rightarrow> nat \<Rightarrow> nat \<Rightarrow> nat \<Rightarrow> nat \<Rightarrow> nat" where
  "fold_walk U 0 sr tr r = r"
| "fold_walk U (Suc fuel) sr tr r = (if r \<noteq> sr \<and> r < tr then fold_walk U fuel sr tr (SimpleFold U r) else r)"

definition rune_fold :: "unicode \<Rightarrow> nat \<Rightarrow> nat \<Rightarrow> bool" where
  "rune_fold U a b \<longleftrightarrow> a = b \<or>
     (let sr = min a b; tr = max a b
      in if tr < 0x80 then ascii_fold sr tr
         else fold_walk U (Suc tr) sr tr (SimpleFold U sr) = tr)"

function fold_runes :: "unicode \<Rightarrow> string \<Rightarrow> string \<Rightarrow> bool" where
  "fold_runes U s t =
     (if s = [] then t = []
      else if t = [] then False
      else let (sr, n) = rune_at s; (tr, m) = rune_at t
           in if rune_fold U tr sr then fold_runes U (drop n s) (drop m t) else False)"
  by pat_completeness auto
termination
proof (relation "measure (\<lambda>(U, s, t). length s)", simp)
  fix U :: unicode and s t :: string and x y sr n tr m
  assume "s \<noteq> []" "x = rune_at s" "(sr, n) = x"
  then have "1 \<le> n" using rune_at_width [of s] by (metis snd_conv)
  with \<open>s \<noteq> []\<close> show "((U, drop n s, drop m t), (U, s, t)) \<in> measure (\<lambda>(U, s, t). length s)" by (cases s) auto
qed

declare fold_runes.simps [simp del]

fun EqualFold :: "unicode \<Rightarrow> string \<Rightarrow> string \<Rightarrow> bool" where
  "EqualFold U (a # s) (b # t) =
     (if of_char a \<ge> (0x80 :: nat) \<or> of_char b \<ge> (0x80 :: nat) then fold_runes U (a # s) (b # t)
      else if ascii_fold (of_char a) (of_char b) then EqualFold U s t
      else False)"
| "EqualFold U s t = (length s = length t)"

lemma rune_fold_refl [simp]: "rune_fold U a a"
  by (simp add: rune_fold_def)

lemma fold_runes_refl: "fold_runes U s s"
proof (induction s rule: measure_induct_rule [of length])
  case (less s)
  show ?case
  proof (cases "s = []")
    case True
    then show ?thesis by (simp add: fold_runes.simps)
  next
    case False
    then have "length (drop (snd (rune_at s)) s) < length s" using rune_at_width [OF False] by (cases s) auto
    then have "fold_runes U (drop (snd (rune_at s)) s) (drop (snd (rune_at s)) s)" by (rule less)
    then show ?thesis using False by (subst fold_runes.simps) (simp add: split_beta)
  qed
qed

lemma EqualFold_refl [simp]: "EqualFold U s s"
  by (induction s) (simp_all add: ascii_fold_def fold_runes_refl)

lemma EqualFold_Nil [simp]: "EqualFold U [] t \<longleftrightarrow> t = []" "EqualFold U s [] \<longleftrightarrow> s = []"
  by (cases s; simp)+

lemma rune_fold_sym: "rune_fold U a b = rune_fold U b a"
  by (simp add: rune_fold_def min.commute [of a] max.commute [of a] eq_commute [of a])

lemma ascii_fold_sym: "ascii_fold a b = ascii_fold b a"
  by (simp add: ascii_fold_def min.commute [of a] max.commute [of a] eq_commute [of a])

lemma fold_runes_sym: "fold_runes U s t = fold_runes U t s"
proof (induction U s t rule: fold_runes.induct)
  case (1 U s t)
  obtain sr n tr m where r: "rune_at s = (sr, n)" "rune_at t = (tr, m)" by (metis surj_pair)
  show ?case
    using "1.IH" [OF _ _ r(1) [symmetric] refl r(2) [symmetric] refl] r rune_fold_sym [of U sr tr]
    by (subst (1 2) fold_runes.simps) auto
qed

lemma EqualFold_sym: "EqualFold U s t = EqualFold U t s"
  by (induction U s t rule: EqualFold.induct) (auto simp: ascii_fold_sym fold_runes_sym)

section \<open>Substrings\<close>

definition HasPrefix :: "string \<Rightarrow> string \<Rightarrow> bool" where
  "HasPrefix s p \<longleftrightarrow> take (length p) s = p"

definition Contains :: "string \<Rightarrow> string \<Rightarrow> bool" where
  "Contains s sub \<longleftrightarrow> list_ex (\<lambda>i. HasPrefix (drop i s) sub) [0..<Suc (length s)]"

text \<open>\<open>strings.Split\<close> at a one-byte separator.\<close>

fun Split :: "string \<Rightarrow> char \<Rightarrow> string list" where
  "Split [] sep = [[]]"
| "Split (c # s) sep = (if c = sep then [] # Split s sep else case Split s sep of w # ws \<Rightarrow> (c # w) # ws | [] \<Rightarrow> [[c]])"

section \<open>Trimming\<close>

definition IsSpace :: "nat \<Rightarrow> bool" where
  "IsSpace r \<longleftrightarrow> r \<in> {0x09, 0x0A, 0x0B, 0x0C, 0x0D, 0x20, 0x85, 0xA0, 0x1680, 0x2028, 0x2029, 0x202F, 0x205F, 0x3000} \<or>
     (0x2000 \<le> r \<and> r \<le> 0x200A)"

function trim_left :: "string \<Rightarrow> string" where
  "trim_left s = (if s = [] then [] else let (r, w) = rune_at s in if IsSpace r then trim_left (drop w s) else s)"
  by pat_completeness auto
termination
proof (relation "measure length", simp)
  fix s :: string and x r w
  assume "s \<noteq> []" "x = rune_at s" "(r, w) = x"
  then have "1 \<le> w" using rune_at_width [of s] by (metis snd_conv)
  with \<open>s \<noteq> []\<close> show "(drop w s, s) \<in> measure length" by (cases s) auto
qed

declare trim_left.simps [simp del]

text \<open>\<open>utf8.DecodeLastRuneInString\<close>: back to the start of the last rune, at most four bytes.\<close>

fun rune_start_back :: "string \<Rightarrow> nat \<Rightarrow> nat \<Rightarrow> nat" where
  "rune_start_back s k 0 = length s - k"
| "rune_start_back s k (Suc n) =
     (let start = length s - k
      in if start = 0 \<or> \<not> cont (of_char (s ! start)) then start else rune_start_back s (Suc k) n)"

definition last_rune :: "string \<Rightarrow> nat \<times> nat" where
  "last_rune s =
     (if s = [] then (RuneError, 0)
      else let r = of_char (last s)
           in if r < 0x80 then (r, 1)
              else let start = rune_start_back s 2 3; (r, w) = rune_at (drop start s)
                   in if start + w = length s then (r, w) else (RuneError, 1))"

lemma last_rune_width: "s \<noteq> [] \<Longrightarrow> 1 \<le> snd (last_rune s)"
proof -
  assume "s \<noteq> []"
  have "rune_start_back s k n < length s" if "0 < k" for k n
    using that \<open>s \<noteq> []\<close> by (induction n arbitrary: k) (auto simp: Let_def)
  from this [of 2 3] have "drop (rune_start_back s 2 3) s \<noteq> []" by (simp only: drop_eq_Nil) linarith
  from rune_at_width [OF this] show ?thesis using \<open>s \<noteq> []\<close> by (auto simp: last_rune_def Let_def split: prod.split)
qed

function trim_right :: "string \<Rightarrow> string" where
  "trim_right s = (if s = [] then [] else let (r, w) = last_rune s in if IsSpace r then trim_right (take (length s - w) s) else s)"
  by pat_completeness auto
termination
proof (relation "measure length", simp)
  fix s :: string and x r w
  assume "s \<noteq> []" "x = last_rune s" "(r, w) = x"
  then have "1 \<le> w" using last_rune_width [of s] by (metis snd_conv)
  with \<open>s \<noteq> []\<close> show "(take (length s - w) s, s) \<in> measure length" by (cases s) auto
qed

declare trim_right.simps [simp del]

definition TrimSpace :: "string \<Rightarrow> string" where
  "TrimSpace s = trim_right (trim_left s)"

end
