(* ===== verification/Query.thy ===== *)
theory Query
  imports Chunk_Row Ids Go_Strings
begin

text \<open>
  The predicates of a log query: \<open>SearchParams\<close>, \<open>matchesParams\<close> and the column filters of
  \<open>internal/logstore/engine/store.go\<close> and \<open>query.go\<close>. An unsealed entry is matched as a whole; a sealed chunk is
  filtered column by column, and only the rows that survive are read. The lemmas show what the column filters
  keep and how that relates to matching whole entries.
\<close>

section \<open>Parameters\<close>

text \<open>The maps of string pairs are association lists with distinct keys. \<open>Start\<close> and \<open>End\<close> are instants.\<close>

record SearchParams =
  pQuery :: string
  pService :: string
  pLevel :: string
  pEnv :: string
  pTraceID :: string
  pRequestID :: string
  pUserID :: string
  pTenantID :: string
  pEventType :: string
  pErrorClass :: string
  pErrorFingerprint :: string
  pSourceFile :: string
  pCommitHash :: string
  pMethod :: string
  pPath :: string
  pHandler :: string
  pMinDurationMs :: int64
  pPositiveDurationOnly :: bool
  pMinSQLCount :: int64
  pNPlusOneOnly :: bool
  pRequestsOnly :: bool
  pMetadataFilter :: "(string \<times> string) list"
  pExclude :: "(string \<times> string) list"
  pStart :: "go_time option"
  pEnd :: "go_time option"
  pSinceID :: int64
  pLimit :: int
  pOffset :: int
  pSortAsc :: bool
  pOmitBody :: bool

text \<open>The zero value of the struct.\<close>

definition no_params :: SearchParams where
  "no_params = \<lparr>pQuery = [], pService = [], pLevel = [], pEnv = [], pTraceID = [], pRequestID = [], pUserID = [], pTenantID = [],
     pEventType = [], pErrorClass = [], pErrorFingerprint = [], pSourceFile = [], pCommitHash = [], pMethod = [], pPath = [],
     pHandler = [], pMinDurationMs = 0, pPositiveDurationOnly = False, pMinSQLCount = 0, pNPlusOneOnly = False,
     pRequestsOnly = False, pMetadataFilter = [], pExclude = [], pStart = None, pEnd = None, pSinceID = 0, pLimit = 0,
     pOffset = 0, pSortAsc = False, pOmitBody = False\<rparr>"

section \<open>Predicates on an entry\<close>

definition isRequestEntry :: "unicode \<Rightarrow> Entry \<Rightarrow> bool" where
  "isRequestEntry U e =
     (if EqualFold U (Kind e) ''request'' \<or> EqualFold U (EventType e) ''http.request'' then True
      else 0 <s DurationMs e \<and> (Method e \<noteq> [] \<or> Path e \<noteq> [] \<or> Handler e \<noteq> []))"

definition handlerMatches :: "unicode \<Rightarrow> string \<Rightarrow> string \<Rightarrow> bool" where
  "handlerMatches U stored want =
     (if EqualFold U stored want then True
      else if CHR ''#'' \<in> set stored then EqualFold U (takeWhile (\<lambda>c. c \<noteq> CHR ''#'') stored) want
      else False)"

definition containsFold :: "unicode \<Rightarrow> string \<Rightarrow> string \<Rightarrow> bool" where
  "containsFold U stored want = Contains (ToLower U stored) (ToLower U want)"

definition messageMatchesQuery :: "unicode \<Rightarrow> string \<Rightarrow> string \<Rightarrow> bool" where
  "messageMatchesQuery U message query =
     (let tokens = TokenizeUnique U query; have' = set (Tokenize U message)
      in if tokens = [] then False else list_all (\<lambda>t. t \<in> have') tokens)"

text \<open>
  \<open>encoding/json\<close> and \<open>fmt.Sprintf("%v")\<close> on a decoded value are parameters; a decoded value is a tree whose
  objects are maps.
\<close>

datatype json = JNull | JBool bool | JNumber string | JString string | JArray "json list" | JObject "(string \<times> json) list"

record jsonlib =
  Unmarshal :: "bytes \<Rightarrow> json option"
  Sprintv :: "json \<Rightarrow> string"

definition entryMetadata :: "jsonlib \<Rightarrow> Entry \<Rightarrow> (string \<times> json) list option" where
  "entryMetadata J e =
     (if Body e = [] then None
      else case Unmarshal J (Body e) of
             Some (JObject body) \<Rightarrow> (case map_of body ''metadata'' of Some (JObject meta) \<Rightarrow> Some meta | _ \<Rightarrow> None)
           | _ \<Rightarrow> None)"

definition matchesMetadata :: "jsonlib \<Rightarrow> Entry \<Rightarrow> (string \<times> string) list \<Rightarrow> bool" where
  "matchesMetadata J e flt =
     (if flt = [] then True
      else case entryMetadata J e of
             None \<Rightarrow> False
           | Some meta \<Rightarrow>
               list_all (\<lambda>(k, want). case map_of meta k of None \<Rightarrow> False | Some got \<Rightarrow> Sprintv J got = want) flt)"

definition dictColumnValue :: "Entry \<Rightarrow> string \<Rightarrow> string" where
  "dictColumnValue e column =
     (if column = ''service'' then Service e
      else if column = ''level'' then Level e
      else if column = ''env'' then Env e
      else if column = ''event_type'' then EventType e
      else [])"

definition scanColumnValue :: "Entry \<Rightarrow> string \<Rightarrow> string option" where
  "scanColumnValue e column =
     (if column = ''error_fingerprint'' then Some (ErrorFingerprint e)
      else if column = ''error_class'' then Some (ErrorClass e)
      else if column = ''user_id'' then Some (UserID e)
      else if column = ''tenant_id'' then Some (TenantID e)
      else if column = ''trace_id'' then Some (TraceID e)
      else if column = ''request_id'' then Some (RequestID e)
      else if column = ''path'' then Some (Path e)
      else if column = ''handler'' then Some (Handler e)
      else if column = ''host'' then Some (Host e)
      else None)"

definition excludableField :: "Entry \<Rightarrow> string \<Rightarrow> string" where
  "excludableField e field =
     (if dictColumnValue e field \<noteq> [] then dictColumnValue e field
      else case scanColumnValue e field of Some v \<Rightarrow> v | None \<Rightarrow> [])"

definition matchesExclude :: "unicode \<Rightarrow> Entry \<Rightarrow> (string \<times> string) list \<Rightarrow> bool" where
  "matchesExclude U e exclude =
     list_all (\<lambda>(field, l). let val = excludableField e field
        in val = [] \<or> list_all (\<lambda>v. let v = TrimSpace v in \<not> (v \<noteq> [] \<and> EqualFold U v val)) (Split l (CHR '',''))) exclude"

definition matchesParams :: "unicode \<Rightarrow> jsonlib \<Rightarrow> Entry \<Rightarrow> SearchParams \<Rightarrow> bool" where
  "matchesParams U J e p =
     (if pService p \<noteq> [] \<and> \<not> EqualFold U (Service e) (pService p) then False
      else if pLevel p \<noteq> [] \<and> \<not> EqualFold U (Level e) (pLevel p) then False
      else if pEnv p \<noteq> [] \<and> Env e \<noteq> [] \<and> \<not> EqualFold U (Env e) (pEnv p) then False
      else if pTraceID p \<noteq> [] \<and> TraceID e \<noteq> pTraceID p then False
      else if pRequestID p \<noteq> [] \<and> RequestID e \<noteq> pRequestID p then False
      else if pUserID p \<noteq> [] \<and> UserID e \<noteq> pUserID p then False
      else if pEventType p \<noteq> [] \<and> \<not> EqualFold U (EventType e) (pEventType p) then False
      else if pErrorClass p \<noteq> [] \<and> \<not> EqualFold U (ErrorClass e) (pErrorClass p) then False
      else if pErrorFingerprint p \<noteq> [] \<and> ErrorFingerprint e \<noteq> pErrorFingerprint p then False
      else if pTenantID p \<noteq> [] \<and> TenantID e \<noteq> pTenantID p then False
      else if pSourceFile p \<noteq> [] \<and> \<not> EqualFold U (SourceFile e) (pSourceFile p) then False
      else if pCommitHash p \<noteq> [] \<and> \<not> EqualFold U (Version e) (pCommitHash p) then False
      else if 0 <s pSinceID p \<and> ID e \<le>s pSinceID p then False
      else if pMethod p \<noteq> [] \<and> \<not> EqualFold U (Method e) (pMethod p) then False
      else if pPath p \<noteq> [] \<and> \<not> Contains (ToLower U (Path e)) (ToLower U (pPath p)) then False
      else if pRequestsOnly p \<and> \<not> isRequestEntry U e then False
      else if pHandler p \<noteq> [] \<and> \<not> handlerMatches U (Handler e) (pHandler p) then False
      else if 0 <s pMinDurationMs p \<and> DurationMs e <s pMinDurationMs p then False
      else if pPositiveDurationOnly p \<and> DurationMs e \<le>s 0 then False
      else if 0 <s pMinSQLCount p \<and> DbCount e <s pMinSQLCount p then False
      else if pNPlusOneOnly p \<and> (NPlusOne e = None \<or> \<not> the (NPlusOne e)) then False
      else if pQuery p \<noteq> [] \<and> \<not> messageMatchesQuery U (Message e) (pQuery p) then False
      else if \<not> matchesMetadata J e (pMetadataFilter p) then False
      else if \<not> matchesExclude U e (pExclude p) then False
      else if (case pStart p of Some t \<Rightarrow> sint (Ts e) < UnixMilli t | None \<Rightarrow> False) then False
      else if (case pEnd p of Some t \<Rightarrow> sint (Ts e) > UnixMilli t | None \<Rightarrow> False) then False
      else True)"

definition needsPostReadFilter :: "SearchParams \<Rightarrow> bool" where
  "needsPostReadFilter p \<longleftrightarrow> pMetadataFilter p \<noteq> [] \<or> pExclude p \<noteq> []"

section \<open>Column filters\<close>

text \<open>
  A scan reads decoded columns, which changes the memo of the scan and the shared cache, and may fail; the
  first failure ends it.
\<close>

type_synonym 'a scan = "chunkColumns \<Rightarrow> 'a res \<times> chunkColumns"

definition sret :: "'a \<Rightarrow> 'a scan" where "sret x c = (Inr x, c)"

definition sbind :: "'a scan \<Rightarrow> ('a \<Rightarrow> 'b scan) \<Rightarrow> 'b scan" where
  "sbind m f c = (case m c of (Inl e, c) \<Rightarrow> (Inl e, c) | (Inr x, c) \<Rightarrow> f x c)"

definition scol :: "string \<Rightarrow> (Column \<Rightarrow> 'a list) \<Rightarrow> col_read \<Rightarrow> string \<Rightarrow> 'a list scan" where
  "scol msg sel read name c = (case read c name of (Inl e, c) \<Rightarrow> (wrapf msg [Q name] (Inl e), c) | (Inr v, c) \<Rightarrow> (Inr (sel v), c))"

definition keepRows :: "nat list \<Rightarrow> (nat \<Rightarrow> bool) \<Rightarrow> nat list" where
  "keepRows rows keep = filter keep rows"

definition getColumnType :: "string \<Rightarrow> ColumnType option" where
  "getColumnType name = map_of Schema name"

definition filterByColumn :: "zstd \<Rightarrow> unicode \<Rightarrow> string \<Rightarrow> string \<Rightarrow> nat list \<Rightarrow> nat list scan" where
  "filterByColumn Z U colName v rows =
     (let keep = (\<lambda>values. sret (filter (\<lambda>row. row < length values \<and>
            (colName = ''env'' \<and> values ! row = [] \<or> EqualFold U (values ! row) v)) rows))
      in if v = [] then sret rows
         else case getColumnType colName of
                Some ColDictBitpack \<Rightarrow> sbind (scol ''read column %s'' strings_of dictBitpack colName) keep
              | Some ColDictZstd \<Rightarrow> sbind (scol ''read column %s'' strings_of (dictZstd Z) colName) keep
              | _ \<Rightarrow> sret rows)"

definition filterBySparseColumn :: "zstd \<Rightarrow> unicode \<Rightarrow> string \<Rightarrow> string \<Rightarrow> nat list \<Rightarrow> nat list scan" where
  "filterBySparseColumn Z U colName v rows =
     (if v = [] then sret rows
      else (\<lambda>c. if \<not> hasColumn c colName then (Inr [], c)
             else sbind (scol ''read sparse column %s'' strings_of (sparseStrings Z) colName)
                    (\<lambda>values. sret (filter (\<lambda>row. row < length values \<and> EqualFold U (values ! row) v) rows)) c))"

text \<open>\<open>now\<close> is the clock, read when there is no upper bound.\<close>

definition filterByTimeRange :: "zstd \<Rightarrow> go_time \<Rightarrow> go_time option \<Rightarrow> go_time option \<Rightarrow> nat list \<Rightarrow> nat list scan" where
  "filterByTimeRange Z now start end' rows =
     sbind (scol ''read ts column for time filter'' int64s_of (zstdInt64 Z) ''ts'')
       (\<lambda>tsValues.
          let startMs = (case start of Some t \<Rightarrow> UnixMilli t | None \<Rightarrow> 0);
              endMs = (case end' of Some t \<Rightarrow> UnixMilli t | None \<Rightarrow> UnixMilli now)
          in sret (filter (\<lambda>row. row < length tsValues \<and>
               startMs \<le> sint (tsValues ! row) \<and> sint (tsValues ! row) \<le> endMs) rows))"

definition str_at :: "string list \<Rightarrow> nat \<Rightarrow> string" where
  "str_at v row = (if row < length v then v ! row else [])"

definition filterRequestRows :: "zstd \<Rightarrow> unicode \<Rightarrow> nat list \<Rightarrow> nat list scan" where
  "filterRequestRows Z U rows =
     sbind (scol ''read kind column'' strings_of (dictZstd Z) ''kind'') (\<lambda>kinds.
     sbind (scol ''read event_type column'' strings_of (sparseStrings Z) ''event_type'') (\<lambda>eventTypes.
     sbind (scol ''read duration_ms column'' opt_int64s_of (sparseInt64 Z) ''duration_ms'') (\<lambda>durations.
     sbind (scol ''read method column'' strings_of (sparseStrings Z) ''method'') (\<lambda>methods.
     sbind (scol ''read path column'' strings_of (sparseStrings Z) ''path'') (\<lambda>paths.
     sbind (scol ''read handler column'' strings_of (sparseStrings Z) ''handler'') (\<lambda>handlers.
       sret (keepRows rows (\<lambda>row.
         if EqualFold U (str_at kinds row) ''request'' \<or> EqualFold U (str_at eventTypes row) ''http.request'' then True
         else if length durations \<le> row \<or> durations ! row = None \<or> the (durations ! row) \<le>s 0 then False
         else str_at methods row \<noteq> [] \<or> str_at paths row \<noteq> [] \<or> str_at handlers row \<noteq> []))))))))"

text \<open>The steps of \<open>applyScalarColumnFilters\<close>: the filters that are set, in order; it returns at the first empty row set.\<close>

definition scalar_str :: "zstd \<Rightarrow> string \<Rightarrow> string \<Rightarrow> (string \<Rightarrow> string \<Rightarrow> bool) \<Rightarrow> nat list \<Rightarrow> nat list scan" where
  "scalar_str Z col v match rows =
     (\<lambda>c. if \<not> hasColumn c col then (Inr [], c)
          else sbind (scol ''read sparse column %s'' strings_of (sparseStrings Z) col)
                 (\<lambda>values. sret (keepRows rows (\<lambda>row. row < length values \<and> match (values ! row) v))) c)"

definition scalar_int :: "zstd \<Rightarrow> string \<Rightarrow> int64 \<Rightarrow> nat list \<Rightarrow> nat list scan" where
  "scalar_int Z col least rows =
     sbind (scol ''read sparse column %s'' opt_int64s_of (sparseInt64 Z) col)
       (\<lambda>values. sret (keepRows rows (\<lambda>row. row < length values \<and> (case values ! row of None \<Rightarrow> False | Some v \<Rightarrow> least \<le>s v))))"

definition scalar_nplusone :: "nat list \<Rightarrow> nat list scan" where
  "scalar_nplusone rows =
     sbind (scol ''read sparse column n_plus_one'' opt_bools_of sparseBool ''n_plus_one'')
       (\<lambda>values. sret (keepRows rows (\<lambda>row. row < length values \<and> (case values ! row of None \<Rightarrow> False | Some b \<Rightarrow> b))))"

definition scalar_since :: "zstd \<Rightarrow> int64 \<Rightarrow> nat list \<Rightarrow> nat list scan" where
  "scalar_since Z since rows =
     sbind (scol ''read id column'' int64s_of (deltaInt64 Z) ''id'')
       (\<lambda>ids. sret (keepRows rows (\<lambda>row. row < length ids \<and> since <s ids ! row)))"

fun run_filters :: "(nat list \<Rightarrow> nat list scan) list \<Rightarrow> nat list \<Rightarrow> nat list scan" where
  "run_filters [] rows = sret rows"
| "run_filters (f # fs) rows = sbind (f rows) (\<lambda>rows. if rows = [] then sret [] else run_filters fs rows)"

definition scalar_filters :: "zstd \<Rightarrow> unicode \<Rightarrow> SearchParams \<Rightarrow> (nat list \<Rightarrow> nat list scan) list" where
  "scalar_filters Z U p =
     concat (map (\<lambda>(col, v, match). if v = [] then [] else [scalar_str Z col v match])
       [(''tenant_id'', pTenantID p, EqualFold U),
        (''source_file'', pSourceFile p, EqualFold U),
        (''version'', pCommitHash p, EqualFold U),
        (''method'', pMethod p, EqualFold U),
        (''path'', pPath p, containsFold U),
        (''handler'', pHandler p, handlerMatches U)]) @
     concat (map (\<lambda>(col, least). if least \<le>s 0 then [] else [scalar_int Z col least])
       [(''duration_ms'', if pPositiveDurationOnly p \<and> pMinDurationMs p \<le>s 0 then 1 else pMinDurationMs p),
        (''db_count'', pMinSQLCount p)]) @
     (if pNPlusOneOnly p then [scalar_nplusone] else []) @
     (if 0 <s pSinceID p then [scalar_since Z (pSinceID p)] else []) @
     (if pRequestsOnly p then [filterRequestRows Z U] else [])"

definition applyScalarColumnFilters :: "zstd \<Rightarrow> unicode \<Rightarrow> SearchParams \<Rightarrow> nat list \<Rightarrow> nat list scan" where
  "applyScalarColumnFilters Z U p rows = run_filters (scalar_filters Z U p) rows"

fun all_filters :: "(nat list \<Rightarrow> nat list scan) list \<Rightarrow> nat list \<Rightarrow> nat list scan" where
  "all_filters [] rows = sret rows"
| "all_filters (f # fs) rows = sbind (f rows) (all_filters fs)"

definition applyColumnFilters :: "zstd \<Rightarrow> unicode \<Rightarrow> go_time \<Rightarrow> SearchParams \<Rightarrow> nat list \<Rightarrow> nat list scan" where
  "applyColumnFilters Z U now p rows =
     all_filters
       ([filterByColumn Z U ''level'' (pLevel p),
         filterByColumn Z U ''service'' (pService p),
         filterByColumn Z U ''env'' (pEnv p),
         filterBySparseColumn Z U ''trace_id'' (pTraceID p),
         filterBySparseColumn Z U ''request_id'' (pRequestID p),
         filterBySparseColumn Z U ''user_id'' (pUserID p),
         filterBySparseColumn Z U ''event_type'' (pEventType p),
         filterBySparseColumn Z U ''error_class'' (pErrorClass p),
         filterBySparseColumn Z U ''error_fingerprint'' (pErrorFingerprint p)] @
        (if pStart p \<noteq> None \<or> pEnd p \<noteq> None then [filterByTimeRange Z now (pStart p) (pEnd p)] else []) @
        [applyScalarColumnFilters Z U p]) rows"

section \<open>What the column filters keep\<close>

text \<open>A scan over a chunk that holds \<open>es\<close> with every column of the schema, and an operation that yields a value on it.\<close>

definition open_scan :: "zstd \<Rightarrow> (string \<Rightarrow> Reader) \<Rightarrow> Entry list \<Rightarrow> chunkColumns \<Rightarrow> bool" where
  "open_scan Z readers es c \<longleftrightarrow> holds Z readers es c \<and> list_all (\<lambda>(n, ty). hasColumn c n) Schema"

definition yields :: "zstd \<Rightarrow> (string \<Rightarrow> Reader) \<Rightarrow> Entry list \<Rightarrow> 'a scan \<Rightarrow> 'a \<Rightarrow> bool" where
  "yields Z readers es m v \<longleftrightarrow> (\<forall>c. open_scan Z readers es c \<longrightarrow> (\<exists>c'. m c = (Inr v, c') \<and> open_scan Z readers es c'))"

lemma yields_ret: "yields Z readers es (sret v) v"
  by (simp add: yields_def sret_def)

lemma yields_bind: "yields Z readers es m v \<Longrightarrow> yields Z readers es (f v) w \<Longrightarrow> yields Z readers es (sbind m f) w"
  unfolding yields_def sbind_def by (metis (no_types, lifting) old.prod.case sum.case(2))

lemma yields_col:
  assumes "map_of Schema n = Some ty" "read = scan_read Z ty"
  shows "yields Z readers es (scol msg sel read n) (sel (column_values es (n, ty)))"
  unfolding yields_def
proof (intro allI impI)
  fix c assume c: "open_scan Z readers es c"
  then have h: "holds Z readers es c" by (simp add: open_scan_def)
  note r = holds_scan [OF h assms(1)]
  have "hasColumn (snd (scan_read Z ty c n)) m = hasColumn c m" for m by (simp add: hasColumn_def scan_read_frame)
  then have "open_scan Z readers es (snd (scan_read Z ty c n))" using c r(2) by (simp add: open_scan_def)
  then show "\<exists>c'. scol msg sel read n c = (Inr (sel (column_values es (n, ty))), c') \<and> open_scan Z readers es c'"
    using r(1) assms(2) by (cases "scan_read Z ty c n") (simp add: scol_def)
qed

lemma yields_has:
  assumes "map_of Schema n \<noteq> None" "yields Z readers es m v"
  shows "yields Z readers es (\<lambda>c. if \<not> hasColumn c n then (Inr [], c) else m c) v"
proof -
  have "open_scan Z readers es c \<Longrightarrow> hasColumn c n" for c
    using assms(1) by (auto simp: open_scan_def list_all_iff dest!: map_of_SomeD)
  then show ?thesis using assms(2) by (simp add: yields_def)
qed

lemma yields_strings:
  assumes "map_of Schema n = Some ty" "read = scan_read Z ty" "string_type ty" "map_of string_fields n = Some f"
  shows "yields Z readers es (scol msg strings_of read n) (map f es)"
  using yields_col [OF assms(1,2), of readers es msg strings_of] string_column [OF assms(3,4), of es] by simp

lemma yields_int64s:
  assumes "map_of Schema n = Some ty" "read = scan_read Z ty" "ty = ColDeltaVarint \<or> ty = ColZstdInt64"
    "map_of int64_fields n = Some f"
  shows "yields Z readers es (scol msg int64s_of read n) (map f es)"
  using yields_col [OF assms(1,2), of readers es msg int64s_of] assms(3,4)
  by (auto simp: column_values_def extractInt64_def)

lemma yields_opt_int64s:
  assumes "map_of Schema n = Some ColSparseInt64" "map_of optional_int64_fields n = Some f"
  shows "yields Z readers es (scol msg opt_int64s_of (sparseInt64 Z) n) (map (\<lambda>e. if 0 <s f e then Some (f e) else None) es)"
  using yields_col [OF assms(1) scan_methods(8), where readers = readers and es = es and msg = msg and sel = opt_int64s_of] assms(2)
  by (simp add: column_values_def extractOptionalInt64_def)

lemma yields_nplusone:
  "yields Z readers es (scol msg opt_bools_of sparseBool ''n_plus_one'') (map NPlusOne es)"
  using yields_col [OF _ scan_methods(9), where n = "''n_plus_one''" and Z = Z and readers = readers and es = es and msg = msg and sel = opt_bools_of]
  by (simp add: column_values_def extractOptionalBool_def Schema_def)

text \<open>A filter that keeps, of rows of the chunk, those whose entry satisfies \<open>P\<close>.\<close>

definition row_filter :: "zstd \<Rightarrow> (string \<Rightarrow> Reader) \<Rightarrow> Entry list \<Rightarrow> (nat list \<Rightarrow> nat list scan) \<Rightarrow> (Entry \<Rightarrow> bool) \<Rightarrow> bool" where
  "row_filter Z readers es f P \<longleftrightarrow>
     (\<forall>rows. list_all (\<lambda>r. r < length es) rows \<longrightarrow> yields Z readers es (f rows) (filter (\<lambda>r. P (es ! r)) rows))"

lemma row_filterI:
  assumes "\<And>rows. list_all (\<lambda>r. r < length es) rows \<Longrightarrow> yields Z readers es (f rows) (filter (K rows) rows)"
    and "\<And>rows r. r < length es \<Longrightarrow> K rows r = P (es ! r)"
  shows "row_filter Z readers es f P"
  unfolding row_filter_def
proof (intro allI impI)
  fix rows assume r: "list_all (\<lambda>r. r < length es) rows"
  have "filter (K rows) rows = filter (\<lambda>r. P (es ! r)) rows" using r assms(2) by (intro filter_cong) (auto simp: list_all_iff)
  then show "yields Z readers es (f rows) (filter (\<lambda>r. P (es ! r)) rows)" using assms(1) [OF r] by simp
qed

lemma row_filterD:
  "row_filter Z readers es f P \<Longrightarrow> list_all (\<lambda>r. r < length es) rows \<Longrightarrow> yields Z readers es (f rows) (filter (\<lambda>r. P (es ! r)) rows)"
  by (simp add: row_filter_def)

lemma all_filters_ok:
  "list_all2 (row_filter Z readers es) fs Ps \<Longrightarrow> row_filter Z readers es (all_filters fs) (\<lambda>e. list_all (\<lambda>P. P e) Ps)"
proof (induction fs Ps rule: list_all2_induct)
  case Nil
  show ?case by (simp add: row_filter_def yields_ret)
next
  case (Cons f fs P Ps)
  show ?case
    unfolding row_filter_def
  proof (intro allI impI)
    fix rows assume r: "list_all (\<lambda>r. r < length es) rows"
    let ?rows = "filter (\<lambda>r. P (es ! r)) rows"
    have r': "list_all (\<lambda>r. r < length es) ?rows" using r by (auto simp: list_all_iff)
    have "yields Z readers es (f rows) ?rows" using Cons.hyps(1) r by (simp add: row_filter_def)
    moreover have "yields Z readers es (all_filters fs ?rows) (filter (\<lambda>r. list_all (\<lambda>P. P (es ! r)) Ps) ?rows)"
      by (rule row_filterD [OF Cons.IH r'])
    ultimately show "yields Z readers es (all_filters (f # fs) rows) (filter (\<lambda>r. list_all (\<lambda>P. P (es ! r)) (P # Ps)) rows)"
      by (simp add: yields_bind conj_commute)
  qed
qed

lemma run_filters_ok:
  "list_all2 (row_filter Z readers es) fs Ps \<Longrightarrow> row_filter Z readers es (run_filters fs) (\<lambda>e. list_all (\<lambda>P. P e) Ps)"
proof (induction fs Ps rule: list_all2_induct)
  case Nil
  show ?case by (simp add: row_filter_def yields_ret)
next
  case (Cons f fs P Ps)
  show ?case
    unfolding row_filter_def
  proof (intro allI impI)
    fix rows assume r: "list_all (\<lambda>r. r < length es) rows"
    let ?rows = "filter (\<lambda>r. P (es ! r)) rows"
    have r': "list_all (\<lambda>r. r < length es) ?rows" using r by (auto simp: list_all_iff)
    have "yields Z readers es (f rows) ?rows" using Cons.hyps(1) r by (simp add: row_filter_def)
    moreover have "yields Z readers es (run_filters fs ?rows) (filter (\<lambda>r. list_all (\<lambda>P. P (es ! r)) Ps) ?rows)"
      by (rule row_filterD [OF Cons.IH r'])
    moreover have "?rows = [] \<Longrightarrow> filter (\<lambda>r. list_all (\<lambda>P. P (es ! r)) (P # Ps)) rows = []" by (auto simp: filter_empty_conv)
    ultimately show "yields Z readers es (run_filters (f # fs) rows) (filter (\<lambda>r. list_all (\<lambda>P. P (es ! r)) (P # Ps)) rows)"
      using yields_ret [of Z readers es "[] :: nat list"] unfolding run_filters.simps
      by (cases "?rows = []") (auto intro!: yields_bind simp: conj_commute)
  qed
qed

lemma dict_filter_ok:
  assumes "map_of Schema n = Some ty" "ty = ColDictBitpack \<or> ty = ColDictZstd" "map_of string_fields n = Some f"
  shows "row_filter Z readers es (filterByColumn Z U n v) (\<lambda>e. v = [] \<or> n = ''env'' \<and> f e = [] \<or> EqualFold U (f e) v)"
proof (cases "v = []")
  case True
  then show ?thesis by (simp add: row_filter_def filterByColumn_def yields_ret)
next
  case False
  show ?thesis
  proof (rule row_filterI)
    show "yields Z readers es (filterByColumn Z U n v rows)
        (filter (\<lambda>row. row < length (map f es) \<and> (n = ''env'' \<and> map f es ! row = [] \<or> EqualFold U (map f es ! row) v)) rows)" for rows
      using assms(2)
    proof
      assume ty: "ty = ColDictBitpack"
      have eq: "filterByColumn Z U n v rows = sbind (scol ''read column %s'' strings_of dictBitpack n)
          (\<lambda>values. sret (filter (\<lambda>row. row < length values \<and> (n = ''env'' \<and> values ! row = [] \<or> EqualFold U (values ! row) v)) rows))"
        using False assms(1) ty by (simp add: filterByColumn_def getColumnType_def)
      show ?thesis
        unfolding eq
        by (intro yields_bind [OF yields_strings [OF assms(1) _ _ assms(3)]] yields_ret) (simp_all add: ty string_type_def scan_methods(3) [symmetric])
    next
      assume ty: "ty = ColDictZstd"
      have eq: "filterByColumn Z U n v rows = sbind (scol ''read column %s'' strings_of (dictZstd Z) n)
          (\<lambda>values. sret (filter (\<lambda>row. row < length values \<and> (n = ''env'' \<and> values ! row = [] \<or> EqualFold U (values ! row) v)) rows))"
        using False assms(1) ty by (simp add: filterByColumn_def getColumnType_def)
      show ?thesis
        unfolding eq
        by (intro yields_bind [OF yields_strings [OF assms(1) _ _ assms(3)]] yields_ret) (simp_all add: ty string_type_def scan_methods(4) [symmetric])
    qed
  qed (simp add: False)
qed

lemma sparse_strings_scan:
  assumes "map_of Schema n = Some ColSparseString \<or> map_of Schema n = Some ColSparseDictZstd" "map_of string_fields n = Some f"
  shows "yields Z readers es (scol msg strings_of (sparseStrings Z) n) (map f es)"
  using assms yields_strings [OF _ scan_methods(6), of n f] yields_strings [OF _ scan_methods(7), of n f]
  by (auto simp: string_type_def)

lemma scalar_str_ok:
  assumes "map_of Schema n = Some ColSparseString \<or> map_of Schema n = Some ColSparseDictZstd" "map_of string_fields n = Some f"
  shows "row_filter Z readers es (scalar_str Z n v match) (\<lambda>e. match (f e) v)"
proof (rule row_filterI)
  show "yields Z readers es (scalar_str Z n v match rows)
      (filter (\<lambda>row. row < length (map f es) \<and> match (map f es ! row) v) rows)" for rows
    unfolding scalar_str_def keepRows_def
    by (intro yields_has yields_bind [OF sparse_strings_scan [OF assms]] yields_ret) (use assms(1) in auto)
qed simp

lemma sparse_filter_ok:
  assumes "map_of Schema n = Some ColSparseString \<or> map_of Schema n = Some ColSparseDictZstd" "map_of string_fields n = Some f"
  shows "row_filter Z readers es (filterBySparseColumn Z U n v) (\<lambda>e. v = [] \<or> EqualFold U (f e) v)"
proof (cases "v = []")
  case True
  then show ?thesis by (simp add: row_filter_def filterBySparseColumn_def yields_ret)
next
  case False
  then have "filterBySparseColumn Z U n v = scalar_str Z n v (EqualFold U)"
    by (simp add: fun_eq_iff filterBySparseColumn_def scalar_str_def keepRows_def)
  then show ?thesis using scalar_str_ok [OF assms, of Z readers es v "EqualFold U"] False by simp
qed

lemma scalar_int_ok:
  assumes "map_of Schema n = Some ColSparseInt64" "map_of optional_int64_fields n = Some f" "0 <s least"
  shows "row_filter Z readers es (scalar_int Z n least) (\<lambda>e. least \<le>s f e)"
proof (rule row_filterI)
  let ?vs = "map (\<lambda>e. if 0 <s f e then Some (f e) else None) es"
  show "yields Z readers es (scalar_int Z n least rows)
      (filter (\<lambda>row. row < length ?vs \<and> (case ?vs ! row of None \<Rightarrow> False | Some v \<Rightarrow> least \<le>s v)) rows)" for rows
    unfolding scalar_int_def keepRows_def by (intro yields_bind [OF yields_opt_int64s [OF assms(1,2)]] yields_ret)
  show "(r < length ?vs \<and> (case ?vs ! r of None \<Rightarrow> False | Some v \<Rightarrow> least \<le>s v)) = (least \<le>s f (es ! r))" if "r < length es" for rows :: "nat list" and r
    using that assms(3) by (auto simp: word_sless_alt word_sle_eq)
qed

lemma scalar_nplusone_ok: "row_filter Z readers es scalar_nplusone (\<lambda>e. NPlusOne e = Some True)"
proof (rule row_filterI)
  show "yields Z readers es (scalar_nplusone rows)
      (filter (\<lambda>row. row < length (map NPlusOne es) \<and> (case map NPlusOne es ! row of None \<Rightarrow> False | Some b \<Rightarrow> b)) rows)" for rows
    unfolding scalar_nplusone_def keepRows_def by (intro yields_bind [OF yields_nplusone] yields_ret)
  show "(r < length (map NPlusOne es) \<and> (case map NPlusOne es ! r of None \<Rightarrow> False | Some b \<Rightarrow> b)) = (NPlusOne (es ! r) = Some True)"
    if "r < length es" for rows :: "nat list" and r
    using that by (auto split: option.split)
qed

lemma ids_scan: "yields Z readers es (scol msg int64s_of (deltaInt64 Z) ''id'') (map ID es)"
  by (rule yields_int64s [OF _ scan_methods(1)]) (simp_all add: Schema_def int64_fields_def)

lemma ts_scan: "yields Z readers es (scol msg int64s_of (zstdInt64 Z) ''ts'') (map Ts es)"
  by (rule yields_int64s [OF _ scan_methods(2)]) (simp_all add: Schema_def int64_fields_def)

lemma scalar_since_ok: "row_filter Z readers es (scalar_since Z since) (\<lambda>e. since <s ID e)"
proof (rule row_filterI)
  show "yields Z readers es (scalar_since Z since rows) (filter (\<lambda>row. row < length (map ID es) \<and> since <s map ID es ! row) rows)" for rows
    unfolding scalar_since_def keepRows_def by (intro yields_bind [OF ids_scan] yields_ret)
qed simp

lemma time_filter_ok:
  "row_filter Z readers es (filterByTimeRange Z now start end') (\<lambda>e.
     (case start of Some t \<Rightarrow> UnixMilli t | None \<Rightarrow> 0) \<le> sint (Ts e) \<and> sint (Ts e) \<le> (case end' of Some t \<Rightarrow> UnixMilli t | None \<Rightarrow> UnixMilli now))"
  (is "row_filter _ _ _ _ (\<lambda>e. ?a \<le> _ \<and> _ \<le> ?b)")
proof (rule row_filterI)
  show "yields Z readers es (filterByTimeRange Z now start end' rows)
      (filter (\<lambda>row. row < length (map Ts es) \<and> ?a \<le> sint (map Ts es ! row) \<and> sint (map Ts es ! row) \<le> ?b) rows)" for rows
    unfolding filterByTimeRange_def Let_def by (intro yields_bind [OF ts_scan] yields_ret)
qed simp

lemma request_filter_ok: "row_filter Z readers es (filterRequestRows Z U) (isRequestEntry U)"
proof (rule row_filterI)
  let ?d = "map (\<lambda>e. if 0 <s DurationMs e then Some (DurationMs e) else None) es"
  let ?keep = "\<lambda>row. if EqualFold U (str_at (map Kind es) row) ''request'' \<or> EqualFold U (str_at (map EventType es) row) ''http.request'' then True
         else if length ?d \<le> row \<or> ?d ! row = None \<or> the (?d ! row) \<le>s 0 then False
         else str_at (map Method es) row \<noteq> [] \<or> str_at (map Path es) row \<noteq> [] \<or> str_at (map Handler es) row \<noteq> []"
  have k: "yields Z readers es (scol msg strings_of (dictZstd Z) ''kind'') (map Kind es)" for msg
    by (rule yields_strings [OF _ scan_methods(4)]) (simp_all add: Schema_def string_fields_def string_type_def)
  have t: "yields Z readers es (scol msg strings_of (sparseStrings Z) ''event_type'') (map EventType es)" for msg
    by (rule sparse_strings_scan) (simp_all add: Schema_def string_fields_def)
  have m: "yields Z readers es (scol msg strings_of (sparseStrings Z) ''method'') (map Method es)" for msg
    by (rule sparse_strings_scan) (simp_all add: Schema_def string_fields_def)
  have p: "yields Z readers es (scol msg strings_of (sparseStrings Z) ''path'') (map Path es)" for msg
    by (rule sparse_strings_scan) (simp_all add: Schema_def string_fields_def)
  have h: "yields Z readers es (scol msg strings_of (sparseStrings Z) ''handler'') (map Handler es)" for msg
    by (rule sparse_strings_scan) (simp_all add: Schema_def string_fields_def)
  have d: "yields Z readers es (scol msg opt_int64s_of (sparseInt64 Z) ''duration_ms'') ?d" for msg
    by (rule yields_opt_int64s) (simp_all add: Schema_def optional_int64_fields_def)
  show "yields Z readers es (filterRequestRows Z U rows) (filter ?keep rows)" for rows
    unfolding filterRequestRows_def keepRows_def
    by (intro yields_bind [OF k] yields_bind [OF t] yields_bind [OF d] yields_bind [OF m] yields_bind [OF p] yields_bind [OF h] yields_ret)
  show "?keep r = isRequestEntry U (es ! r)" if "r < length es" for rows :: "nat list" and r
    using that by (auto simp: isRequestEntry_def str_at_def word_sless_alt word_sle_eq)
qed

text \<open>What the scalar filters, and all column filters together, ask of an entry.\<close>

definition scalar_match :: "unicode \<Rightarrow> SearchParams \<Rightarrow> Entry \<Rightarrow> bool" where
  "scalar_match U p e \<longleftrightarrow>
     (pTenantID p = [] \<or> EqualFold U (TenantID e) (pTenantID p)) \<and>
     (pSourceFile p = [] \<or> EqualFold U (SourceFile e) (pSourceFile p)) \<and>
     (pCommitHash p = [] \<or> EqualFold U (Version e) (pCommitHash p)) \<and>
     (pMethod p = [] \<or> EqualFold U (Method e) (pMethod p)) \<and>
     (pPath p = [] \<or> containsFold U (Path e) (pPath p)) \<and>
     (pHandler p = [] \<or> handlerMatches U (Handler e) (pHandler p)) \<and>
     (pMinDurationMs p \<le>s 0 \<or> pMinDurationMs p \<le>s DurationMs e) \<and>
     (pPositiveDurationOnly p \<longrightarrow> 0 <s DurationMs e) \<and>
     (pMinSQLCount p \<le>s 0 \<or> pMinSQLCount p \<le>s DbCount e) \<and>
     (pNPlusOneOnly p \<longrightarrow> NPlusOne e = Some True) \<and>
     (0 <s pSinceID p \<longrightarrow> pSinceID p <s ID e) \<and>
     (pRequestsOnly p \<longrightarrow> isRequestEntry U e)"

definition column_match :: "unicode \<Rightarrow> go_time \<Rightarrow> SearchParams \<Rightarrow> Entry \<Rightarrow> bool" where
  "column_match U now p e \<longleftrightarrow>
     (pLevel p = [] \<or> EqualFold U (Level e) (pLevel p)) \<and>
     (pService p = [] \<or> EqualFold U (Service e) (pService p)) \<and>
     (pEnv p = [] \<or> Env e = [] \<or> EqualFold U (Env e) (pEnv p)) \<and>
     (pTraceID p = [] \<or> EqualFold U (TraceID e) (pTraceID p)) \<and>
     (pRequestID p = [] \<or> EqualFold U (RequestID e) (pRequestID p)) \<and>
     (pUserID p = [] \<or> EqualFold U (UserID e) (pUserID p)) \<and>
     (pEventType p = [] \<or> EqualFold U (EventType e) (pEventType p)) \<and>
     (pErrorClass p = [] \<or> EqualFold U (ErrorClass e) (pErrorClass p)) \<and>
     (pErrorFingerprint p = [] \<or> EqualFold U (ErrorFingerprint e) (pErrorFingerprint p)) \<and>
     (pStart p = None \<and> pEnd p = None \<or>
       (case pStart p of Some t \<Rightarrow> UnixMilli t | None \<Rightarrow> 0) \<le> sint (Ts e) \<and>
       sint (Ts e) \<le> (case pEnd p of Some t \<Rightarrow> UnixMilli t | None \<Rightarrow> UnixMilli now)) \<and>
     scalar_match U p e"

lemma cond_filter:
  "(\<not> a \<Longrightarrow> row_filter Z readers es f P) \<Longrightarrow> list_all2 (row_filter Z readers es) (if a then [] else [f]) (if a then [] else [P])"
  by simp

lemma if_not_swap: "(if \<not> b then x else y) = (if b then y else x)"
  by simp

lemma scalar_filters_ok: "row_filter Z readers es (applyScalarColumnFilters Z U p) (scalar_match U p)"
proof -
  let ?least = "if pPositiveDurationOnly p \<and> pMinDurationMs p \<le>s 0 then 1 else pMinDurationMs p"
  define Ps where "Ps =
     (if pTenantID p = [] then [] else [\<lambda>e. EqualFold U (TenantID e) (pTenantID p)]) @
     (if pSourceFile p = [] then [] else [\<lambda>e. EqualFold U (SourceFile e) (pSourceFile p)]) @
     (if pCommitHash p = [] then [] else [\<lambda>e. EqualFold U (Version e) (pCommitHash p)]) @
     (if pMethod p = [] then [] else [\<lambda>e. EqualFold U (Method e) (pMethod p)]) @
     (if pPath p = [] then [] else [\<lambda>e. containsFold U (Path e) (pPath p)]) @
     (if pHandler p = [] then [] else [\<lambda>e. handlerMatches U (Handler e) (pHandler p)]) @
     (if ?least \<le>s 0 then [] else [\<lambda>e. ?least \<le>s DurationMs e]) @
     (if pMinSQLCount p \<le>s 0 then [] else [\<lambda>e. pMinSQLCount p \<le>s DbCount e]) @
     (if \<not> pNPlusOneOnly p then [] else [\<lambda>e. NPlusOne e = Some True]) @
     (if \<not> 0 <s pSinceID p then [] else [\<lambda>e. pSinceID p <s ID e]) @
     (if \<not> pRequestsOnly p then [] else [isRequestEntry U])"
  have fs: "scalar_filters Z U p =
     (if pTenantID p = [] then [] else [scalar_str Z ''tenant_id'' (pTenantID p) (EqualFold U)]) @
     (if pSourceFile p = [] then [] else [scalar_str Z ''source_file'' (pSourceFile p) (EqualFold U)]) @
     (if pCommitHash p = [] then [] else [scalar_str Z ''version'' (pCommitHash p) (EqualFold U)]) @
     (if pMethod p = [] then [] else [scalar_str Z ''method'' (pMethod p) (EqualFold U)]) @
     (if pPath p = [] then [] else [scalar_str Z ''path'' (pPath p) (containsFold U)]) @
     (if pHandler p = [] then [] else [scalar_str Z ''handler'' (pHandler p) (handlerMatches U)]) @
     (if ?least \<le>s 0 then [] else [scalar_int Z ''duration_ms'' ?least]) @
     (if pMinSQLCount p \<le>s 0 then [] else [scalar_int Z ''db_count'' (pMinSQLCount p)]) @
     (if \<not> pNPlusOneOnly p then [] else [scalar_nplusone]) @
     (if \<not> 0 <s pSinceID p then [] else [scalar_since Z (pSinceID p)]) @
     (if \<not> pRequestsOnly p then [] else [filterRequestRows Z U])"
    unfolding scalar_filters_def by (simp only: list.map concat.simps prod.case append_assoc append_Nil2 append_Nil if_not_swap)
  note cols = Schema_def string_fields_def optional_int64_fields_def
  have pos: "\<not> w \<le>s 0 \<Longrightarrow> 0 <s w" for w :: int64 by (simp add: word_sless_alt word_sle_eq)
  have "list_all2 (row_filter Z readers es) (scalar_filters Z U p) Ps"
    unfolding fs Ps_def
    by (intro list_all2_appendI cond_filter scalar_str_ok scalar_int_ok scalar_nplusone_ok scalar_since_ok request_filter_ok pos)
      (simp_all add: cols)
  from run_filters_ok [OF this] have "row_filter Z readers es (run_filters (scalar_filters Z U p)) (\<lambda>e. list_all (\<lambda>P. P e) Ps)" .
  moreover have "list_all (\<lambda>P. P e) Ps \<longleftrightarrow> scalar_match U p e" for e
  proof -
    have d: "(?least \<le>s 0 \<or> ?least \<le>s DurationMs e) \<longleftrightarrow>
        (pMinDurationMs p \<le>s 0 \<or> pMinDurationMs p \<le>s DurationMs e) \<and> (pPositiveDurationOnly p \<longrightarrow> 0 <s DurationMs e)"
      by (auto simp: word_sless_alt word_sle_eq)
    have l: "list_all (\<lambda>P. P e) (if a then [] else [P]) \<longleftrightarrow> a \<or> P e" for a and P :: "Entry \<Rightarrow> bool" by simp
    show ?thesis unfolding Ps_def list_all_append l d scalar_match_def by (auto simp: d)
  qed
  ultimately show ?thesis by (simp add: applyScalarColumnFilters_def [abs_def])
qed

lemma column_filters_ok: "row_filter Z readers es (applyColumnFilters Z U now p) (column_match U now p)"
proof -
  let ?R = "row_filter Z readers es"
  let ?time = "\<lambda>e. (case pStart p of Some t \<Rightarrow> UnixMilli t | None \<Rightarrow> 0) \<le> sint (Ts e) \<and>
       sint (Ts e) \<le> (case pEnd p of Some t \<Rightarrow> UnixMilli t | None \<Rightarrow> UnixMilli now)"
  let ?bounded = "pStart p \<noteq> None \<or> pEnd p \<noteq> None"
  note cols = Schema_def string_fields_def
  have dict: "?R (filterByColumn Z U ''level'' (pLevel p)) (\<lambda>e. pLevel p = [] \<or> EqualFold U (Level e) (pLevel p))"
    "?R (filterByColumn Z U ''service'' (pService p)) (\<lambda>e. pService p = [] \<or> EqualFold U (Service e) (pService p))"
    "?R (filterByColumn Z U ''env'' (pEnv p)) (\<lambda>e. pEnv p = [] \<or> Env e = [] \<or> EqualFold U (Env e) (pEnv p))"
    using dict_filter_ok [of "''level''" ColDictBitpack Level] dict_filter_ok [of "''service''" ColDictZstd Service]
      dict_filter_ok [of "''env''" ColDictZstd Env] by (simp_all add: cols)
  have sparse: "?R (filterBySparseColumn Z U ''trace_id'' (pTraceID p)) (\<lambda>e. pTraceID p = [] \<or> EqualFold U (TraceID e) (pTraceID p))"
    "?R (filterBySparseColumn Z U ''request_id'' (pRequestID p)) (\<lambda>e. pRequestID p = [] \<or> EqualFold U (RequestID e) (pRequestID p))"
    "?R (filterBySparseColumn Z U ''user_id'' (pUserID p)) (\<lambda>e. pUserID p = [] \<or> EqualFold U (UserID e) (pUserID p))"
    "?R (filterBySparseColumn Z U ''event_type'' (pEventType p)) (\<lambda>e. pEventType p = [] \<or> EqualFold U (EventType e) (pEventType p))"
    "?R (filterBySparseColumn Z U ''error_class'' (pErrorClass p)) (\<lambda>e. pErrorClass p = [] \<or> EqualFold U (ErrorClass e) (pErrorClass p))"
    "?R (filterBySparseColumn Z U ''error_fingerprint'' (pErrorFingerprint p))
        (\<lambda>e. pErrorFingerprint p = [] \<or> EqualFold U (ErrorFingerprint e) (pErrorFingerprint p))"
    by (rule sparse_filter_ok; simp add: cols)+
  have time: "list_all2 ?R (if ?bounded then [filterByTimeRange Z now (pStart p) (pEnd p)] else []) (if ?bounded then [?time] else [])"
    using time_filter_ok [of Z readers es now "pStart p" "pEnd p"] by simp
  have last: "list_all2 ?R [applyScalarColumnFilters Z U p] [scalar_match U p]" by (simp add: scalar_filters_ok)
  let ?Ps = "[\<lambda>e. pLevel p = [] \<or> EqualFold U (Level e) (pLevel p),
      \<lambda>e. pService p = [] \<or> EqualFold U (Service e) (pService p),
      \<lambda>e. pEnv p = [] \<or> Env e = [] \<or> EqualFold U (Env e) (pEnv p),
      \<lambda>e. pTraceID p = [] \<or> EqualFold U (TraceID e) (pTraceID p),
      \<lambda>e. pRequestID p = [] \<or> EqualFold U (RequestID e) (pRequestID p),
      \<lambda>e. pUserID p = [] \<or> EqualFold U (UserID e) (pUserID p),
      \<lambda>e. pEventType p = [] \<or> EqualFold U (EventType e) (pEventType p),
      \<lambda>e. pErrorClass p = [] \<or> EqualFold U (ErrorClass e) (pErrorClass p),
      \<lambda>e. pErrorFingerprint p = [] \<or> EqualFold U (ErrorFingerprint e) (pErrorFingerprint p)]"
  have "list_all2 ?R
     [filterByColumn Z U ''level'' (pLevel p), filterByColumn Z U ''service'' (pService p), filterByColumn Z U ''env'' (pEnv p),
      filterBySparseColumn Z U ''trace_id'' (pTraceID p), filterBySparseColumn Z U ''request_id'' (pRequestID p),
      filterBySparseColumn Z U ''user_id'' (pUserID p), filterBySparseColumn Z U ''event_type'' (pEventType p),
      filterBySparseColumn Z U ''error_class'' (pErrorClass p), filterBySparseColumn Z U ''error_fingerprint'' (pErrorFingerprint p)] ?Ps"
    using dict sparse by (simp only: list_all2_Cons list_all2_Nil simp_thms)
  from all_filters_ok [OF list_all2_appendI [OF this list_all2_appendI [OF time last]]]
  have "?R (applyColumnFilters Z U now p) (\<lambda>e. list_all (\<lambda>P. P e) (?Ps @ (if ?bounded then [?time] else []) @ [scalar_match U p]))"
    by (simp only: applyColumnFilters_def [abs_def])
  moreover have "list_all (\<lambda>P. P e) (?Ps @ (if ?bounded then [?time] else []) @ [scalar_match U p]) \<longleftrightarrow> column_match U now p e" for e
    unfolding column_match_def by (cases "pStart p"; cases "pEnd p"; simp)
  ultimately show ?thesis by (simp only:)
qed

text \<open>
  Matching a whole entry asks the column filters and more: identifiers must be equal, not only equal up to
  case, and the query, the metadata and the exclusions are decided on the entry.
\<close>

definition ids_exact :: "unicode \<Rightarrow> SearchParams \<Rightarrow> Entry \<Rightarrow> bool" where
  "ids_exact U p e \<longleftrightarrow>
     (pTraceID p \<noteq> [] \<and> EqualFold U (TraceID e) (pTraceID p) \<longrightarrow> TraceID e = pTraceID p) \<and>
     (pRequestID p \<noteq> [] \<and> EqualFold U (RequestID e) (pRequestID p) \<longrightarrow> RequestID e = pRequestID p) \<and>
     (pUserID p \<noteq> [] \<and> EqualFold U (UserID e) (pUserID p) \<longrightarrow> UserID e = pUserID p) \<and>
     (pErrorFingerprint p \<noteq> [] \<and> EqualFold U (ErrorFingerprint e) (pErrorFingerprint p) \<longrightarrow> ErrorFingerprint e = pErrorFingerprint p) \<and>
     (pTenantID p \<noteq> [] \<and> EqualFold U (TenantID e) (pTenantID p) \<longrightarrow> TenantID e = pTenantID p)"

definition query_match :: "unicode \<Rightarrow> SearchParams \<Rightarrow> Entry \<Rightarrow> bool" where
  "query_match U p e \<longleftrightarrow> pQuery p = [] \<or> messageMatchesQuery U (Message e) (pQuery p)"

definition ids_equal :: "SearchParams \<Rightarrow> Entry \<Rightarrow> bool" where
  "ids_equal p e \<longleftrightarrow>
     (pTraceID p = [] \<or> TraceID e = pTraceID p) \<and> (pRequestID p = [] \<or> RequestID e = pRequestID p) \<and>
     (pUserID p = [] \<or> UserID e = pUserID p) \<and> (pErrorFingerprint p = [] \<or> ErrorFingerprint e = pErrorFingerprint p) \<and>
     (pTenantID p = [] \<or> TenantID e = pTenantID p)"

lemma fold_of_eq: "v = [] \<or> x = v \<Longrightarrow> v = [] \<or> EqualFold U x v"
  by auto

lemma if_False_conj: "(if c then False else x) \<longleftrightarrow> \<not> c \<and> x"
  by simp

lemma sless_le: "\<not> (a :: int64) <s b \<longleftrightarrow> b \<le>s a" "\<not> a \<le>s b \<longleftrightarrow> b <s a"
  by (simp_all add: word_sless_alt word_sle_eq not_less not_le)

text \<open>The same conditions, one by one, for a query with both bounds.\<close>

lemma matchesParams_conj:
  assumes "pStart p = Some a" "pEnd p = Some b"
  shows "matchesParams U J e p \<longleftrightarrow>
     (pService p = [] \<or> EqualFold U (Service e) (pService p)) \<and>
     (pLevel p = [] \<or> EqualFold U (Level e) (pLevel p)) \<and>
     (pEnv p = [] \<or> Env e = [] \<or> EqualFold U (Env e) (pEnv p)) \<and>
     ids_equal p e \<and>
     (pEventType p = [] \<or> EqualFold U (EventType e) (pEventType p)) \<and>
     (pErrorClass p = [] \<or> EqualFold U (ErrorClass e) (pErrorClass p)) \<and>
     (pSourceFile p = [] \<or> EqualFold U (SourceFile e) (pSourceFile p)) \<and>
     (pCommitHash p = [] \<or> EqualFold U (Version e) (pCommitHash p)) \<and>
     (0 <s pSinceID p \<longrightarrow> pSinceID p <s ID e) \<and>
     (pMethod p = [] \<or> EqualFold U (Method e) (pMethod p)) \<and>
     (pPath p = [] \<or> containsFold U (Path e) (pPath p)) \<and>
     (pRequestsOnly p \<longrightarrow> isRequestEntry U e) \<and>
     (pHandler p = [] \<or> handlerMatches U (Handler e) (pHandler p)) \<and>
     (pMinDurationMs p \<le>s 0 \<or> pMinDurationMs p \<le>s DurationMs e) \<and>
     (pPositiveDurationOnly p \<longrightarrow> 0 <s DurationMs e) \<and>
     (pMinSQLCount p \<le>s 0 \<or> pMinSQLCount p \<le>s DbCount e) \<and>
     (pNPlusOneOnly p \<longrightarrow> NPlusOne e = Some True) \<and>
     query_match U p e \<and> matchesMetadata J e (pMetadataFilter p) \<and> matchesExclude U e (pExclude p) \<and>
     UnixMilli a \<le> sint (Ts e) \<and> sint (Ts e) \<le> UnixMilli b"
proof -
  have n: "(NPlusOne e = None \<or> \<not> the (NPlusOne e)) \<longleftrightarrow> NPlusOne e \<noteq> Some True" by (cases "NPlusOne e") auto
  show ?thesis
    unfolding matchesParams_def ids_equal_def query_match_def containsFold_def n
    by (simp only: if_False_conj de_Morgan_conj de_Morgan_disj not_not sless_le assms option.case imp_conv_disj not_less if_True if_False simp_thms
        conj_assoc conj_left_commute disj_left_commute)
qed

lemma matchesParams_iff:
  assumes "pStart p = Some a" "pEnd p = Some b"
  shows "matchesParams U J e p \<longleftrightarrow>
     column_match U now p e \<and> ids_equal p e \<and> query_match U p e \<and> matchesMetadata J e (pMetadataFilter p) \<and> matchesExclude U e (pExclude p)"
proof -
  have ids: "ids_equal p e \<longleftrightarrow>
     (pTraceID p = [] \<or> EqualFold U (TraceID e) (pTraceID p)) \<and> (pRequestID p = [] \<or> EqualFold U (RequestID e) (pRequestID p)) \<and>
     (pUserID p = [] \<or> EqualFold U (UserID e) (pUserID p)) \<and> (pErrorFingerprint p = [] \<or> EqualFold U (ErrorFingerprint e) (pErrorFingerprint p)) \<and>
     (pTenantID p = [] \<or> EqualFold U (TenantID e) (pTenantID p)) \<and> ids_equal p e"
    unfolding ids_equal_def by (intro iffI conjI; (elim conjE)?; (assumption | erule fold_of_eq))
  show ?thesis
    unfolding matchesParams_conj [OF assms] column_match_def scalar_match_def assms
    by (subst ids) (simp only: option.case option.distinct simp_thms conj_ac)
qed

end
