(* ===== verification/Seal.thy ===== *)
theory Seal
  imports Scanner Chunk_Reader Index Ids
begin

text \<open>
  Sealing an hour, \<open>internal/logstore/engine/seal.go\<close>: the log is streamed in batches, each batch becomes a
  chunk file and its index, and the metadata of the segment is accumulated on the way. The effect of
  \<open>Seal\<close> on the segment's directory is the sequence of its file operations, so that a crash can fall between
  any two of them.

  Times of the metadata keep the resolution their text has: a second for the time range, a minute for the
  histogram; the calendar text itself and the JSON coding are not modelled. The segment's name is its hour.
\<close>

section \<open>Metadata\<close>

record HBucket =
  hTotal :: nat
  hErrors :: nat

record ChunkMeta =
  cIndex :: nat
  cEntryCount :: nat
  cIDRange :: "int64 \<times> int64"

record MetaCounts =
  ByLevel :: "(string \<times> nat) list"
  ByService :: "(string \<times> nat) list"
  ByServiceError :: "(string \<times> nat) list"

record SegmentMeta =
  mFormatVersion :: nat
  mChunkEntries :: nat
  mSegment :: int
  mChunks :: "ChunkMeta list"
  mEntryCount :: nat
  mIDRange :: "int64 \<times> int64"
  mTimeRange :: "(int \<times> int) option"
  mCounts :: MetaCounts
  mHistogram :: "(int option \<times> HBucket) list"
  mDicts :: "(string \<times> string list) list"

text \<open>A Go map that is updated in place, \<open>m[k] = f(m[k])\<close> with a zero value; the order of keys is immaterial.\<close>

fun alter :: "'k \<Rightarrow> 'v \<Rightarrow> ('v \<Rightarrow> 'v) \<Rightarrow> ('k \<times> 'v) list \<Rightarrow> ('k \<times> 'v) list" where
  "alter k z f [] = [(k, f z)]"
| "alter k z f ((k', v) # m) = (if k = k' then (k, f v) # m else (k', v) # alter k z f m)"

definition at_key :: "'v \<Rightarrow> ('k \<times> 'v) list \<Rightarrow> 'k \<Rightarrow> 'v" where
  "at_key z m k = (case map_of m k of None \<Rightarrow> z | Some v \<Rightarrow> v)"

definition effectiveSealChunkEntries :: "int \<Rightarrow> nat" where
  "effectiveSealChunkEntries SealChunkEntries =
     (if SealChunkEntries < 1 \<or> SealChunkEntries > int chunkSize then chunkSize else nat SealChunkEntries)"

definition isErrorLevel :: "string \<Rightarrow> bool" where
  "isErrorLevel level \<longleftrightarrow> level = ''error'' \<or> level = ''fatal''"

record metaAccumulator =
  ameta :: SegmentMeta
  dictSets :: "(string \<times> string list) list"
  afirst :: "Entry option"
  alast :: Entry
  seen :: nat

definition newMetaAccumulator :: "int \<Rightarrow> int \<Rightarrow> metaAccumulator" where
  "newMetaAccumulator SealChunkEntries segName = \<lparr>
     ameta = \<lparr>mFormatVersion = 2, mChunkEntries = effectiveSealChunkEntries SealChunkEntries, mSegment = segName,
       mChunks = [], mEntryCount = 0, mIDRange = (0, 0), mTimeRange = None,
       mCounts = \<lparr>ByLevel = [], ByService = [], ByServiceError = []\<rparr>, mHistogram = [], mDicts = []\<rparr>,
     dictSets = [(''service'', []), (''level'', []), (''env'', []), (''event_type'', [])],
     afirst = None, alast = zero_entry, seen = 0\<rparr>"

definition set_add :: "string \<Rightarrow> string list \<Rightarrow> string list" where
  "set_add v vs = (if v \<in> set vs then vs else vs @ [v])"

definition count_entry :: "Entry \<Rightarrow> MetaCounts \<Rightarrow> MetaCounts" where
  "count_entry e c =
     (let c = c\<lparr>ByLevel := alter (Level e) 0 Suc (ByLevel c)\<rparr>
      in if Service e \<noteq> [] then
           let c = c\<lparr>ByService := alter (Service e) 0 Suc (ByService c)\<rparr>
           in if isErrorLevel (Level e) then c\<lparr>ByServiceError := alter (Service e) 0 Suc (ByServiceError c)\<rparr> else c
         else c)"

definition bump_bucket :: "string \<Rightarrow> HBucket \<Rightarrow> HBucket" where
  "bump_bucket level b =
     (let b = b\<lparr>hTotal := hTotal b + 1\<rparr> in if isErrorLevel level then b\<lparr>hErrors := hErrors b + 1\<rparr> else b)"

definition add_dicts :: "Entry \<Rightarrow> (string \<times> string list) list \<Rightarrow> (string \<times> string list) list" where
  "add_dicts e d =
     (let d = alter ''level'' [] (set_add (Level e)) d;
          d = (if Service e \<noteq> [] then alter ''service'' [] (set_add (Service e)) d else d);
          d = (if Env e \<noteq> [] then alter ''env'' [] (set_add (Env e)) d else d)
      in if EventType e \<noteq> [] then alter ''event_type'' [] (set_add (EventType e)) d else d)"

text \<open>
  One entry of a batch. \<open>lastMinute\<close> and \<open>minuteKey\<close> live for one batch; the key, the text of a minute in
  the source, is the minute, and \<open>None\<close> is the empty text the variable starts with.
\<close>

definition add_entry :: "Entry \<Rightarrow> (int \<times> int option) \<times> metaAccumulator \<Rightarrow> (int \<times> int option) \<times> metaAccumulator" where
  "add_entry e s = (case s of ((lastMinute, minuteKey), a) \<Rightarrow>
     (let minute = sint (ReceivedAt e) sdiv 60000;
          (lastMinute, minuteKey) = (if minute \<noteq> lastMinute then (minute, Some minute) else (lastMinute, minuteKey));
          m = ameta a
      in ((lastMinute, minuteKey),
          a\<lparr>ameta := m\<lparr>mCounts := count_entry e (mCounts m),
              mHistogram := alter minuteKey \<lparr>hTotal = 0, hErrors = 0\<rparr> (bump_bucket (Level e)) (mHistogram m)\<rparr>,
            dictSets := add_dicts e (dictSets a)\<rparr>)))"

definition acc_add :: "Entry list \<Rightarrow> metaAccumulator \<Rightarrow> metaAccumulator" where
  "acc_add entries a =
     (if entries = [] then a
      else let a = (if afirst a = None then a\<lparr>afirst := Some (hd entries)\<rparr> else a);
               a = a\<lparr>alast := last entries, seen := seen a + length entries\<rparr>
           in snd (fold add_entry entries ((-1, None), a)))"

definition finish :: "metaAccumulator \<Rightarrow> SegmentMeta" where
  "finish a =
     (let m = (ameta a)\<lparr>mEntryCount := seen a\<rparr>;
          m = (case afirst a of
                 None \<Rightarrow> m
               | Some f \<Rightarrow> m\<lparr>mIDRange := (ID f, ID (alast a)),
                   mTimeRange := Some (sint (ReceivedAt f) div 1000, sint (ReceivedAt (alast a)) div 1000)\<rparr>)
      in m\<lparr>mDicts := fold (\<lambda>(name, set) d. alter name [] (\<lambda>_. set) d) (dictSets a) (mDicts m)\<rparr>)"

section \<open>The segment directory\<close>

datatype segfile = ColFile nat | IdxFile nat | MetaFile | MarkerFile | SealingWal | ActiveWal | CorruptWal

datatype content = Bytes bytes | MetaJSON SegmentMeta

type_synonym segdir = "segfile \<Rightarrow> content option"

datatype fileop = Put segfile content | Remove segfile | Rename segfile segfile | SyncDir

fun do_op :: "fileop \<Rightarrow> segdir \<Rightarrow> segdir" where
  "do_op (Put f c) d = d(f \<mapsto> c)"
| "do_op (Remove f) d = d(f := None)"
| "do_op (Rename f g) d = (case d f of None \<Rightarrow> d | Some c \<Rightarrow> d(f := None, g \<mapsto> c))"
| "do_op SyncDir d = d"

definition do_ops :: "fileop list \<Rightarrow> segdir \<Rightarrow> segdir" where
  "do_ops ops d = fold do_op ops d"

definition IsSealComplete :: "segdir \<Rightarrow> bool" where
  "IsSealComplete d \<longleftrightarrow> d MarkerFile \<noteq> None"

text \<open>The chunk files a directory has, below a bound on their number.\<close>

definition CleanIncompleteSeal :: "nat \<Rightarrow> segdir \<Rightarrow> fileop list" where
  "CleanIncompleteSeal n d =
     map (Remove \<circ> ColFile) (filter (\<lambda>i. d (ColFile i) \<noteq> None) [0..<n]) @
     map (Remove \<circ> IdxFile) (filter (\<lambda>i. d (IdxFile i) \<noteq> None) [0..<n]) @
     [Remove MetaFile, Remove MarkerFile]"

section \<open>Sealing\<close>

text \<open>\<open>writeChunk\<close>: the file operations and the metadata with the chunk appended.\<close>

definition writeChunk :: "zstd \<Rightarrow> unicode \<Rightarrow> nat \<Rightarrow> Entry list \<Rightarrow> SegmentMeta \<Rightarrow> fileop list \<times> SegmentMeta res" where
  "writeChunk Z U ci entries m =
     (case chunk_file Z entries of
        Inl e \<Rightarrow> ([], wrapf ''write chunk %d columns'' [D (int ci)] (Inl e))
      | Inr f \<Rightarrow>
          ([Put (ColFile ci) (Bytes f), Put (IdxFile ci) (Bytes (IndexWrite Z (build_index U (map Message entries)) (length entries)))],
           Inr (m\<lparr>mChunks := mChunks m @ [\<lparr>cIndex = ci, cEntryCount = length entries, cIDRange = (ID (hd entries), ID (last entries))\<rparr>]\<rparr>)))"

text \<open>
  The loop over the scanner. It returns the file operations done so far with, after the last batch, the
  accumulator, the number of entries sealed so far and the scanner's error.
\<close>

definition batch_limit :: "nat \<Rightarrow> nat \<Rightarrow> nat" where
  "batch_limit physicalChunkSize sofar = min physicalChunkSize (chunkSize - sofar mod chunkSize)"

function seal_loop ::
  "zstd \<Rightarrow> unicode \<Rightarrow> nat \<Rightarrow> metaAccumulator \<Rightarrow> Scanner \<Rightarrow> nat \<Rightarrow> fileop list \<times> (metaAccumulator \<times> nat \<times> err option) res" where
  "seal_loop Z U physicalChunkSize acc sc sofar =
     (case NextBatch Z sc [] physicalChunkSize (batch_limit physicalChunkSize sofar) of
        Inl e \<Rightarrow> ([], Inl e)
      | Inr (batch, sc) \<Rightarrow>
          if batch = [] then ([], Inr (acc, sofar, serr sc))
          else let acc = acc_add batch acc
               in case writeChunk Z U (length (mChunks (ameta acc))) batch (ameta acc) of
                    (ops, Inl e) \<Rightarrow> (ops, Inl e)
                  | (ops, Inr m) \<Rightarrow>
                      (case seal_loop Z U physicalChunkSize (acc\<lparr>ameta := m\<rparr>) sc (sofar + length batch) of
                         (ops', r) \<Rightarrow> (ops @ ops', r)))"
  by pat_completeness auto
termination
  by (relation "measure (\<lambda>(Z, U, n, acc, sc, sofar). length (rd sc))")
    (auto simp: batch_limit_def dest!: NextBatch_shrinks [rotated 2, rotated])

declare seal_loop.simps [simp del]

text \<open>\<open>Seal\<close> on the log renamed for sealing: the operations in order, and the metadata, none when nothing was sealed.\<close>

definition Seal :: "zstd \<Rightarrow> unicode \<Rightarrow> int \<Rightarrow> int \<Rightarrow> segdir \<Rightarrow> fileop list \<times> SegmentMeta option res" where
  "Seal Z U SealChunkEntries segmentHour d =
     (if IsSealComplete d then ([], Inl (Errorf ''refusing to reseal %s: segment already sealed'' [D segmentHour]))
      else case d SealingWal of
        Some (Bytes w) \<Rightarrow>
          (case seal_loop Z U (effectiveSealChunkEntries SealChunkEntries) (newMetaAccumulator SealChunkEntries segmentHour) (NewScanner w) 0 of
             (ops, Inl e) \<Rightarrow> (ops, Inl e)
           | (ops, Inr (acc, sofar, er)) \<Rightarrow>
               if sofar = 0 then
                 (ops @ (if er \<noteq> None then [Rename SealingWal CorruptWal] else [Remove SealingWal]), Inr None)
               else
                 let m = finish acc
                 in (ops @ [Put MetaFile (MetaJSON m), SyncDir, Put MarkerFile (Bytes (bytes_of_string ''ok'')), SyncDir, Remove SealingWal],
                     Inr (Some m)))
      | _ \<Rightarrow> ([], Inl (Errorf ''open WAL'' [])))"

section \<open>The batches of a log\<close>

text \<open>The chunks an hour is cut into: at most the physical size, and never across a boundary of the id layout.\<close>

function batches :: "nat \<Rightarrow> nat \<Rightarrow> Entry list \<Rightarrow> Entry list list" where
  "batches n sofar es =
     (if es = [] \<or> n = 0 then []
      else let l = batch_limit n sofar in take l es # batches n (sofar + length (take l es)) (drop l es))"
  by pat_completeness auto
termination
proof (relation "measure (\<lambda>(n, sofar, es). length es)", simp)
  fix n sofar :: nat and es :: "Entry list" and l
  assume "\<not> (es = [] \<or> n = 0)" "l = batch_limit n sofar"
  moreover have "0 < chunkSize - sofar mod chunkSize" by (simp add: chunkSize_def)
  ultimately show "((n, sofar + length (take l es), drop l es), n, sofar, es) \<in> measure (\<lambda>(n, sofar, es). length es)"
    by (cases es) (auto simp: batch_limit_def)
qed

declare batches.simps [simp del]

lemma batch_limit_pos: "0 < n \<Longrightarrow> 0 < batch_limit n sofar"
  by (simp add: batch_limit_def chunkSize_def)

lemma batches_Nil [simp]: "batches n sofar [] = []"
  by (simp add: batches.simps)

lemma batches_Cons:
  "es \<noteq> [] \<Longrightarrow> 0 < n \<Longrightarrow>
   batches n sofar es = take (batch_limit n sofar) es # batches n (sofar + length (take (batch_limit n sofar) es)) (drop (batch_limit n sofar) es)"
  by (subst batches.simps) (simp add: Let_def)

lemma concat_batches: "0 < n \<Longrightarrow> concat (batches n sofar es) = es"
proof (induction n sofar es rule: batches.induct)
  case (1 n sofar es)
  then show ?case by (cases "es = []") (simp_all add: batches_Cons)
qed

lemma batches_nonempty: "0 < n \<Longrightarrow> [] \<notin> set (batches n sofar es)"
proof (induction n sofar es rule: batches.induct)
  case (1 n sofar es)
  then show ?case using batch_limit_pos [of n sofar] by (cases "es = []") (auto simp: batches_Cons)
qed

lemma batches_size: "0 < n \<Longrightarrow> list_all (\<lambda>b. length b \<le> n) (batches n sofar es)"
proof (induction n sofar es rule: batches.induct)
  case (1 n sofar es)
  then show ?case by (cases "es = []") (auto simp: batches_Cons batch_limit_def)
qed

section \<open>What the loop does\<close>

definition written_chunk :: "zstd \<Rightarrow> Entry list \<Rightarrow> bytes" where
  "written_chunk Z es = (case chunk_file Z es of Inr f \<Rightarrow> f | Inl _ \<Rightarrow> [])"

definition written_index :: "zstd \<Rightarrow> unicode \<Rightarrow> Entry list \<Rightarrow> bytes" where
  "written_index Z U es = IndexWrite Z (build_index U (map Message es)) (length es)"

lemma chunk_file_written: "chunk_file Z es = Inr (written_chunk Z es)"
  using chunk_file_eq [of Z es] by (auto simp: written_chunk_def)

definition chunk_meta :: "nat \<Rightarrow> Entry list \<Rightarrow> ChunkMeta" where
  "chunk_meta ci es = \<lparr>cIndex = ci, cEntryCount = length es, cIDRange = (ID (hd es), ID (last es))\<rparr>"

definition chunk_ops :: "zstd \<Rightarrow> unicode \<Rightarrow> nat \<Rightarrow> Entry list \<Rightarrow> fileop list" where
  "chunk_ops Z U ci es = [Put (ColFile ci) (Bytes (written_chunk Z es)), Put (IdxFile ci) (Bytes (written_index Z U es))]"

lemma writeChunk_eq: "writeChunk Z U ci es m = (chunk_ops Z U ci es, Inr (m\<lparr>mChunks := mChunks m @ [chunk_meta ci es]\<rparr>))"
  by (simp add: writeChunk_def chunk_file_written chunk_ops_def chunk_meta_def written_index_def)

definition seal_step :: "Entry list \<Rightarrow> metaAccumulator \<Rightarrow> metaAccumulator" where
  "seal_step b acc = (let acc = acc_add b acc; m = ameta acc
     in acc\<lparr>ameta := m\<lparr>mChunks := mChunks m @ [chunk_meta (length (mChunks m)) b]\<rparr>\<rparr>)"

lemma add_entry_chunks: "mChunks (ameta (snd (add_entry e s))) = mChunks (ameta (snd s))"
  by (simp add: add_entry_def Let_def split: prod.split)

lemma fold_add_chunks: "mChunks (ameta (snd (fold add_entry es s))) = mChunks (ameta (snd s))"
  by (induction es arbitrary: s) (simp_all add: add_entry_chunks)

lemma acc_add_chunks [simp]: "mChunks (ameta (acc_add es a)) = mChunks (ameta a)"
  by (simp add: acc_add_def Let_def fold_add_chunks)

fun ops_from :: "zstd \<Rightarrow> unicode \<Rightarrow> nat \<Rightarrow> Entry list list \<Rightarrow> fileop list" where
  "ops_from Z U ci [] = []"
| "ops_from Z U ci (b # bs) = chunk_ops Z U ci b @ ops_from Z U (Suc ci) bs"

lemma seal_loop_spec:
  assumes "0 < n" "read_entries_loop Z sc = (es, f)"
  shows "seal_loop Z U n acc sc sofar =
    (ops_from Z U (length (mChunks (ameta acc))) (batches n sofar es), Inr (fold seal_step (batches n sofar es) acc, sofar + length es, serr f))"
  using assms(2)
proof (induction "length es" arbitrary: es acc sc sofar rule: less_induct)
  case less
  let ?l = "batch_limit n sofar"
  have l: "?l \<le> n" "0 < ?l" using batch_limit_pos [OF assms(1)] by (simp_all add: batch_limit_def)
  show ?case
  proof (cases "es = []")
    case True
    obtain s1 where "Next Z sc = (None, s1)" "f = s1"
      using less.prems True by (cases "Next Z sc"; cases "fst (Next Z sc)") (auto simp: loop_None loop_Some)
    moreover obtain k where "?l = Suc k" using l(2) by (cases ?l) auto
    ultimately have "NextBatch Z sc [] n ?l = Inr ([], f)" using assms(1) by (simp add: NextBatch_def)
    then show ?thesis using True by (subst seal_loop.simps) simp
  next
    case False
    from NextBatch_spec [OF l(1) less.prems] obtain s' where
      nb: "NextBatch Z sc [] n ?l = Inr (take ?l es, s')" and rest: "read_entries_loop Z s' = (drop ?l es, f)" by blast
    have "length (drop ?l es) < length es" using False l(2) by (cases es) auto
    note IH = less.hyps [OF this rest]
    have m: "length (mChunks (ameta (seal_step (take ?l es) acc))) = Suc (length (mChunks (ameta acc)))"
      by (simp add: seal_step_def Let_def)
    have st: "acc_add (take ?l es) acc\<lparr>ameta := (ameta (acc_add (take ?l es) acc))\<lparr>mChunks := mChunks (ameta acc) @ [chunk_meta (length (mChunks (ameta acc))) (take ?l es)]\<rparr>\<rparr>
        = seal_step (take ?l es) acc" by (simp add: seal_step_def Let_def)
    have len: "length (take ?l es) + length (drop ?l es) = length es" by simp
    have "seal_loop Z U n acc sc sofar =
        (case seal_loop Z U n (seal_step (take ?l es) acc) s' (sofar + length (take ?l es)) of
           (ops', r) \<Rightarrow> (chunk_ops Z U (length (mChunks (ameta acc))) (take ?l es) @ ops', r))"
      using nb False l(2) by (subst seal_loop.simps) (simp add: writeChunk_eq st)
    then show ?thesis unfolding IH batches_Cons [OF False assms(1)] using m len by simp
  qed
qed

section \<open>What the metadata say\<close>

lemma at_key_alter [simp]: "at_key z (alter k z f m) k' = (if k' = k then f (at_key z m k) else at_key z m k')"
  by (induction k z f m rule: alter.induct) (auto simp: at_key_def)

lemma alter_distinct [simp]: "distinct (map fst m) \<Longrightarrow> distinct (map fst (alter k z f m))"
proof -
  have "fst ` set (alter k z f m) = insert k (fst ` set m)" for m by (induction k z f m rule: alter.induct) auto
  then show "distinct (map fst m) \<Longrightarrow> distinct (map fst (alter k z f m))" by (induction k z f m rule: alter.induct) auto
qed

definition number :: "(Entry \<Rightarrow> bool) \<Rightarrow> Entry list \<Rightarrow> nat" where
  "number P es = length (filter P es)"

lemma number_append [simp]: "number P (es @ es') = number P es + number P es'"
  by (simp add: number_def)

lemma number_single [simp]: "number P [e] = (if P e then 1 else 0)" "number P [] = 0"
  by (simp_all add: number_def)

definition minute :: "Entry \<Rightarrow> int" where
  "minute e = sint (ReceivedAt e) sdiv 60000"

definition bucket_of :: "Entry list \<Rightarrow> int \<Rightarrow> HBucket" where
  "bucket_of es k = \<lparr>hTotal = number (\<lambda>e. minute e = k) es, hErrors = number (\<lambda>e. minute e = k \<and> isErrorLevel (Level e)) es\<rparr>"

definition dict_field :: "string \<Rightarrow> Entry \<Rightarrow> string" where
  "dict_field name e = (if name = ''service'' then Service e else if name = ''level'' then Level e
     else if name = ''env'' then Env e else if name = ''event_type'' then EventType e else [])"

text \<open>The running totals are those of the entries \<open>es\<close>.\<close>

definition counts_ok :: "MetaCounts \<Rightarrow> Entry list \<Rightarrow> bool" where
  "counts_ok c es \<longleftrightarrow>
     (\<forall>l. at_key 0 (ByLevel c) l = number (\<lambda>e. Level e = l) es) \<and>
     (\<forall>s. at_key 0 (ByService c) s = number (\<lambda>e. Service e = s \<and> s \<noteq> []) es) \<and>
     (\<forall>s. at_key 0 (ByServiceError c) s = number (\<lambda>e. Service e = s \<and> s \<noteq> [] \<and> isErrorLevel (Level e)) es) \<and>
     distinct (map fst (ByLevel c)) \<and> distinct (map fst (ByService c)) \<and> distinct (map fst (ByServiceError c))"

definition dicts_ok :: "(string \<times> string list) list \<Rightarrow> Entry list \<Rightarrow> bool" where
  "dicts_ok d es \<longleftrightarrow> (\<forall>name. set (at_key [] d name) =
     (if name = ''level'' then Level ` set es else dict_field name ` set es - {[]})) \<and>
     map fst d = [''service'', ''level'', ''env'', ''event_type'']"

definition totals_ok :: "metaAccumulator \<Rightarrow> Entry list \<Rightarrow> bool" where
  "totals_ok a es \<longleftrightarrow> counts_ok (mCounts (ameta a)) es \<and> dicts_ok (dictSets a) es \<and>
     (\<forall>k. at_key \<lparr>hTotal = 0, hErrors = 0\<rparr> (mHistogram (ameta a)) (Some k) = bucket_of es k) \<and>
     distinct (map fst (mHistogram (ameta a))) \<and> None \<notin> fst ` set (mHistogram (ameta a))"

lemma count_entry_ok: "counts_ok c es \<Longrightarrow> counts_ok (count_entry e c) (es @ [e])"
  by (auto simp: counts_ok_def count_entry_def Let_def)

lemma alter_keys: "k \<in> fst ` set m \<Longrightarrow> map fst (alter k z f m) = map fst m"
  by (induction k z f m rule: alter.induct) auto

lemma set_add_set [simp]: "set (set_add v vs) = insert v (set vs)"
  by (auto simp: set_add_def)

lemma at_key_add_dicts:
  "at_key [] (add_dicts e d) name =
     (if name = ''level'' \<or> dict_field name e \<noteq> [] then set_add (dict_field name e) (at_key [] d name) else at_key [] d name)"
  by (cases "Service e = []"; cases "Env e = []"; cases "EventType e = []") (simp_all add: add_dicts_def Let_def dict_field_def)

lemma dict_keys_alter:
  assumes "map fst d = [''service'', ''level'', ''env'', ''event_type'']" "n \<in> set [''service'', ''level'', ''env'', ''event_type'']"
  shows "map fst (alter n z f d) = [''service'', ''level'', ''env'', ''event_type'']"
proof -
  have "n \<in> fst ` set d" using assms by (metis set_map)
  from alter_keys [OF this, of z f] show ?thesis using assms(1) by simp
qed

lemma add_dicts_ok:
  assumes "dicts_ok d es"
  shows "dicts_ok (add_dicts e d) (es @ [e])"
proof -
  have "map fst d = [''service'', ''level'', ''env'', ''event_type'']" using assms by (simp add: dicts_ok_def)
  then have "map fst (add_dicts e d) = [''service'', ''level'', ''env'', ''event_type'']"
    by (simp add: add_dicts_def Let_def dict_keys_alter)
  moreover have "set (at_key [] (add_dicts e d) name) =
      (if name = ''level'' then Level ` set (es @ [e]) else dict_field name ` set (es @ [e]) - {[]})" for name
  proof -
    have old: "set (at_key [] d name) = (if name = ''level'' then Level ` set es else dict_field name ` set es - {[]})"
      using assms by (simp add: dicts_ok_def)
    have "dict_field ''level'' e = Level e" by (simp add: dict_field_def)
    then show ?thesis using old by (cases "name = ''level''") (auto simp: at_key_add_dicts)
  qed
  ultimately show ?thesis unfolding dicts_ok_def by (intro conjI allI)
qed

lemma bump_bucket_ok:
  "bump_bucket (Level e) (bucket_of es (minute e)) = bucket_of (es @ [e]) (minute e)" "k \<noteq> minute e \<Longrightarrow> bucket_of (es @ [e]) k = bucket_of es k"
  by (simp_all add: bump_bucket_def bucket_of_def Let_def)

definition received :: "Entry \<Rightarrow> bool" where
  "received e \<longleftrightarrow> 0 \<le> sint (ReceivedAt e)"

definition key_ok :: "int \<times> int option \<Rightarrow> bool" where
  "key_ok s \<longleftrightarrow> s = (-1, None) \<or> (0 \<le> fst s \<and> snd s = Some (fst s))"

lemma received_minute: "received e \<Longrightarrow> 0 \<le> minute e"
  by (simp add: received_def minute_def signed_divide_int_def sgn_if pos_imp_zdiv_nonneg_iff)

lemma add_entry_ok:
  assumes t: "totals_ok a es" and k: "key_ok s" and e: "received e"
  shows "totals_ok (snd (add_entry e (s, a))) (es @ [e]) \<and> key_ok (fst (add_entry e (s, a)))"
proof -
  obtain lm mk where s: "s = (lm, mk)" by fastforce
  have m: "0 \<le> minute e" by (rule received_minute [OF e])
  have key: "(if minute e \<noteq> lm then (minute e, Some (minute e)) else (lm, mk)) = (minute e, Some (minute e))"
    using k m s by (auto simp: key_ok_def)
  have eq: "add_entry e (s, a) = ((minute e, Some (minute e)),
      a\<lparr>ameta := (ameta a)\<lparr>mCounts := count_entry e (mCounts (ameta a)),
          mHistogram := alter (Some (minute e)) \<lparr>hTotal = 0, hErrors = 0\<rparr> (bump_bucket (Level e)) (mHistogram (ameta a))\<rparr>,
        dictSets := add_dicts e (dictSets a)\<rparr>)"
    unfolding add_entry_def s minute_def [symmetric] prod.case Let_def key by simp
  have none: "None \<notin> fst ` set (alter (Some (minute e)) z f h)" if "None \<notin> fst ` set h" for z f and h :: "(int option \<times> HBucket) list"
    using that by (induction "Some (minute e)" z f h rule: alter.induct) auto
  have "at_key \<lparr>hTotal = 0, hErrors = 0\<rparr> (alter (Some (minute e)) \<lparr>hTotal = 0, hErrors = 0\<rparr> (bump_bucket (Level e)) (mHistogram (ameta a))) (Some q)
      = bucket_of (es @ [e]) q" for q
    using t bump_bucket_ok(1) [of e es] bump_bucket_ok(2) [of q e es] by (auto simp: totals_ok_def)
  then show ?thesis
    using t m count_entry_ok add_dicts_ok none by (simp add: eq totals_ok_def key_ok_def)
qed

lemma fold_add_ok:
  "totals_ok a es \<Longrightarrow> key_ok s \<Longrightarrow> list_all received b \<Longrightarrow> totals_ok (snd (fold add_entry b (s, a))) (es @ b)"
proof (induction b arbitrary: s a es)
  case (Cons e b)
  obtain s' a' where r: "add_entry e (s, a) = (s', a')" by fastforce
  have "totals_ok a' (es @ [e])" "key_ok s'" using add_entry_ok [OF Cons.prems(1,2), of e] Cons.prems(3) r by auto
  from Cons.IH [OF this] show ?case using Cons.prems(3) r by simp
qed simp

text \<open>The accumulator after the batches whose entries are \<open>es\<close>.\<close>

definition acc_ok :: "metaAccumulator \<Rightarrow> Entry list \<Rightarrow> bool" where
  "acc_ok a es \<longleftrightarrow> totals_ok a es \<and> seen a = length es \<and> afirst a = (if es = [] then None else Some (hd es)) \<and>
     (es \<noteq> [] \<longrightarrow> alast a = last es) \<and> mDicts (ameta a) = []"

lemma add_entry_frame:
  "seen (snd (add_entry e s)) = seen (snd s)" "afirst (snd (add_entry e s)) = afirst (snd s)" "alast (snd (add_entry e s)) = alast (snd s)"
  "mDicts (ameta (snd (add_entry e s))) = mDicts (ameta (snd s))"
  by (simp_all add: add_entry_def Let_def split: prod.split)

lemma fold_add_frame:
  "seen (snd (fold add_entry b s)) = seen (snd s)" "afirst (snd (fold add_entry b s)) = afirst (snd s)"
  "alast (snd (fold add_entry b s)) = alast (snd s)" "mDicts (ameta (snd (fold add_entry b s))) = mDicts (ameta (snd s))"
  by (induction b arbitrary: s) (simp_all add: add_entry_frame)

lemma totals_frame: "ameta a = ameta a' \<Longrightarrow> dictSets a = dictSets a' \<Longrightarrow> totals_ok a es = totals_ok a' es"
  by (simp add: totals_ok_def)

lemma acc_add_ok:
  assumes a: "acc_ok a es" and b: "list_all received b" "b \<noteq> []"
  shows "acc_ok (acc_add b a) (es @ b)"
proof -
  let ?a1 = "if afirst a = None then a\<lparr>afirst := Some (hd b)\<rparr> else a"
  let ?a2 = "?a1\<lparr>alast := last b, seen := seen ?a1 + length b\<rparr>"
  have eq: "acc_add b a = snd (fold add_entry b ((-1, None), ?a2))" using b(2) by (simp add: acc_add_def Let_def)
  have "totals_ok ?a2 es" using a totals_frame [of ?a2 a es] by (simp add: acc_ok_def split: if_splits)
  then have "totals_ok (acc_add b a) (es @ b)" unfolding eq by (rule fold_add_ok) (simp_all add: key_ok_def b)
  then show ?thesis using a b(2) by (auto simp: acc_ok_def eq fold_add_frame)
qed

lemma seal_step_ok:
  assumes "acc_ok a es" "list_all received b" "b \<noteq> []"
  shows "acc_ok (seal_step b a) (es @ b)"
proof -
  have "totals_ok (seal_step b a) (es @ b) = totals_ok (acc_add b a) (es @ b)" by (simp add: totals_ok_def seal_step_def Let_def)
  then show ?thesis using acc_add_ok [OF assms] by (simp add: acc_ok_def seal_step_def Let_def)
qed

lemma fold_seal_step_ok:
  "acc_ok a es \<Longrightarrow> [] \<notin> set bs \<Longrightarrow> list_all received (concat bs) \<Longrightarrow> acc_ok (fold seal_step bs a) (es @ concat bs)"
proof (induction bs arbitrary: a es)
  case (Cons b bs)
  then have "acc_ok (seal_step b a) (es @ b)" by (intro seal_step_ok) auto
  from Cons.IH [OF this] show ?case using Cons.prems by simp
qed simp

fun metas_from :: "nat \<Rightarrow> Entry list list \<Rightarrow> ChunkMeta list" where
  "metas_from ci [] = []"
| "metas_from ci (b # bs) = chunk_meta ci b # metas_from (Suc ci) bs"

lemma fold_seal_step_chunks:
  "mChunks (ameta (fold seal_step bs a)) = mChunks (ameta a) @ metas_from (length (mChunks (ameta a))) bs"
proof (induction bs arbitrary: a)
  case (Cons b bs)
  have "mChunks (ameta (seal_step b a)) = mChunks (ameta a) @ [chunk_meta (length (mChunks (ameta a))) b]"
    by (simp add: seal_step_def Let_def)
  then show ?case using Cons.IH [of "seal_step b a"] by simp
qed simp

lemma new_acc_ok: "acc_ok (newMetaAccumulator n h) []"
  by (simp add: acc_ok_def totals_ok_def counts_ok_def dicts_ok_def bucket_of_def at_key_def newMetaAccumulator_def)

text \<open>The finished metadata describe exactly the entries \<open>es\<close>, cut into the chunks \<open>bs\<close>.\<close>

definition meta_of :: "SegmentMeta \<Rightarrow> Entry list \<Rightarrow> Entry list list \<Rightarrow> bool" where
  "meta_of m es bs \<longleftrightarrow> mEntryCount m = length es \<and> mChunks m = metas_from 0 bs \<and> counts_ok (mCounts m) es \<and> dicts_ok (mDicts m) es \<and>
     (\<forall>k. at_key \<lparr>hTotal = 0, hErrors = 0\<rparr> (mHistogram m) (Some k) = bucket_of es k) \<and>
     distinct (map fst (mHistogram m)) \<and> None \<notin> fst ` set (mHistogram m) \<and>
     (es \<noteq> [] \<longrightarrow> mIDRange m = (ID (hd es), ID (last es)) \<and>
        mTimeRange m = Some (sint (ReceivedAt (hd es)) div 1000, sint (ReceivedAt (last es)) div 1000))"

lemma alter_fresh: "k \<notin> fst ` set m \<Longrightarrow> alter k z f m = m @ [(k, f z)]"
  by (induction k z f m rule: alter.induct) auto

lemma fold_alter_fresh:
  "distinct (map fst (d @ ds)) \<Longrightarrow> fold (\<lambda>(name, set) d. alter name [] (\<lambda>_. set) d) ds d = d @ ds"
proof (induction ds arbitrary: d)
  case (Cons x ds)
  then show ?case by (cases x) (auto simp: alter_fresh)
qed simp

lemma finish_ok:
  assumes "acc_ok a es" "mChunks (ameta a) = metas_from 0 bs"
  shows "meta_of (finish a) es bs"
proof -
  have "distinct (map fst (dictSets a))" using assms(1) by (simp add: acc_ok_def totals_ok_def dicts_ok_def)
  then have "fold (\<lambda>(name, set) d. alter name [] (\<lambda>_. set) d) (dictSets a) [] = dictSets a"
    using fold_alter_fresh [of "[]" "dictSets a"] by simp
  then show ?thesis using assms by (auto simp: finish_def Let_def meta_of_def acc_ok_def totals_ok_def split: option.split)
qed

section \<open>Sealing as a whole\<close>

definition sealed_meta :: "int \<Rightarrow> int \<Rightarrow> Entry list \<Rightarrow> SegmentMeta" where
  "sealed_meta S hour es = finish (fold seal_step (batches (effectiveSealChunkEntries S) 0 es) (newMetaAccumulator S hour))"

lemma effective_pos: "0 < effectiveSealChunkEntries S"
  by (simp add: effectiveSealChunkEntries_def chunkSize_def)

definition marker :: content where "marker = Bytes (bytes_of_string ''ok'')"

lemma Seal_spec:
  assumes "\<not> IsSealComplete d" "d SealingWal = Some (Bytes w)" "ReadEntries Z w = (es, er)"
  shows "Seal Z U S hour d =
    (if es = [] then ([if er \<noteq> None then Rename SealingWal CorruptWal else Remove SealingWal], Inr None)
     else (ops_from Z U 0 (batches (effectiveSealChunkEntries S) 0 es) @
             [Put MetaFile (MetaJSON (sealed_meta S hour es)), SyncDir, Put MarkerFile marker, SyncDir, Remove SealingWal],
           Inr (Some (sealed_meta S hour es))))"
proof -
  obtain f where r: "read_entries_loop Z (NewScanner w) = (es, f)" "serr f = er"
    using assms(3) by (cases "read_entries_loop Z (NewScanner w)") (simp add: ReadEntries_def ReadEntriesFrom_def)
  have "length (mChunks (ameta (newMetaAccumulator S hour))) = 0" by (simp add: newMetaAccumulator_def)
  with seal_loop_spec [OF effective_pos r(1), of U S "newMetaAccumulator S hour" 0] show ?thesis
    using assms(1,2) r(2) by (auto simp: Seal_def sealed_meta_def marker_def Let_def)
qed

lemma sealed_meta_of:
  assumes "list_all received es"
  shows "meta_of (sealed_meta S hour es) es (batches (effectiveSealChunkEntries S) 0 es)"
proof -
  let ?bs = "batches (effectiveSealChunkEntries S) 0 es"
  note bs = concat_batches [OF effective_pos, of S 0 es] batches_nonempty [OF effective_pos, of S 0 es]
  have "acc_ok (fold seal_step ?bs (newMetaAccumulator S hour)) ([] @ concat ?bs)"
    using assms bs by (intro fold_seal_step_ok new_acc_ok) simp_all
  moreover have "mChunks (ameta (fold seal_step ?bs (newMetaAccumulator S hour))) = metas_from 0 ?bs"
    by (simp add: fold_seal_step_chunks newMetaAccumulator_def)
  ultimately show ?thesis unfolding sealed_meta_def using bs(1) finish_ok by simp
qed

text \<open>A log of one empty record, for the instances below.\<close>

lemma zero_log:
  "ReadEntries stored_zstd (MarshalEntry stored_zstd False zero_entry) = ([wal_normal stored_zstd False zero_entry], None)"
proof -
  have "ReadEntriesFrom stored_zstd (concat (map (MarshalEntry stored_zstd False) [zero_entry]) @ [])
      = ([wal_normal stored_zstd False zero_entry] @ [], length (MarshalEntry stored_zstd False zero_entry) + 0, None)"
    using ReadEntriesFrom_stop [of stored_zstd "[]" "at [] 0"]
    by (subst file_reads_back [OF stored_zstd_lib]) (simp_all add: zero_entry_def MaxBlockBytes_def Next_def ReadFull_def)
  then show ?thesis by (simp add: ReadEntries_def)
qed

section \<open>Property\<close>

text \<open>
  C11: sealing a log with at least one complete record succeeds and leaves a complete segment without a log, whose
  metadata describe exactly the entries of the log. The entry count, the counts by level, by service and of
  errors by service, the minute histogram, the sets of dictionary values, the id range and the time range are
  those of the entries, and the chunk list names the batches in order, which together are the log.
\<close>

theorem seal_metadata_exact:
  assumes "\<not> IsSealComplete d" and "d SealingWal = Some (Bytes w)" and "ReadEntries Z w = (es, er)"
    and "es \<noteq> []" and "list_all received es"
  shows "\<exists>ops m bs. Seal Z U S hour d = (ops, Inr (Some m)) \<and> meta_of m es bs \<and>
    concat bs = es \<and> [] \<notin> set bs \<and> list_all (\<lambda>b. length b \<le> effectiveSealChunkEntries S) bs \<and>
    do_ops ops d MetaFile = Some (MetaJSON m) \<and> do_ops ops d SealingWal = None \<and> IsSealComplete (do_ops ops d)"
proof -
  let ?m = "sealed_meta S hour es" and ?bs = "batches (effectiveSealChunkEntries S) 0 es"
  let ?fin = "[Put MetaFile (MetaJSON ?m), SyncDir, Put MarkerFile marker, SyncDir, Remove SealingWal]"
  have "do_ops (pre @ ?fin) d = (do_ops pre d)(MetaFile \<mapsto> MetaJSON ?m, MarkerFile \<mapsto> marker, SealingWal := None)" for pre
    by (simp add: do_ops_def)
  then show ?thesis
    using Seal_spec [OF assms(1-3), of U S hour] assms(4) sealed_meta_of [OF assms(5)] concat_batches [OF effective_pos, of S 0 es]
      batches_nonempty [OF effective_pos, of S 0 es] batches_size [OF effective_pos, of S 0 es]
    by (intro exI [of _ "ops_from Z U 0 ?bs @ ?fin"] exI [of _ ?m] exI [of _ ?bs]) (simp add: IsSealComplete_def)
qed

theorem seal_metadata_exact_witness:
  "let w = MarshalEntry stored_zstd False zero_entry; e = wal_normal stored_zstd False zero_entry
   in \<exists>ops m bs. Seal stored_zstd ascii_unicode 0 10 [SealingWal \<mapsto> Bytes w] = (ops, Inr (Some m)) \<and>
        meta_of m [e] bs \<and> concat bs = [e]"
proof -
  let ?w = "MarshalEntry stored_zstd False zero_entry" and ?e = "wal_normal stored_zstd False zero_entry"
  have "received ?e" by (simp add: received_def wal_normal_def zero_entry_def)
  with seal_metadata_exact [OF _ _ zero_log, of "[SealingWal \<mapsto> Bytes ?w]" ascii_unicode 0 10] show ?thesis
    by (auto simp: IsSealComplete_def Let_def)
qed

end
