(* ===== verification/Recovery.thy ===== *)
theory Recovery
  imports Seal "HOL-Library.Sublist"
begin

text \<open>
  Crashes during a seal and recovery at the next start: \<open>recoverDir\<close> of
  \<open>internal/logstore/engine/segment.go\<close>. A file is synced by the call that writes it; a change of the directory
  (a file created, removed, renamed) is durable only after the directory has been synced, and a crash keeps
  any part of the changes since.
\<close>

section \<open>Recovery\<close>

definition recoverDir :: "zstd \<Rightarrow> unicode \<Rightarrow> int \<Rightarrow> nat \<Rightarrow> int \<Rightarrow> int \<Rightarrow> segdir \<Rightarrow> fileop list" where
  "recoverDir Z U S n hour currentHour d =
     (if IsSealComplete d then []
      else if hour \<le> 0 then []
      else if d SealingWal \<noteq> None then
        (let c = CleanIncompleteSeal n d in c @ fst (Seal Z U S hour (do_ops c d)))
      else if hour \<ge> currentHour then []
      else if d ActiveWal = None then []
      else (let c = [Rename ActiveWal SealingWal] in c @ fst (Seal Z U S hour (do_ops c d))))"

section \<open>Crashes\<close>

record disk =
  durable :: segdir
  pending :: "fileop list"

definition boot :: "segdir \<Rightarrow> disk" where "boot d = \<lparr>durable = d, pending = []\<rparr>"

fun disk_op :: "fileop \<Rightarrow> disk \<Rightarrow> disk" where
  "disk_op SyncDir k = \<lparr>durable = do_ops (pending k) (durable k), pending = []\<rparr>"
| "disk_op op k = k\<lparr>pending := pending k @ [op]\<rparr>"

definition run :: "fileop list \<Rightarrow> disk \<Rightarrow> disk" where "run ops k = fold disk_op ops k"

definition visible :: "disk \<Rightarrow> segdir" where "visible k = do_ops (pending k) (durable k)"

definition survives :: "disk \<Rightarrow> segdir \<Rightarrow> bool" where
  "survives k d \<longleftrightarrow> (\<exists>kept. subseq kept (pending k) \<and> d = do_ops kept (durable k))"

text \<open>The directories found after any number of starts, each stopped by a crash after any of its operations.\<close>

inductive crash_reach :: "zstd \<Rightarrow> unicode \<Rightarrow> int \<Rightarrow> int \<Rightarrow> int \<Rightarrow> segdir \<Rightarrow> segdir \<Rightarrow> bool"
  for Z U S hour currentHour d0 where
  start: "crash_reach Z U S hour currentHour d0 d0"
| crash: "crash_reach Z U S hour currentHour d0 d'"
    if "crash_reach Z U S hour currentHour d0 d" "ops = recoverDir Z U S n hour currentHour d"
      "survives (run (take j ops) (boot d)) d'"

section \<open>Invariant\<close>

definition sealed :: "zstd \<Rightarrow> unicode \<Rightarrow> int \<Rightarrow> int \<Rightarrow> Entry list \<Rightarrow> segdir \<Rightarrow> bool" where
  "sealed Z U S hour es d \<longleftrightarrow>
     (let bs = batches (effectiveSealChunkEntries S) 0 es
      in d MarkerFile = Some marker \<and> d MetaFile = Some (MetaJSON (sealed_meta S hour es)) \<and>
         (\<forall>i < length bs. d (ColFile i) = Some (Bytes (written_chunk Z (bs ! i))) \<and> d (IdxFile i) = Some (Bytes (written_index Z U (bs ! i)))))"

definition unsealed :: "bytes \<Rightarrow> segdir \<Rightarrow> bool" where
  "unsealed w d \<longleftrightarrow> d MarkerFile = None \<and> (d SealingWal = Some (Bytes w) \<or> d SealingWal = None \<and> d ActiveWal = Some (Bytes w))"

text \<open>Operations that keep the log: they touch neither it nor create the marker.\<close>

fun harmless :: "fileop \<Rightarrow> bool" where
  "harmless (Put f c) \<longleftrightarrow> f \<noteq> MarkerFile \<and> f \<noteq> SealingWal \<and> f \<noteq> ActiveWal"
| "harmless (Remove f) \<longleftrightarrow> f \<noteq> SealingWal \<and> f \<noteq> ActiveWal"
| "harmless _ \<longleftrightarrow> False"

lemma do_ops_simps [simp]: "do_ops [] d = d" "do_ops (op # ops) d = do_ops ops (do_op op d)" "do_ops (ops @ ops') d = do_ops ops' (do_ops ops d)"
  by (simp_all add: do_ops_def)

lemma harmless_unsealed: "list_all harmless ops \<Longrightarrow> unsealed w d \<Longrightarrow> unsealed w (do_ops ops d)"
proof (induction ops arbitrary: d)
  case (Cons op ops)
  have "unsealed w (do_op op d)" using Cons.prems by (cases op) (auto simp: unsealed_def)
  then show ?case using Cons by simp
qed simp

lemma harmless_kept:
  assumes "subseq kept ops" "list_all harmless ops"
  shows "list_all harmless kept"
proof -
  have "op \<in> set ops" if "op \<in> set kept" for op using list_emb_set [OF assms(1) that] by blast
  then show ?thesis using assms(2) by (auto simp: list_all_iff)
qed

lemma chunk_ops_harmless: "list_all harmless (ops_from Z U ci bs)"
  by (induction bs arbitrary: ci) (simp_all add: chunk_ops_def)

lemma clean_harmless: "list_all harmless (CleanIncompleteSeal n d)"
  by (auto simp: CleanIncompleteSeal_def list_all_iff)

lemma run_no_sync: "SyncDir \<notin> set ops \<Longrightarrow> run ops \<lparr>durable = d, pending = p\<rparr> = \<lparr>durable = d, pending = p @ ops\<rparr>"
proof (induction ops arbitrary: p)
  case (Cons op ops)
  then show ?case by (cases op) (simp_all add: run_def)
qed (simp add: run_def)

lemma run_append: "run (ops @ ops') k = run ops' (run ops k)"
  by (simp add: run_def)

lemma survives_none: "survives \<lparr>durable = dd, pending = []\<rparr> d \<longleftrightarrow> d = dd"
  by (auto simp: survives_def dest: list_emb_Nil2)

lemma survives_one: "survives \<lparr>durable = dd, pending = [x]\<rparr> d \<longleftrightarrow> d = dd \<or> d = do_op x dd"
proof -
  have e: "subseq l [] \<longleftrightarrow> l = []" for l :: "fileop list" by (rule iffI, erule list_emb_Nil2, simp)
  have "subseq kept [x] \<longleftrightarrow> kept = [] \<or> kept = [x]" for kept
  proof (cases kept)
    case (Cons a l)
    then show ?thesis by (cases "a = x") (simp_all only: subseq_Cons2_iff if_True if_False e list.inject list.distinct simp_thms)
  qed simp
  then have "survives \<lparr>durable = dd, pending = [x]\<rparr> d \<longleftrightarrow> (\<exists>kept. (kept = [] \<or> kept = [x]) \<and> d = do_ops kept dd)"
    by (simp add: survives_def)
  then show ?thesis by (simp only: conj_disj_distribR ex_disj_distrib simp_thms do_ops_simps)
qed

text \<open>The last five operations of a seal, with the directory made durable before the marker and before the log is removed.\<close>

lemma commit_crash:
  assumes kept: "\<And>kept. subseq kept pre \<Longrightarrow> unsealed w (do_ops kept d)" and nosync: "SyncDir \<notin> set pre"
    and done': "\<And>d'. d' = (do_ops pre d)(MarkerFile \<mapsto> marker) \<Longrightarrow> sealed Z U S hour es d'"
    and s: "survives (run (take j (pre @ [SyncDir, Put MarkerFile marker, SyncDir, Remove SealingWal])) (boot d)) d'"
  shows "unsealed w d' \<or> sealed Z U S hour es d'"
proof (cases "j \<le> length pre")
  case True
  have "SyncDir \<notin> set (take j pre)" using nosync by (meson in_set_takeD)
  then have "run (take j pre) (boot d) = \<lparr>durable = d, pending = take j pre\<rparr>" using run_no_sync by (simp add: boot_def)
  then obtain k where "subseq k (take j pre)" "d' = do_ops k d" using s True by (auto simp: survives_def)
  moreover have "subseq (take j pre) pre" by (intro prefix_imp_subseq take_is_prefix)
  ultimately show ?thesis using kept [of k] subseq_order.order_trans [of k "take j pre" pre] by simp
next
  case False
  let ?D = "do_ops pre d"
  have r: "run pre (boot d) = \<lparr>durable = d, pending = pre\<rparr>" using run_no_sync [OF nosync, of d "[]"] by (simp add: boot_def)
  have D: "unsealed w ?D" using kept by simp
  have m: "sealed Z U S hour es (?D(MarkerFile \<mapsto> marker))" using done' by simp
  have m': "sealed Z U S hour es ((?D(MarkerFile \<mapsto> marker))(SealingWal := None))" using m by (simp add: sealed_def)
  obtain i where i: "j = length pre + Suc i" using False that [of "j - length pre - 1"] by simp
  have t: "take j (pre @ x) = pre @ take (Suc i) x" for x using i by simp
  consider "i = 0" | "i = 1" | "i = 2" | "3 \<le> i" by linarith
  then show ?thesis
  proof cases
    case 1
    then have "run (take j (pre @ [SyncDir, Put MarkerFile marker, SyncDir, Remove SealingWal])) (boot d) = \<lparr>durable = ?D, pending = []\<rparr>"
      unfolding t run_append r by (simp add: run_def)
    then show ?thesis using s D by (simp only: survives_none) blast
  next
    case 2
    then have "run (take j (pre @ [SyncDir, Put MarkerFile marker, SyncDir, Remove SealingWal])) (boot d) = \<lparr>durable = ?D, pending = [Put MarkerFile marker]\<rparr>"
      unfolding t run_append r by (simp add: run_def)
    then show ?thesis using s D m by (simp only: survives_one do_op.simps) blast
  next
    case 3
    then have "run (take j (pre @ [SyncDir, Put MarkerFile marker, SyncDir, Remove SealingWal])) (boot d) = \<lparr>durable = ?D(MarkerFile \<mapsto> marker), pending = []\<rparr>"
      unfolding t run_append r by (simp add: run_def numeral_2_eq_2)
    then show ?thesis using s m by (simp only: survives_none) blast
  next
    case 4
    then have "take (Suc i) [SyncDir, Put MarkerFile marker, SyncDir, Remove SealingWal] = [SyncDir, Put MarkerFile marker, SyncDir, Remove SealingWal]" by simp
    then have "run (take j (pre @ [SyncDir, Put MarkerFile marker, SyncDir, Remove SealingWal])) (boot d)
        = \<lparr>durable = ?D(MarkerFile \<mapsto> marker), pending = [Remove SealingWal]\<rparr>"
      unfolding t run_append r by (simp add: run_def)
    then show ?thesis using s m m' by (simp only: survives_one do_op.simps) blast
  qed
qed

lemma ops_from_other: "(\<forall>i. f \<noteq> ColFile i \<and> f \<noteq> IdxFile i) \<Longrightarrow> do_ops (ops_from Z U ci bs) d f = d f"
  by (induction bs arbitrary: ci d) (simp_all add: chunk_ops_def)

lemma ops_from_files:
  "do_ops (ops_from Z U ci bs) d (ColFile j) =
     (if ci \<le> j \<and> j < ci + length bs then Some (Bytes (written_chunk Z (bs ! (j - ci)))) else d (ColFile j))"
  "do_ops (ops_from Z U ci bs) d (IdxFile j) =
     (if ci \<le> j \<and> j < ci + length bs then Some (Bytes (written_index Z U (bs ! (j - ci)))) else d (IdxFile j))"
proof (induction bs arbitrary: ci d)
  case (Cons b bs)
  {
    case 1
    have "Suc ci \<le> j \<Longrightarrow> (b # bs) ! (j - ci) = bs ! (j - Suc ci)" by (simp add: Suc_diff_le [symmetric] nth_Cons')
    then show ?case using Cons(1) by (cases "j = ci") (simp_all add: chunk_ops_def)
  next
    case 2
    have "Suc ci \<le> j \<Longrightarrow> (b # bs) ! (j - ci) = bs ! (j - Suc ci)" by (simp add: Suc_diff_le [symmetric] nth_Cons')
    then show ?case using Cons(2) by (cases "j = ci") (simp_all add: chunk_ops_def)
  }
qed auto

definition chunks_and_meta :: "zstd \<Rightarrow> unicode \<Rightarrow> int \<Rightarrow> int \<Rightarrow> Entry list \<Rightarrow> fileop list" where
  "chunks_and_meta Z U S hour es =
     ops_from Z U 0 (batches (effectiveSealChunkEntries S) 0 es) @ [Put MetaFile (MetaJSON (sealed_meta S hour es))]"

lemma chunks_and_meta_harmless: "list_all harmless (chunks_and_meta Z U S hour es)"
  by (simp add: chunks_and_meta_def chunk_ops_harmless)

lemma chunks_and_meta_seals: "sealed Z U S hour es ((do_ops (chunks_and_meta Z U S hour es) d)(MarkerFile \<mapsto> marker))"
  by (simp add: sealed_def Let_def chunks_and_meta_def ops_from_files)

lemma no_sync: "list_all harmless ops \<Longrightarrow> SyncDir \<notin> set ops"
  by (auto simp: list_all_iff)

text \<open>What recovery does in a directory whose log holds entries.\<close>

lemma recover_unsealed:
  assumes u: "unsealed w d" and h: "0 < hour" "hour < currentHour" and r: "ReadEntries Z w = (es, er)" "es \<noteq> []"
  obtains pre where
    "recoverDir Z U S n hour currentHour d = pre @ [SyncDir, Put MarkerFile marker, SyncDir, Remove SealingWal]"
    "\<And>kept. subseq kept pre \<Longrightarrow> unsealed w (do_ops kept d)" "SyncDir \<notin> set pre"
    "\<And>d'. d' = (do_ops pre d)(MarkerFile \<mapsto> marker) \<Longrightarrow> sealed Z U S hour es d'"
proof -
  let ?rest = "chunks_and_meta Z U S hour es"
  have nc: "\<not> IsSealComplete d" using u by (simp add: unsealed_def IsSealComplete_def)
  have seal: "fst (Seal Z U S hour d2) = ?rest @ [SyncDir, Put MarkerFile marker, SyncDir, Remove SealingWal]"
    if "d2 MarkerFile = None" "d2 SealingWal = Some (Bytes w)" for d2
    using Seal_spec [of d2 w Z es er U S hour] that r by (simp add: IsSealComplete_def chunks_and_meta_def)
  show ?thesis
  proof (cases "d SealingWal")
    case (Some c)
    let ?c = "CleanIncompleteSeal n d"
    have w: "d SealingWal = Some (Bytes w)" using u Some by (simp add: unsealed_def)
    have "unsealed w (do_ops ?c d)" using harmless_unsealed [OF clean_harmless u] .
    moreover have "list_all harmless ops \<Longrightarrow> do_ops ops d' SealingWal = d' SealingWal" for ops d'
    proof (induction ops arbitrary: d')
      case (Cons op ops)
      then show ?case by (cases op) auto
    qed simp
    ultimately have c: "do_ops ?c d MarkerFile = None" "do_ops ?c d SealingWal = Some (Bytes w)"
      using w clean_harmless [of n d] by (simp_all add: unsealed_def)
    have hm: "list_all harmless (?c @ ?rest)" using clean_harmless [of n d] chunks_and_meta_harmless by simp
    show ?thesis
    proof (rule that [of "?c @ ?rest"])
      show "recoverDir Z U S n hour currentHour d = (?c @ ?rest) @ [SyncDir, Put MarkerFile marker, SyncDir, Remove SealingWal]"
        using nc h Some seal [OF c] by (simp add: recoverDir_def Let_def)
      show "unsealed w (do_ops kept d)" if "subseq kept (?c @ ?rest)" for kept
        using harmless_unsealed [OF harmless_kept [OF that hm] u] .
      show "SyncDir \<notin> set (?c @ ?rest)" by (rule no_sync [OF hm])
    qed (simp add: chunks_and_meta_seals)
  next
    case None
    then have a: "d ActiveWal = Some (Bytes w)" "d MarkerFile = None" using u by (auto simp: unsealed_def)
    let ?r = "Rename ActiveWal SealingWal"
    have c: "do_op ?r d MarkerFile = None" "do_op ?r d SealingWal = Some (Bytes w)" using a by simp_all
    then have u': "unsealed w (do_op ?r d)" by (simp add: unsealed_def)
    show ?thesis
    proof (rule that [of "?r # ?rest"])
      show "recoverDir Z U S n hour currentHour d = (?r # ?rest) @ [SyncDir, Put MarkerFile marker, SyncDir, Remove SealingWal]"
        using nc h None a seal [OF c] by (simp add: recoverDir_def Let_def del: do_op.simps)
      show "unsealed w (do_ops kept d)" if "subseq kept (?r # ?rest)" for kept
      proof (cases "\<exists>k. kept = ?r # k \<and> subseq k ?rest")
        case True
        then show ?thesis using harmless_unsealed [OF harmless_kept [OF _ chunks_and_meta_harmless] u'] by auto
      next
        case False
        then have "subseq kept ?rest" using that by (cases kept) (auto split: if_splits)
        then show ?thesis using harmless_unsealed [OF harmless_kept [OF _ chunks_and_meta_harmless] u] by blast
      qed
      show "SyncDir \<notin> set (?r # ?rest)" using no_sync [OF chunks_and_meta_harmless] by simp
    qed (simp add: chunks_and_meta_seals)
  qed
qed

lemma crash_invariant:
  assumes "unsealed w d0" "0 < hour" "hour < currentHour" "ReadEntries Z w = (es, er)" "es \<noteq> []"
    and "crash_reach Z U S hour currentHour d0 d"
  shows "unsealed w d \<or> sealed Z U S hour es d"
  using assms(6)
proof (induction rule: crash_reach.induct)
  case start
  show ?case using assms(1) by simp
next
  case (crash d ops n j d')
  from crash.IH show ?case
  proof
    assume "unsealed w d"
    from recover_unsealed [OF this assms(2-5), of U S n] show ?thesis
      using crash.hyps(2,3) by (metis commit_crash)
  next
    assume sl: "sealed Z U S hour es d"
    then have "ops = []" using crash.hyps(2) by (simp add: recoverDir_def sealed_def IsSealComplete_def Let_def)
    then show ?thesis using crash.hyps(3) sl by (simp add: run_def boot_def survives_none)
  qed
qed

text \<open>A start that runs to the end completes the segment.\<close>

lemma visible_run: "visible (run ops k) = do_ops ops (visible k)"
proof (induction ops arbitrary: k)
  case (Cons op ops)
  have "visible (disk_op op k) = do_op op (visible k)" by (cases op) (simp_all add: visible_def)
  then show ?case using Cons.IH [of "disk_op op k"] by (simp add: run_def)
qed (simp add: run_def)

lemma recover_completes:
  assumes "unsealed w d \<or> sealed Z U S hour es d" and "0 < hour" and "hour < currentHour" and "ReadEntries Z w = (es, er)" and "es \<noteq> []"
  shows "sealed Z U S hour es (do_ops (recoverDir Z U S n hour currentHour d) d)"
  using assms(1)
proof
  assume "unsealed w d"
  from recover_unsealed [OF this assms(2-5), of U S n] obtain pre where
    ops: "recoverDir Z U S n hour currentHour d = pre @ [SyncDir, Put MarkerFile marker, SyncDir, Remove SealingWal]"
    and sl: "sealed Z U S hour es ((do_ops pre d)(MarkerFile \<mapsto> marker))" by metis
  then show ?thesis by (simp add: sealed_def)
next
  assume sl: "sealed Z U S hour es d"
  then have "recoverDir Z U S n hour currentHour d = []" by (simp add: recoverDir_def sealed_def IsSealComplete_def Let_def)
  then show ?thesis using sl by simp
qed

section \<open>Property\<close>

text \<open>
  C8: a crash never loses a sealed hour. An hour's log (live, or renamed for sealing) holds the entries \<open>es\<close>.
  However often sealing is started at boot and stopped by a crash, after any of its file operations and with
  any part of the unsynced directory changes lost, the next start that runs to the end leaves the complete
  segment: its marker, the metadata of \<open>es\<close>, and every chunk and index file with the bytes of its batch.
\<close>

theorem seal_crash_safe:
  assumes "unsealed w d0" and "0 < hour" and "hour < currentHour" and "ReadEntries Z w = (es, er)" and "es \<noteq> []"
    and "crash_reach Z U S hour currentHour d0 d"
  shows "sealed Z U S hour es (visible (run (recoverDir Z U S n hour currentHour d) (boot d)))"
  using recover_completes [OF crash_invariant [OF assms] assms(2-5), of n] unfolding visible_run by (simp add: visible_def boot_def)

theorem seal_crash_safe_witness:
  "let w = MarshalEntry stored_zstd False zero_entry; d = [ActiveWal \<mapsto> Bytes w]
   in sealed stored_zstd ascii_unicode 0 10 [wal_normal stored_zstd False zero_entry]
        (visible (run (recoverDir stored_zstd ascii_unicode 0 0 10 11 d) (boot d)))"
  using seal_crash_safe [OF _ _ _ zero_log _ start, of "[ActiveWal \<mapsto> Bytes (MarshalEntry stored_zstd False zero_entry)]" 10 11 ascii_unicode 0 0]
  by (simp add: unsealed_def Let_def)

end
