(* ===== verification/Segments.thy ===== *)
theory Segments
  imports Recovery
begin

text \<open>
  The manager of sealed segments, \<open>internal/logstore/engine/segment.go\<close>: the list of loaded segments, sorted by
  hour, and what queries and retention take from it. The directory of an hour is the parameter \<open>dirPath\<close>
  (its calendar name joined to the data directory); the parsed time range of the metadata is in seconds, and
  \<open>None\<close> when the text does not parse.
\<close>

section \<open>State and operations\<close>

record LoadedSegment =
  Hour :: int
  DirPath :: string
  Meta :: SegmentMeta

type_synonym segments = "LoadedSegment list"

definition at_second :: "int \<Rightarrow> go_time" where "at_second s = s * 10 ^ 9"

definition segmentRangeBuffer :: int where "segmentRangeBuffer = 3600 * 10 ^ 9"

definition expiredAt :: "int \<Rightarrow> go_time \<Rightarrow> LoadedSegment \<Rightarrow> bool" where
  "expiredAt cutoffHour cutoff s =
     (case mTimeRange (Meta s) of
        Some (_, lst) \<Rightarrow> at_second lst < cutoff
      | None \<Rightarrow> Hour s < cutoffHour)"

definition overlaps :: "go_time \<Rightarrow> go_time \<Rightarrow> LoadedSegment \<Rightarrow> bool" where
  "overlaps start end' s =
     (case mTimeRange (Meta s) of
        None \<Rightarrow> False
      | Some (a, b) \<Rightarrow>
          let first = at_second a; lst = at_second b;
              (first, lst) = (if lst < first then (lst, first) else (first, lst))
          in \<not> first - segmentRangeBuffer > end' \<and> \<not> lst + segmentRangeBuffer < start)"

definition Register :: "(int \<Rightarrow> string) \<Rightarrow> int \<Rightarrow> SegmentMeta \<Rightarrow> segments \<Rightarrow> segments" where
  "Register dirPath hour m segs =
     (let seg = \<lparr>Hour = hour, DirPath = dirPath hour, Meta = m\<rparr>;
          idx = sort_Search (length segs) (\<lambda>i. hour \<le> Hour (segs ! i))
      in if idx < length segs \<and> Hour (segs ! idx) = hour then segs[idx := seg]
         else take idx segs @ seg # drop idx segs)"

definition SegmentsInRange :: "go_time \<Rightarrow> go_time \<Rightarrow> segments \<Rightarrow> segments" where
  "SegmentsInRange start end' segs =
     (let startHour = SegmentHourFromTime start - 1; endHour = SegmentHourFromTime end' + 1
      in filter (\<lambda>seg. (startHour \<le> Hour seg \<and> Hour seg \<le> endHour) \<or> overlaps start end' seg) segs)"

definition FindSegmentByHour :: "int \<Rightarrow> segments \<Rightarrow> LoadedSegment option" where
  "FindSegmentByHour hour segs =
     (let idx = sort_Search (length segs) (\<lambda>i. hour \<le> Hour (segs ! i))
      in if idx < length segs \<and> Hour (segs ! idx) = hour then Some (segs ! idx) else None)"

definition FindSegmentByID :: "int64 \<Rightarrow> segments \<Rightarrow> LoadedSegment option" where
  "FindSegmentByID i segs = (case DecodeID i of (hour, _, _) \<Rightarrow> FindSegmentByHour (sint hour) segs)"

text \<open>
  \<open>Prune\<close> reads the clock once for the hour and once per segment (\<open>now k\<close> is the \<open>k\<close>-th reading); \<open>RemoveAll\<close>
  says whether deleting a directory succeeds.
\<close>

fun prune_loop :: "(nat \<Rightarrow> go_time) \<Rightarrow> int \<Rightarrow> (string \<Rightarrow> bool) \<Rightarrow> int \<Rightarrow> nat \<Rightarrow> segments \<Rightarrow> nat \<times> segments" where
  "prune_loop now retention RemoveAll cutoffHour k [] = (0, [])"
| "prune_loop now retention RemoveAll cutoffHour k (seg # segs) =
     (case prune_loop now retention RemoveAll cutoffHour (Suc k) segs of (deleted, remaining) \<Rightarrow>
        if expiredAt cutoffHour (now k - retention) seg
        then (if RemoveAll (DirPath seg) then (deleted + 1, remaining) else (deleted, seg # remaining))
        else (deleted, seg # remaining))"

definition Prune :: "(nat \<Rightarrow> go_time) \<Rightarrow> int \<Rightarrow> (string \<Rightarrow> bool) \<Rightarrow> segments \<Rightarrow> nat \<times> segments" where
  "Prune now retention RemoveAll segs =
     (let cutoffHour = SegmentHourFromTime (now 0 - retention) in prune_loop now retention RemoveAll cutoffHour 1 segs)"

text \<open>
  \<open>scan\<close> at start, over the directories found: each is recovered, and loaded when it is sealed and its metadata
  can be read. It returns the directories as recovery leaves them.
\<close>

definition scan_dir :: "zstd \<Rightarrow> unicode \<Rightarrow> int \<Rightarrow> nat \<Rightarrow> (int \<Rightarrow> string) \<Rightarrow> int \<Rightarrow> int \<times> segdir \<Rightarrow> (int \<times> segdir) \<times> LoadedSegment option" where
  "scan_dir Z U S n dirPath currentHour = (\<lambda>(hour, d).
     let d = do_ops (recoverDir Z U S n hour currentHour d) d
     in ((hour, d),
         if \<not> IsSealComplete d then None
         else case d MetaFile of
                Some (MetaJSON m) \<Rightarrow> Some \<lparr>Hour = hour, DirPath = dirPath hour, Meta = m\<rparr>
              | _ \<Rightarrow> None))"

definition scan_segments ::
  "zstd \<Rightarrow> unicode \<Rightarrow> int \<Rightarrow> nat \<Rightarrow> (int \<Rightarrow> string) \<Rightarrow> go_time \<Rightarrow> (int \<times> segdir) list \<Rightarrow> (int \<times> segdir) list \<times> segments" where
  "scan_segments Z U S n dirPath now dirs =
     (let rs = map (scan_dir Z U S n dirPath (SegmentHourFromTime now)) dirs
      in (map fst rs, sort_key Hour (List.map_filter snd rs)))"

section \<open>The list as a map\<close>

text \<open>Strictly sorted by hour, and the map from hours to segments that such a list is.\<close>

definition segments_ok :: "segments \<Rightarrow> bool" where
  "segments_ok segs \<longleftrightarrow> sorted_wrt (<) (map Hour segs)"

definition by_hour :: "segments \<Rightarrow> int \<Rightarrow> LoadedSegment option" where
  "by_hour segs h = find (\<lambda>s. Hour s = h) segs"

lemma sorted_nth: "segments_ok segs \<Longrightarrow> i < j \<Longrightarrow> j < length segs \<Longrightarrow> Hour (segs ! i) < Hour (segs ! j)"
  by (auto simp: segments_ok_def sorted_wrt_iff_nth_less)

lemma search_hour:
  assumes ok: "segments_ok segs" and idx: "idx = sort_Search (length segs) (\<lambda>i. h \<le> Hour (segs ! i))"
  shows "idx \<le> length segs" and "\<And>i. i < idx \<Longrightarrow> Hour (segs ! i) < h" and "\<And>i. idx \<le> i \<Longrightarrow> i < length segs \<Longrightarrow> h \<le> Hour (segs ! i)"
proof -
  have up: "upward (\<lambda>i. h \<le> Hour (segs ! i)) 0 (length segs)"
    unfolding upward_def using sorted_nth [OF ok] by (metis order.strict_iff_order order.trans)
  then have l: "least_in (\<lambda>i. h \<le> Hour (segs ! i)) 0 (length segs) idx"
    unfolding idx sort_Search_def by (rule search_loop_least) simp
  then show "idx \<le> length segs" "\<And>i. i < idx \<Longrightarrow> Hour (segs ! i) < h" by (auto simp: least_in_def not_le)
  show "h \<le> Hour (segs ! i)" if "idx \<le> i" "i < length segs" for i
    using l up that unfolding least_in_def upward_def by (meson le_less_trans zero_le)
qed

lemma by_hour_nth:
  assumes "segments_ok segs" "i < length segs"
  shows "by_hour segs (Hour (segs ! i)) = Some (segs ! i)"
  unfolding by_hour_def find_Some_iff
  using assms sorted_nth [OF assms(1)] by (metis less_irrefl)

lemma FindSegmentByHour_map:
  assumes "segments_ok segs"
  shows "FindSegmentByHour h segs = by_hour segs h"
proof -
  let ?idx = "sort_Search (length segs) (\<lambda>i. h \<le> Hour (segs ! i))"
  note s = search_hour [OF assms refl, where h = h]
  show ?thesis
  proof (cases "?idx < length segs \<and> Hour (segs ! ?idx) = h")
    case True
    then show ?thesis using by_hour_nth [OF assms, of ?idx] by (simp add: FindSegmentByHour_def Let_def)
  next
    case False
    have "Hour (segs ! i) \<noteq> h" if "i < length segs" for i
    proof
      assume i: "Hour (segs ! i) = h"
      then have "\<not> i < ?idx" using s(2) [of i] by auto
      then have "?idx < length segs" "?idx \<noteq> i" using that False i by auto
      then show False using sorted_nth [OF assms, of ?idx i] s(3) [of ?idx] \<open>\<not> i < ?idx\<close> that i by simp
    qed
    then have "by_hour segs h = None" by (auto simp: by_hour_def find_None_iff in_set_conv_nth)
    then show ?thesis using False by (auto simp: FindSegmentByHour_def Let_def)
  qed
qed

lemma Register_ok:
  assumes "segments_ok segs"
  shows "segments_ok (Register dirPath h m segs)"
    and "by_hour (Register dirPath h m segs) = (by_hour segs)(h \<mapsto> \<lparr>Hour = h, DirPath = dirPath h, Meta = m\<rparr>)"
proof -
  let ?idx = "sort_Search (length segs) (\<lambda>i. h \<le> Hour (segs ! i))" and ?seg = "\<lparr>Hour = h, DirPath = dirPath h, Meta = m\<rparr>"
  note s = search_hour [OF assms refl, where h = h]
  have split: "segs = take ?idx segs @ drop ?idx segs" by simp
  have lo: "x \<in> set (take ?idx segs) \<Longrightarrow> Hour x < h" for x using s(1,2) by (auto simp: in_set_conv_nth)
  have hi: "x \<in> set (drop ?idx segs) \<Longrightarrow> h \<le> Hour x" for x using s(3) by (auto simp: in_set_conv_nth)
  have sorted: "sorted_wrt (<) (map Hour (take ?idx segs) @ map Hour (drop ?idx segs))"
    using assms by (simp add: segments_ok_def flip: map_append)
  have ins: "Register dirPath h m segs = take ?idx segs @ ?seg # (if ?idx < length segs \<and> Hour (segs ! ?idx) = h then drop (Suc ?idx) segs else drop ?idx segs)"
    by (auto simp: Register_def Let_def upd_conv_take_nth_drop)
  have hi': "x \<in> set (drop ?idx segs) \<Longrightarrow> h < Hour x" if "\<not> (?idx < length segs \<and> Hour (segs ! ?idx) = h)" for x
  proof -
    assume "x \<in> set (drop ?idx segs)"
    then obtain i where i: "x = segs ! i" "?idx \<le> i" "i < length segs"
      by (metis (no_types, lifting) add.commute in_set_conv_nth le_add1 length_drop less_diff_conv nth_drop s(1))
    then show "h < Hour x" using that s(3) [of i] s(3) [of ?idx] sorted_nth [OF assms, of ?idx i] by (cases "?idx = i") auto
  qed
  have hi'': "x \<in> set (drop (Suc ?idx) segs) \<Longrightarrow> h < Hour x" if "?idx < length segs" "Hour (segs ! ?idx) = h" for x
    using sorted that(2) unfolding Cons_nth_drop_Suc [OF that(1), symmetric] by (auto simp: sorted_wrt_append)
  show "segments_ok (Register dirPath h m segs)"
    using sorted lo hi' hi'' unfolding ins segments_ok_def
    by (cases "?idx < length segs \<and> Hour (segs ! ?idx) = h")
      (auto simp: sorted_wrt_append Cons_nth_drop_Suc [symmetric] intro: less_trans)
  have find: "find P (xs @ ys) = (case find P xs of None \<Rightarrow> find P ys | Some x \<Rightarrow> Some x)" for P :: "LoadedSegment \<Rightarrow> bool" and xs ys
    by (induction xs) auto
  have none: "find (\<lambda>s. Hour s = h) (take ?idx segs) = None" using lo by (auto simp: find_None_iff)
  have other: "by_hour (Register dirPath h m segs) h' = by_hour segs h'" if "h' \<noteq> h" for h'
    unfolding ins by_hour_def using that
    by (subst (4) split) (auto simp: find Cons_nth_drop_Suc [symmetric] simp del: append_take_drop_id split: option.split)
  have "by_hour (Register dirPath h m segs) h = Some ?seg" unfolding ins by_hour_def find none by simp
  then show "by_hour (Register dirPath h m segs) = (by_hour segs)(h \<mapsto> ?seg)" using other by (simp add: fun_eq_iff)
qed

lemma prune_filter:
  "snd (prune_loop now retention RemoveAll cutoffHour k segs)
     = map fst (filter (\<lambda>(s, i). \<not> (expiredAt cutoffHour (now i - retention) s \<and> RemoveAll (DirPath s))) (zip segs [k..<k + length segs]))"
  "fst (prune_loop now retention RemoveAll cutoffHour k segs) + length (snd (prune_loop now retention RemoveAll cutoffHour k segs)) = length segs"
proof (induction segs arbitrary: k)
  case (Cons s segs)
  { case 1 show ?case using Cons.IH(1) [of "Suc k"] by (auto simp: upt_conv_Cons simp del: upt_Suc split: prod.split) }
  { case 2 show ?case using Cons.IH(2) [of "Suc k"] by (auto split: prod.split) }
qed auto

section \<open>Which segments a query sees\<close>

text \<open>The entries of a segment in the order they were received, with clocks of their sources off by less than an hour.\<close>

definition in_order :: "Entry list \<Rightarrow> bool" where
  "in_order es \<longleftrightarrow> sorted (map (\<lambda>e. sint (ReceivedAt e)) es)"

definition skewed :: "int \<Rightarrow> Entry \<Rightarrow> bool" where
  "skewed ms e \<longleftrightarrow> \<bar>sint (Ts e) - sint (ReceivedAt e)\<bar> \<le> ms"

lemma received_between:
  assumes "in_order es" "e \<in> set es"
  shows "sint (ReceivedAt (hd es)) \<le> sint (ReceivedAt e)" "sint (ReceivedAt e) \<le> sint (ReceivedAt (last es))"
proof -
  obtain i where i: "i < length es" "e = es ! i" using assms(2) by (auto simp: in_set_conv_nth)
  then have "es \<noteq> []" by auto
  then have "hd es = es ! 0" "last es = es ! (length es - 1)" by (simp_all add: hd_conv_nth last_conv_nth)
  then show "sint (ReceivedAt (hd es)) \<le> sint (ReceivedAt e)" "sint (ReceivedAt e) \<le> sint (ReceivedAt (last es))"
    using assms(1) i unfolding in_order_def sorted_iff_nth_mono by auto
qed

lemma overlaps_covers:
  assumes m: "meta_of (Meta seg) es bs" and es: "in_order es" "e \<in> set es"
    and skew: "skewed 3599000 e" and ts: "UnixMilli start \<le> sint (Ts e)" "sint (Ts e) \<le> UnixMilli end'"
  shows "overlaps start end' seg"
proof -
  let ?a = "sint (ReceivedAt (hd es)) div 1000" and ?b = "sint (ReceivedAt (last es)) div 1000"
  have r: "mTimeRange (Meta seg) = Some (?a, ?b)" using m es(2) by (auto simp: meta_of_def)
  note rb = received_between [OF es]
  have ab: "?a \<le> ?b" using rb by (intro zdiv_mono1) simp_all
  have recv: "?a * 1000 \<le> sint (ReceivedAt e)" "sint (ReceivedAt e) \<le> ?b * 1000 + 999" using rb by linarith+
  have sk: "sint (Ts e) \<le> sint (ReceivedAt e) + 3599000" "sint (ReceivedAt e) \<le> sint (Ts e) + 3599000"
    using skew by (simp_all add: skewed_def abs_le_iff)
  have ms: "UnixMilli end' * 1000000 \<le> end'" "start < UnixMilli start * 1000000 + 1000000" by (simp_all add: UnixMilli_def)
  have "\<not> end' < ?a * 1000000000 - 3600000000000" using recv(1) sk(2) ts(2) ms(1) by linarith
  moreover have "\<not> ?b * 1000000000 + 3600000000000 < start" using recv(2) sk(1) ts(1) ms(2) by linarith
  ultimately show ?thesis using r ab by (simp add: overlaps_def at_second_def segmentRangeBuffer_def Let_def)
qed

section \<open>Properties\<close>

text \<open>A history of the list: segments registered, and the ones past retention pruned.\<close>

inductive segment_history :: "(int \<Rightarrow> string) \<Rightarrow> segments \<Rightarrow> (int \<Rightarrow> LoadedSegment option) \<Rightarrow> bool" for dirPath where
  loaded: "segment_history dirPath [] (\<lambda>_. None)"
| registered: "segment_history dirPath (Register dirPath h m segs) (mp(h \<mapsto> \<lparr>Hour = h, DirPath = dirPath h, Meta = m\<rparr>))"
    if "segment_history dirPath segs mp"
| pruned: "segment_history dirPath (snd (Prune now retention RemoveAll segs))
      (\<lambda>h. if \<exists>s \<in> set (snd (Prune now retention RemoveAll segs)). Hour s = h then mp h else None)"
    if "segment_history dirPath segs mp"

lemma subset_by_hour:
  assumes "segments_ok segs" "set segs' \<subseteq> set segs" "segments_ok segs'"
  shows "by_hour segs' h = (if \<exists>s \<in> set segs'. Hour s = h then by_hour segs h else None)"
proof (cases "\<exists>s \<in> set segs'. Hour s = h")
  case True
  then obtain s where s: "s \<in> set segs'" "Hour s = h" by blast
  then have "by_hour segs' h = Some s" "by_hour segs h = Some s"
    using by_hour_nth [OF assms(3)] by_hour_nth [OF assms(1)] assms(2) by (metis in_set_conv_nth subsetD)+
  then show ?thesis using True by simp
qed (simp add: by_hour_def find_None_iff)

lemma subseq_set: "subseq xs ys \<Longrightarrow> set xs \<subseteq> set ys"
  by (induction rule: list_emb.induct) auto

lemma subseq_sorted_wrt: "subseq xs ys \<Longrightarrow> sorted_wrt P ys \<Longrightarrow> sorted_wrt P xs"
proof (induction rule: list_emb.induct)
  case (list_emb_Cons2 x y xs ys)
  then show ?case using subseq_set [OF list_emb_Cons2.hyps(2)] by auto
qed simp_all

lemma subseq_distinct: "subseq xs ys \<Longrightarrow> distinct ys \<Longrightarrow> distinct xs"
proof (induction rule: list_emb.induct)
  case (list_emb_Cons2 x y xs ys)
  then show ?case using subseq_set [OF list_emb_Cons2.hyps(2)] by auto
qed simp_all

lemma scan_dir_hour: "scan_dir Z U S n dirPath currentHour (h, d) = (x, Some s) \<Longrightarrow> Hour s = h"
  by (auto simp: scan_dir_def Let_def split: if_splits option.splits content.splits)

lemma scan_segments_ok:
  assumes "distinct (map fst dirs)"
  shows "segments_ok (snd (scan_segments Z U S n dirPath now dirs))"
proof -
  let ?scan = "scan_dir Z U S n dirPath (SegmentHourFromTime now)"
  let ?segs = "sort_key Hour (List.map_filter snd (map ?scan dirs))"
  have sub: "subseq (map Hour (List.map_filter snd (map ?scan ds))) (map fst ds)" for ds
  proof (induction ds)
    case (Cons x ds)
    then show ?case using scan_dir_hour [of Z U S n dirPath "SegmentHourFromTime now" "fst x" "snd x"]
      by (cases "?scan x") (auto simp: map_filter_simps split: option.split)
  qed (simp add: map_filter_simps)
  then have "distinct (map Hour (List.map_filter snd (map ?scan dirs)))" using subseq_distinct assms by blast
  then have "distinct (map Hour ?segs)" by (simp add: distinct_map)
  then show ?thesis using sorted_sort_key [of Hour] by (simp add: scan_segments_def Let_def segments_ok_def strict_sorted_iff)
qed

lemma map_filter_mem: "(x, Some s) \<in> set rs \<Longrightarrow> s \<in> set (List.map_filter snd rs)"
  by (induction rs) (auto simp: map_filter_simps split: option.split)

lemma history_ok: "segment_history dirPath segs mp \<Longrightarrow> segments_ok segs \<and> by_hour segs = mp"
proof (induction rule: segment_history.induct)
  case loaded
  show ?case by (auto simp: segments_ok_def by_hour_def)
next
  case (registered segs mp h m)
  then show ?case using Register_ok [of segs dirPath h m] by simp
next
  case (pruned segs mp now retention RemoveAll)
  let ?r = "snd (Prune now retention RemoveAll segs)"
  have sub: "subseq ?r segs"
  proof -
    have "map fst (zip segs [1..<1 + length segs]) = segs" by (intro map_fst_zip) (simp only: length_upt diff_add_inverse)
    moreover have "subseq (map fst (filter P zs)) (map fst zs)" for P and zs :: "(LoadedSegment \<times> nat) list"
      by (rule subseq_map [OF subseq_filter_left])
    ultimately show ?thesis unfolding Prune_def Let_def prune_filter(1) by (metis (no_types, lifting))
  qed
  then have "segments_ok ?r" using pruned.IH subseq_sorted_wrt [OF subseq_map [OF sub, of Hour]] by (simp add: segments_ok_def)
  moreover have "set ?r \<subseteq> set segs" using subseq_set [OF sub] by blast
  ultimately show ?case using pruned.IH subset_by_hour [of segs ?r] by (auto simp: fun_eq_iff)
qed

text \<open>
  C15: the sorted list of segments is a map from hours. After any sequence of registrations and prunings the list
  is strictly sorted by hour, and looking an id up by binary search gives the segment last registered for the id's
  hour, unless it has been pruned since.
\<close>

theorem segments_refine_map:
  assumes "segment_history dirPath segs mp"
  shows "segments_ok segs \<and> FindSegmentByID i segs = mp (sint (fst (DecodeID i)))"
  using history_ok [OF assms] FindSegmentByHour_map [of segs "sint (fst (DecodeID i))"]
  by (auto simp: FindSegmentByID_def split: prod.split)

theorem segments_refine_map_witness:
  "let m = sealed_meta 0 489456 []; segs = Register (\<lambda>_. ''d'') 489456 m (Register (\<lambda>_. ''d'') 489457 m [])
   in segments_ok segs \<and> FindSegmentByID (IDForPosition 489456 7) segs = Some \<lparr>Hour = 489456, DirPath = ''d'', Meta = m\<rparr>"
proof -
  have "sint (fst (DecodeID (IDForPosition 489456 7))) = 489456"
    by (simp add: IDForPosition_def decode_encode_word id_consts)
  then show ?thesis
    using segments_refine_map [OF registered [OF registered [OF loaded]], of "\<lambda>_. ''d''" 489456 "sealed_meta 0 489456 []"
        489457 "sealed_meta 0 489456 []" "IDForPosition 489456 7"] by (simp add: Let_def)
qed



text \<open>
  C17: a start brings every hour back. The directories found have distinct hours; one of them is past, and holds either a
  complete segment or a log, live or renamed, with at least one complete record. After the scan the segment of that
  hour is loaded with the metadata of exactly those records, its directory is a complete segment, and the list is
  strictly sorted by hour.
\<close>

theorem scan_recovers_hour:
  assumes "scan_segments Z U S n dirPath now dirs = (dirs', segs)" and "distinct (map fst dirs)" and "(hour, d) \<in> set dirs"
    and "unsealed w d \<or> sealed Z U S hour es d" and "0 < hour" and "hour < SegmentHourFromTime now"
    and "ReadEntries Z w = (es, er)" and "es \<noteq> []"
  shows "\<exists>d'. (hour, d') \<in> set dirs' \<and> sealed Z U S hour es d' \<and>
    by_hour segs hour = Some \<lparr>Hour = hour, DirPath = dirPath hour, Meta = sealed_meta S hour es\<rparr> \<and> segments_ok segs"
proof -
  let ?scan = "scan_dir Z U S n dirPath (SegmentHourFromTime now)" and ?seg = "\<lparr>Hour = hour, DirPath = dirPath hour, Meta = sealed_meta S hour es\<rparr>"
  have d': "map fst (map ?scan dirs) = dirs'" and segs: "segs = sort_key Hour (List.map_filter snd (map ?scan dirs))"
    using assms(1) by (simp_all add: scan_segments_def Let_def)
  note sl = recover_completes [OF assms(4-8), of n]
  then have "?scan (hour, d) = ((hour, do_ops (recoverDir Z U S n hour (SegmentHourFromTime now) d) d), Some ?seg)"
    by (simp add: scan_dir_def sealed_def IsSealComplete_def Let_def)
  then have mem: "((hour, do_ops (recoverDir Z U S n hour (SegmentHourFromTime now) d) d), Some ?seg) \<in> set (map ?scan dirs)"
    using assms(3) by force
  have ok: "segments_ok segs" using scan_segments_ok [OF assms(2), of Z U S n dirPath now] assms(1) by simp
  have "?seg \<in> set segs" using map_filter_mem [OF mem] by (simp add: segs)
  then have "by_hour segs hour = Some ?seg" using by_hour_nth [OF ok] by (metis LoadedSegment.select_convs(1) in_set_conv_nth)
  moreover have "(hour, do_ops (recoverDir Z U S n hour (SegmentHourFromTime now) d) d) \<in> set dirs'"
    unfolding d' [symmetric] set_map using imageI [OF mem, of fst] by simp
  ultimately show ?thesis using sl ok by blast
qed

theorem scan_recovers_hour_witness:
  "let w = MarshalEntry stored_zstd False zero_entry; es = [wal_normal stored_zstd False zero_entry]
   in by_hour (snd (scan_segments stored_zstd ascii_unicode 0 0 (\<lambda>_. ''d'') (11 * 3600 * 10 ^ 9) [(10, [ActiveWal \<mapsto> Bytes w])])) 10
      = Some \<lparr>Hour = 10, DirPath = ''d'', Meta = sealed_meta 0 10 es\<rparr>"
proof -
  let ?w = "MarshalEntry stored_zstd False zero_entry"
  obtain dirs' segs where r: "scan_segments stored_zstd ascii_unicode 0 0 (\<lambda>_. ''d'') (11 * 3600 * 10 ^ 9) [(10, [ActiveWal \<mapsto> Bytes ?w])] = (dirs', segs)"
    by fastforce
  have "SegmentHourFromTime (11 * 3600 * 10 ^ 9) = 11" by (simp add: SegmentHourFromTime_def Unix_def signed_divide_int_def)
  then show ?thesis
    using scan_recovers_hour [OF r, of 10 "[ActiveWal \<mapsto> Bytes ?w]" ?w "[wal_normal stored_zstd False zero_entry]" None] zero_log r
    by (auto simp: unsealed_def Let_def)
qed

end
