(* ===== verification/Search.thy ===== *)
theory Search
  imports Query Segments Top_Heap Index_Cache Wal_Cache
begin

text \<open>
  Searching the store, \<open>internal/logstore/engine/store.go\<close>: the candidate rows of a chunk from its index and its
  columns, the narrowing to the rows that can reach the page, reading them, and the merge of sealed segments and
  live logs into one page. Files are a parameter (\<open>ReadFile\<close>, \<open>Stat\<close>); the caches are threaded through. Segments are
  scanned concurrently in the source; the caches are transparent, so the model scans them in order.
\<close>

section \<open>Files of a segment\<close>

definition pad3 :: "nat \<Rightarrow> string" where
  "pad3 n = replicate (3 - length (show_nat n)) (CHR ''0'') @ show_nat n"

definition Join :: "string \<Rightarrow> string \<Rightarrow> string" where "Join dir name = dir @ ''/'' @ name"

definition chunkPath :: "string \<Rightarrow> nat \<Rightarrow> string" where "chunkPath dir i = Join dir (''chunk_'' @ pad3 i @ ''.col'')"
definition idxPath :: "string \<Rightarrow> nat \<Rightarrow> string" where "idxPath dir i = Join dir (''chunk_'' @ pad3 i @ ''.idx'')"

definition OpenChunk :: "(string \<Rightarrow> bytes res) \<Rightarrow> string \<Rightarrow> Reader res" where
  "OpenChunk ReadFile path = rbind (wrapf ''open chunk'' [] (ReadFile path)) OpenReader"

record query_caches =
  qcolumns :: column_cache
  qindexes :: "(string, IndexReader) lru_cache option"

text \<open>What a query needs of its surroundings: codec, Unicode tables, JSON library, files and the clock.\<close>

record query_env =
  zs :: zstd
  uc :: unicode
  js :: jsonlib
  ReadFile :: "string \<Rightarrow> bytes res"
  Stat :: "string \<Rightarrow> int option"
  clock :: go_time

section \<open>Rows of a chunk\<close>

text \<open>The full-text part: the candidate rows, \<open>None\<close> when the query has no text.\<close>

definition candidates :: "query_env \<Rightarrow> SearchParams \<Rightarrow> string \<Rightarrow> query_caches \<Rightarrow> nat list option res \<times> query_caches" where
  "candidates E p path q =
     (if pQuery p = [] then (Inr None, q)
      else case Cache_Open (ReadFile E) (Stat E) (qindexes q) path of
             (Inl e, ix) \<Rightarrow> (wrapf ''open index'' [] (Inl e), q\<lparr>qindexes := ix\<rparr>)
           | (Inr idx, ix) \<Rightarrow>
               (case Index.Search (uc E) (zs E) idx (pQuery p) of
                  Inl e \<Rightarrow> (wrapf ''index search'' [] (Inl e), q\<lparr>qindexes := ix\<rparr>)
                | Inr rowIDs \<Rightarrow> (Inr (Some (sorted_list_of_set (unat ` set rowIDs))), q\<lparr>qindexes := ix\<rparr>)))"

definition openChunkRows ::
  "query_env \<Rightarrow> SearchParams \<Rightarrow> string \<Rightarrow> string \<Rightarrow> query_caches \<Rightarrow> (chunkColumns \<times> nat list) option res \<times> query_caches" where
  "openChunkRows E p path ipath q =
     (case candidates E p ipath q of
        (Inl e, q) \<Rightarrow> (Inl e, q)
      | (Inr (Some []), q) \<Rightarrow> (Inr None, q)
      | (Inr cand, q) \<Rightarrow>
          (case OpenChunk (ReadFile E) path of
             Inl e \<Rightarrow> (wrapf ''open chunk'' [] (Inl e), q)
           | Inr r \<Rightarrow>
               let cols = newCachedChunkColumns r (qcolumns q) path;
                   rows = (case cand of Some rows \<Rightarrow> rows | None \<Rightarrow> [0..<EntryCount r])
               in case applyColumnFilters (zs E) (uc E) (clock E) p rows cols of
                    (Inl e, cols) \<Rightarrow> (Inl e, q\<lparr>qcolumns := shared cols\<rparr>)
                  | (Inr rows, cols) \<Rightarrow> (Inr (Some (cols, rows)), q\<lparr>qcolumns := shared cols\<rparr>)))"

definition tsAt :: "int64 list \<Rightarrow> nat \<Rightarrow> int64" where
  "tsAt tsValues row = (if row \<ge> length tsValues then 0 else tsValues ! row)"

record rowCandidate =
  crow :: nat
  cts :: int64

definition rowComesBefore :: "bool \<Rightarrow> rowCandidate \<Rightarrow> rowCandidate \<Rightarrow> bool" where
  "rowComesBefore asc a b =
     (if cts a \<noteq> cts b then (if asc then cts a <s cts b else cts b <s cts a)
      else crow a < crow b)"

definition selectTopRows :: "int64 list \<Rightarrow> nat list \<Rightarrow> bool \<Rightarrow> int \<Rightarrow> nat list" where
  "selectTopRows tsValues rows asc n =
     (if n \<le> 0 \<or> int (length rows) \<le> n then rows
      else sort (map crow (fold (\<lambda>row. offer_top (rowComesBefore asc) (nat n) \<lparr>crow = row, cts = tsAt tsValues row\<rparr>) rows [])))"

definition topRowsByTs :: "zstd \<Rightarrow> nat list \<Rightarrow> bool \<Rightarrow> int \<Rightarrow> nat list scan" where
  "topRowsByTs Z rows asc n =
     sbind (scol ''read ts column for ordering'' int64s_of (zstdInt64 Z) ''ts'') (\<lambda>tsValues. sret (selectTopRows tsValues rows asc n))"

definition rowsInTsOrder :: "zstd \<Rightarrow> nat list \<Rightarrow> bool \<Rightarrow> nat list scan" where
  "rowsInTsOrder Z rows asc =
     sbind (scol ''read ts column for ordering'' int64s_of (zstdInt64 Z) ''ts'') (\<lambda>tsValues.
       sret (sort_Slice (\<lambda>a b.
         let ti = tsAt tsValues a; tj = tsAt tsValues b
         in if ti \<noteq> tj then (if asc then ti <s tj else tj <s ti) else if asc then a < b else b < a) rows))"

section \<open>Reading rows\<close>

text \<open>Unreadable rows are skipped, and only logged.\<close>

fun materializeUntil ::
  "query_env \<Rightarrow> SearchParams \<Rightarrow> nat \<Rightarrow> bool \<Rightarrow> nat list \<Rightarrow> chunkColumns \<Rightarrow> Entry list \<times> chunkColumns" where
  "materializeUntil E p n includeBody [] c = ([], c)"
| "materializeUntil E p n includeBody (row # rows) c =
     (if n = 0 then ([], c)
      else case fillEntryFromChunkProjected (zs E) c row includeBody of
             (Some _, _, c) \<Rightarrow> materializeUntil E p n includeBody rows c
           | (None, e, c) \<Rightarrow>
               if matchesParams (uc E) (js E) e p
               then (case materializeUntil E p (n - 1) includeBody rows c of (es, c) \<Rightarrow> (e # es, c))
               else materializeUntil E p n includeBody rows c)"

fun read_rows :: "query_env \<Rightarrow> SearchParams \<Rightarrow> bool \<Rightarrow> nat list \<Rightarrow> chunkColumns \<Rightarrow> Entry list \<times> chunkColumns" where
  "read_rows E p includeBody [] c = ([], c)"
| "read_rows E p includeBody (row # rows) c =
     (case fillEntryFromChunkProjected (zs E) c row includeBody of
        (Some _, _, c) \<Rightarrow> read_rows E p includeBody rows c
      | (None, e, c) \<Rightarrow>
          (case read_rows E p includeBody rows c of (es, c) \<Rightarrow> (if matchesParams (uc E) (js E) e p then e # es else es, c)))"

text \<open>\<open>int\<close> addition is on 64 bits.\<close>

definition page_limit :: "SearchParams \<Rightarrow> int" where
  "page_limit p = sint (word_of_int (pOffset p + pLimit p) :: int64)"

definition searchChunk :: "query_env \<Rightarrow> SearchParams \<Rightarrow> string \<Rightarrow> string \<Rightarrow> query_caches \<Rightarrow> Entry list res \<times> query_caches" where
  "searchChunk E p path ipath q =
     (case openChunkRows E p path ipath q of
        (Inl e, q) \<Rightarrow> (Inl e, q)
      | (Inr None, q) \<Rightarrow> (Inr [], q)
      | (Inr (Some (cols, matchingRows)), q) \<Rightarrow>
          if matchingRows = [] then (Inr [], q)
          else let filterParams = p\<lparr>pQuery := []\<rparr>;
                   limit = page_limit p;
                   postFilter = needsPostReadFilter filterParams
               in case (if limit > 0 \<and> int (length matchingRows) > limit \<and> \<not> postFilter
                        then topRowsByTs (zs E) matchingRows (pSortAsc p) limit cols else (Inr matchingRows, cols)) of
                    (Inl e, cols) \<Rightarrow> (Inl e, q\<lparr>qcolumns := shared cols\<rparr>)
                  | (Inr matchingRows, cols) \<Rightarrow>
                      if limit > 0 \<and> postFilter \<and> int (length matchingRows) > limit then
                        (case rowsInTsOrder (zs E) matchingRows (pSortAsc p) cols of
                           (Inl e, cols) \<Rightarrow> (Inl e, q\<lparr>qcolumns := shared cols\<rparr>)
                         | (Inr matchingRows, cols) \<Rightarrow>
                             (case materializeUntil E filterParams (nat limit) True matchingRows cols of
                                (es, cols) \<Rightarrow> (Inr es, q\<lparr>qcolumns := shared cols\<rparr>)))
                      else
                        (case read_rows E filterParams (\<not> pOmitBody p) matchingRows cols of
                           (es, cols) \<Rightarrow> (Inr es, q\<lparr>qcolumns := shared cols\<rparr>)))"

section \<open>Segments, logs and the page\<close>

fun search_chunks :: "query_env \<Rightarrow> SearchParams \<Rightarrow> string \<Rightarrow> ChunkMeta list \<Rightarrow> query_caches \<Rightarrow> Entry list res \<times> query_caches" where
  "search_chunks E p dir [] q = (Inr [], q)"
| "search_chunks E p dir (cm # cms) q =
     (case searchChunk E p (chunkPath dir (cIndex cm)) (idxPath dir (cIndex cm)) q of
        (Inl e, q) \<Rightarrow> (wrapf ''search chunk %d'' [D (int (cIndex cm))] (Inl e), q)
      | (Inr entries, q) \<Rightarrow>
          (case search_chunks E p dir cms q of
             (Inl e, q) \<Rightarrow> (Inl e, q)
           | (Inr rest, q) \<Rightarrow> (Inr (entries @ rest), q)))"

definition searchSegment :: "query_env \<Rightarrow> SearchParams \<Rightarrow> LoadedSegment \<Rightarrow> query_caches \<Rightarrow> Entry list res \<times> query_caches" where
  "searchSegment E p seg q = search_chunks E p (DirPath seg) (mChunks (Meta seg)) q"

definition entryComesBefore :: "bool \<Rightarrow> Entry \<Rightarrow> Entry \<Rightarrow> bool" where
  "entryComesBefore asc a b =
     (if Ts a \<noteq> Ts b then (if asc then Ts a <s Ts b else Ts b <s Ts a)
      else ID a <s ID b)"

definition sortEntriesByTs :: "bool \<Rightarrow> Entry list \<Rightarrow> Entry list" where
  "sortEntriesByTs asc entries = sort_Slice (entryComesBefore asc) entries"

definition capEntriesByTs :: "Entry list \<Rightarrow> bool \<Rightarrow> int \<Rightarrow> Entry list" where
  "capEntriesByTs entries asc m =
     (if m \<le> 0 \<or> int (length entries) \<le> m then entries else take (nat m) (sortEntriesByTs asc entries))"

text \<open>A segment that cannot be searched contributes nothing.\<close>

fun search_segments :: "query_env \<Rightarrow> SearchParams \<Rightarrow> segments \<Rightarrow> query_caches \<Rightarrow> (Entry list \<times> nat) \<times> query_caches" where
  "search_segments E p [] q = (([], 0), q)"
| "search_segments E p (seg # segs) q =
     (case searchSegment E p seg q of
        (Inl e, q) \<Rightarrow> search_segments E p segs q
      | (Inr entries, q) \<Rightarrow>
          (case search_segments E p segs q of
             ((rest, cnt), q) \<Rightarrow> ((capEntriesByTs entries (pSortAsc p) (page_limit p) @ rest, length entries + cnt), q)))"

definition live_candidate :: "SearchParams \<Rightarrow> Entry \<Rightarrow> Entry" where
  "live_candidate p e = (if pOmitBody p \<and> \<not> needsPostReadFilter p then e\<lparr>Body := []\<rparr> else e)"

definition offer_entry :: "query_env \<Rightarrow> SearchParams \<Rightarrow> nat \<Rightarrow> (Entry list \<times> nat) callback" where
  "offer_entry E p limit e = (\<lambda>(h, cnt).
     if matchesParams (uc E) (js E) e p
     then (True, (offer_top (entryComesBefore (pSortAsc p)) limit (live_candidate p e) h, cnt + 1))
     else (True, (h, cnt)))"

definition searchWALsTop ::
  "query_env \<Rightarrow> int \<Rightarrow> int \<Rightarrow> filesys \<Rightarrow> SearchParams \<Rightarrow> string list \<Rightarrow> int \<Rightarrow> walCache \<Rightarrow> (Entry list \<times> nat) \<times> walCache" where
  "searchWALsTop E M B fs p paths limit c =
     (let limit = (if limit \<le> 0 then pLimit p else limit)
      in forEachWALEntry (zs E) M B fs c paths (offer_entry E p (nat limit)) ([], 0))"

record SearchResult =
  Entries :: "Entry list"
  Total :: nat

text \<open>The parameters as \<open>Search\<close> completes them: a limit between 1 and 500 and a time range, by default the last hour.\<close>

definition search_defaults :: "go_time \<Rightarrow> SearchParams \<Rightarrow> SearchParams" where
  "search_defaults now p =
     (let p = (if pLimit p \<le> 0 then p\<lparr>pLimit := 50\<rparr> else p);
          p = (if pLimit p > 500 then p\<lparr>pLimit := 500\<rparr> else p);
          p = (if pStart p = None then p\<lparr>pStart := Some (now - 3600 * 10 ^ 9)\<rparr> else p)
      in if pEnd p = None then p\<lparr>pEnd := Some now\<rparr> else p)"

text \<open>\<open>qview\<close> is the snapshot \<open>queryView\<close> takes for the range: the sealed segments and the paths of the logs.\<close>

definition Store_Search ::
  "query_env \<Rightarrow> int \<Rightarrow> int \<Rightarrow> filesys \<Rightarrow> (go_time \<Rightarrow> go_time \<Rightarrow> segments \<times> string list) \<Rightarrow> SearchParams \<Rightarrow> query_caches \<Rightarrow> walCache \<Rightarrow>
   SearchResult \<times> query_caches \<times> walCache" where
  "Store_Search E M B fs qview p q c =
     (let p = search_defaults (clock E) p;
          (segs, walPaths) = qview (the (pStart p)) (the (pEnd p));
          ((sealed_matches, sealed_total), q) = search_segments E p segs q;
          ((live_matches, live_total), c) = searchWALsTop E M B fs p walPaths (page_limit p) c;
          all_matches = sortEntriesByTs (pSortAsc p) (sealed_matches @ live_matches);
          all_matches = (if 0 < pOffset p \<and> pOffset p < int (length all_matches) then drop (nat (pOffset p)) all_matches
                         else if pOffset p \<ge> int (length all_matches) then [] else all_matches);
          all_matches = (if int (length all_matches) > pLimit p then take (nat (pLimit p)) all_matches else all_matches)
      in (\<lparr>Entries = all_matches, Total = sealed_total + live_total\<rparr>, q, c))"

section \<open>Orders\<close>

definition row_key :: "bool \<Rightarrow> rowCandidate \<Rightarrow> int \<times> nat" where
  "row_key asc c = (if asc then sint (cts c) else - sint (cts c), crow c)"

definition entry_key :: "bool \<Rightarrow> Entry \<Rightarrow> int \<times> int" where
  "entry_key asc e = (if asc then sint (Ts e) else - sint (Ts e), sint (ID e))"

lemma sint_eq_iff: "sint (a :: int64) = sint b \<longleftrightarrow> a = b"
  by (metis signed_word_eqI)

interpretation row_order: page_order "rowComesBefore asc" "row_key asc" for asc
  by unfold_locales (auto simp: rowComesBefore_def row_key_def word_sless_alt less_prod_def order_le_less sint_eq_iff)

interpretation entry_order: page_order "entryComesBefore asc" "entry_key asc" for asc
  by unfold_locales (auto simp: entryComesBefore_def entry_key_def word_sless_alt less_prod_def order_le_less sint_eq_iff)

text \<open>A best part of candidate rows is a best part of their entries when the orders agree on them.\<close>

lemma best_entries:
  assumes b: "row_order.best asc n X H"
    and f: "\<And>x y. x \<in># X \<Longrightarrow> y \<in># X \<Longrightarrow> rowComesBefore asc x y = entryComesBefore asc (f x) (f y)"
  shows "entry_order.best asc n (image_mset f X) (image_mset f H)"
proof -
  have sub: "H \<subseteq># X" using b by (simp add: row_order.best_def)
  have "n \<le> entry_order.better asc (f x) (image_mset f H)" if x: "x \<in># X - H" for x
  proof -
    have "filter_mset (\<lambda>h. rowComesBefore asc h x) H = filter_mset (\<lambda>h. entryComesBefore asc (f h) (f x)) H"
      using f sub x by (intro filter_mset_cong) (auto dest: mset_subset_eqD in_diffD)
    then have "row_order.better asc x H = entry_order.better asc (f x) (image_mset f H)"
      by (simp add: row_order.better_def entry_order.better_def filter_mset_image_mset)
    then show ?thesis using b x by (auto simp: row_order.best_def)
  qed
  moreover have "image_mset f X - image_mset f H = image_mset f (X - H)" using sub by (simp add: image_mset_Diff)
  ultimately show ?thesis using sub by (auto simp: entry_order.best_def image_mset_subseteq_mono)
qed

section \<open>A stored chunk\<close>

text \<open>The files of a batch are where the segment has them, and what the format can hold.\<close>

definition chunk_stored :: "query_env \<Rightarrow> string \<Rightarrow> nat \<Rightarrow> Entry list \<Rightarrow> bool" where
  "chunk_stored E dir i b \<longleftrightarrow>
     ReadFile E (chunkPath dir i) = Inr (written_chunk (zs E) b) \<and> ReadFile E (idxPath dir i) = Inr (written_index (zs E) (uc E) b) \<and>
     chunk_fits (zs E) b \<and> index_fits (zs E) (build_index (uc E) (map Message b)) \<and> length b < 2 ^ 32 \<and>
     list_all (\<lambda>e. chunk_normal e = e) b"

definition reader_at :: "query_env \<Rightarrow> string \<Rightarrow> Reader" where
  "reader_at E path = (case OpenChunk (ReadFile E) path of Inr r \<Rightarrow> r | Inl _ \<Rightarrow> no_columns)"

definition caches_ok :: "query_env \<Rightarrow> query_caches \<Rightarrow> bool" where
  "caches_ok E q \<longleftrightarrow> column_cache.coherent (schema_load (zs E) (reader_at E)) (qcolumns q) \<and>
     pred_option (index_cache.coherent (OpenIndexFile (ReadFile E))) (qindexes q)"

lemma open_stored:
  assumes "chunk_stored E dir i b"
  shows "OpenChunk (ReadFile E) (chunkPath dir i) = Inr (written_reader (zs E) b (written_chunk (zs E) b))"
  using assms open_written [OF _ chunk_file_written] by (simp add: chunk_stored_def OpenChunk_def)

lemma open_scan_stored:
  assumes Z: "zstd_lib (zs E)" and st: "chunk_stored E dir i b" and q: "caches_ok E q"
    and r: "OpenChunk (ReadFile E) (chunkPath dir i) = Inr r"
  shows "open_scan (zs E) (reader_at E) b (newCachedChunkColumns r (qcolumns q) (chunkPath dir i))"
proof -
  have r: "r = written_reader (zs E) b (written_chunk (zs E) b)" and at: "reader_at E (chunkPath dir i) = r"
    using r open_stored [OF st] by (simp_all add: reader_at_def)
  have fits: "chunk_fits (zs E) b" using st by (simp add: chunk_stored_def)
  have dir: "\<exists>e. directory r (fst col) = Some e \<and> Type e = column_type_code (snd col)" if "col \<in> set Schema" for col
    using raw_written [OF fits chunk_file_written that] r by simp
  have "direct_read (zs E) r ty n = Inr (column_values b (n, ty))" if "map_of Schema n = Some ty" for n ty
  proof -
    have col: "(n, ty) \<in> set Schema" using that by (rule map_of_SomeD)
    obtain e where e: "directory r n = Some e" "Type e = column_type_code ty" using dir [OF col] by auto
    from ReadColumn_direct [OF e, of "zs E"] show ?thesis using ReadColumn_written [OF Z fits chunk_file_written col] r by simp
  qed
  moreover have "cols_ok (zs E) (reader_at E) (newCachedChunkColumns r (qcolumns q) (chunkPath dir i))"
    using new_cols_ok [of "zs E" "reader_at E" "qcolumns q" "chunkPath dir i"] q at by (simp add: caches_ok_def)
  moreover have "HasColumn r n" if "(n, ty) \<in> set Schema" for n ty using dir [OF that] by (auto simp: HasColumn_def)
  ultimately show ?thesis
    by (auto simp: open_scan_def holds_def hasColumn_def list_all_iff newCachedChunkColumns_def)
qed

lemma candidates_stored:
  assumes Z: "zstd_lib (zs E)" and st: "chunk_stored E dir i b" and q: "caches_ok E q"
  shows "\<exists>q'. candidates E p (idxPath dir i) q =
    (Inr (if pQuery p = [] then None else Some (filter (\<lambda>r. query_match (uc E) p (b ! r)) [0..<length b])), q') \<and> caches_ok E q'"
proof (cases "pQuery p = []")
  case False
  let ?msgs = "map Message b" and ?qs = "TokenizeUnique (uc E) (pQuery p)"
  let ?r = "opened (zs E) (build_index (uc E) ?msgs) (length b)"
  have fits: "index_fits (zs E) (build_index (uc E) ?msgs)" "length b < 2 ^ 32"
    and ff: "ReadFile E (idxPath dir i) = Inr (written_index (zs E) (uc E) b)"
    using st by (simp_all add: chunk_stored_def)
  have "OpenIndexFile (ReadFile E) (idxPath dir i) = Inr ?r"
    using open_index [OF fits] ff by (simp add: OpenIndexFile_def written_index_def)
  then obtain ix where ix: "Cache_Open (ReadFile E) (Stat E) (qindexes q) (idxPath dir i) = (Inr ?r, ix)"
    and ok: "pred_option (index_cache.coherent (OpenIndexFile (ReadFile E))) ix"
    using Cache_Open_ok [of "ReadFile E" "qindexes q" "Stat E" "idxPath dir i"] q
    by (cases "Cache_Open (ReadFile E) (Stat E) (qindexes q) (idxPath dir i)") (simp add: caches_ok_def)
  have match: "query_match (uc E) p (b ! r) \<longleftrightarrow> ?qs \<noteq> [] \<and> set ?qs \<subseteq> set (TokenizeUnique (uc E) (Message (b ! r)))" for r
    using False by (auto simp: query_match_def messageMatchesQuery_def Let_def list_all_iff set_TokenizeUnique)
  have s: "\<exists>ids. Index.Search (uc E) (zs E) ?r (pQuery p) = Inr ids \<and>
      sorted_list_of_set (unat ` set ids) = filter (\<lambda>r. query_match (uc E) p (b ! r)) [0..<length b]"
  proof (cases "?qs = []")
    case True
    then show ?thesis by (simp add: Index.Search_def match)
  next
    case nonempty: False
    let ?rows = "rows_matching (uc E) ?msgs (set ?qs)"
    have lt: "r < length b" if "r \<in> set ?rows" for r using that by (simp add: rows_matching_def)
    then have "unat ` set (map of_nat ?rows :: u32 list) = set ?rows"
    proof -
      have "(\<lambda>r. unat (of_nat r :: u32)) ` set ?rows = (\<lambda>r. r) ` set ?rows"
      proof (intro image_cong refl)
        fix r assume "r \<in> set ?rows"
        then have "r < 2 ^ 32" using lt fits(2) by fastforce
        then show "unat (of_nat r :: u32) = r" by (simp add: unat_of_nat_small)
      qed
      then show ?thesis by (simp add: image_image)
    qed
    moreover have "sorted_list_of_set (set ?rows) = ?rows"
      by (intro sorted_list_of_set.idem_if_sorted_distinct) (simp_all add: rows_matching_def sorted_wrt_filter)
    moreover have "?rows = filter (\<lambda>r. query_match (uc E) p (b ! r)) [0..<length b]"
      using nonempty by (auto simp: rows_matching_def match intro!: filter_cong)
    ultimately show ?thesis using search_built [OF Z _ fits(1) nonempty, of "length b"] fits(2) by auto
  qed
  then show ?thesis using False ix ok q by (auto simp: candidates_def caches_ok_def)
qed (use q in \<open>simp add: candidates_def\<close>)

lemma scan_caches:
  "holds (zs E) (reader_at E) b cols \<Longrightarrow> caches_ok E q \<Longrightarrow> caches_ok E (q\<lparr>qcolumns := shared cols\<rparr>)"
  "open_scan (zs E) (reader_at E) b cols \<Longrightarrow> caches_ok E q \<Longrightarrow> caches_ok E (q\<lparr>qcolumns := shared cols\<rparr>)"
  by (simp_all add: open_scan_def holds_def cols_ok_def caches_ok_def)

lemma openChunkRows_stored:
  assumes Z: "zstd_lib (zs E)" and st: "chunk_stored E dir i b" and q: "caches_ok E q"
    and rows_def: "rows = filter (\<lambda>r. query_match (uc E) p (b ! r) \<and> column_match (uc E) (clock E) p (b ! r)) [0..<length b]"
  shows "\<exists>res q'. openChunkRows E p (chunkPath dir i) (idxPath dir i) q = (Inr res, q') \<and> caches_ok E q' \<and>
    (case res of None \<Rightarrow> rows = [] | Some (cols, rows') \<Rightarrow> rows' = rows \<and> open_scan (zs E) (reader_at E) b cols)"
proof -
  let ?cand = "if pQuery p = [] then [0..<length b] else filter (\<lambda>r. query_match (uc E) p (b ! r)) [0..<length b]"
  obtain q1 where c: "candidates E p (idxPath dir i) q =
      (Inr (if pQuery p = [] then None else Some (filter (\<lambda>r. query_match (uc E) p (b ! r)) [0..<length b])), q1)" and q1: "caches_ok E q1"
    using candidates_stored [OF Z st q, of p] by blast
  let ?r = "written_reader (zs E) b (written_chunk (zs E) b)"
  let ?cols = "newCachedChunkColumns ?r (qcolumns q1) (chunkPath dir i)"
  have sc: "open_scan (zs E) (reader_at E) b ?cols" by (rule open_scan_stored [OF Z st q1 open_stored [OF st]])
  have "list_all (\<lambda>r. r < length b) ?cand" by (simp add: list_all_iff)
  from row_filterD [OF column_filters_ok this, of "zs E" "reader_at E" "uc E" "clock E" p] obtain cols where
    f: "applyColumnFilters (zs E) (uc E) (clock E) p ?cand ?cols = (Inr (filter (\<lambda>r. column_match (uc E) (clock E) p (b ! r)) ?cand), cols)"
    and sc': "open_scan (zs E) (reader_at E) b cols" using sc unfolding yields_def by blast
  have rows: "filter (\<lambda>r. column_match (uc E) (clock E) p (b ! r)) ?cand = rows"
    by (auto simp: rows_def query_match_def conj_commute intro!: filter_cong)
  have n: "EntryCount ?r = length b" by (simp add: written_reader_def)
  show ?thesis
  proof (cases "pQuery p \<noteq> [] \<and> ?cand = []")
    case True
    then have "rows = []" using rows unfolding conjunct2 [OF True] by simp
    then show ?thesis using True c q1 by (auto simp: openChunkRows_def)
  next
    case False
    then have "openChunkRows E p (chunkPath dir i) (idxPath dir i) q = (Inr (Some (cols, rows)), q1\<lparr>qcolumns := shared cols\<rparr>)"
      using c f rows open_stored [OF st] n
      by (auto simp: openChunkRows_def Let_def split: list.split if_splits)
    then show ?thesis using scan_caches(2) [OF sc' q1] sc' by auto
  qed
qed

text \<open>The body is read only when it is asked for.\<close>

definition row_entry :: "bool \<Rightarrow> Entry \<Rightarrow> Entry" where
  "row_entry includeBody e = (if includeBody then e else e\<lparr>Body := []\<rparr>)"

lemma fill_stored:
  assumes "holds Z readers b c" "list_all (\<lambda>e. chunk_normal e = e) b" "row < length b"
  shows "\<exists>c'. fillEntryFromChunkProjected Z c row body = (None, row_entry body (b ! row), c') \<and> holds Z readers b c'"
  using fill_holds [OF assms(1,3), of body] assms(2,3) by (cases body) (simp_all add: row_entry_def list_all_length)

lemma read_rows_stored:
  assumes "list_all (\<lambda>e. chunk_normal e = e) b"
  shows "holds (zs E) readers b c \<Longrightarrow> list_all (\<lambda>r. r < length b) rows \<Longrightarrow>
    \<exists>c'. read_rows E p body rows c = (filter (\<lambda>e. matchesParams (uc E) (js E) e p) (map (\<lambda>r. row_entry body (b ! r)) rows), c') \<and> holds (zs E) readers b c'"
proof (induction rows arbitrary: c)
  case (Cons row rows)
  obtain c1 where c1: "fillEntryFromChunkProjected (zs E) c row body = (None, row_entry body (b ! row), c1)" "holds (zs E) readers b c1"
    using fill_stored [OF Cons.prems(1) assms] Cons.prems(2) by auto
  then obtain c2 where "read_rows E p body rows c1 = (filter (\<lambda>e. matchesParams (uc E) (js E) e p) (map (\<lambda>r. row_entry body (b ! r)) rows), c2)"
    "holds (zs E) readers b c2" using Cons.IH [OF c1(2)] Cons.prems(2) by auto
  then show ?case using c1(1) by simp
qed simp

lemma materialize_stored:
  assumes "list_all (\<lambda>e. chunk_normal e = e) b"
  shows "holds (zs E) readers b c \<Longrightarrow> list_all (\<lambda>r. r < length b) rows \<Longrightarrow>
    \<exists>c'. materializeUntil E p n body rows c =
      (take n (filter (\<lambda>e. matchesParams (uc E) (js E) e p) (map (\<lambda>r. row_entry body (b ! r)) rows)), c') \<and> holds (zs E) readers b c'"
proof (induction rows arbitrary: c n)
  case (Cons row rows)
  obtain c1 where c1: "fillEntryFromChunkProjected (zs E) c row body = (None, row_entry body (b ! row), c1)" "holds (zs E) readers b c1"
    using fill_stored [OF Cons.prems(1) assms] Cons.prems(2) by auto
  have rows: "list_all (\<lambda>r. r < length b) rows" using Cons.prems(2) by simp
  from Cons.IH [OF c1(2) rows, of n] Cons.IH [OF c1(2) rows, of "n - 1"] show ?case
    using c1(1) Cons.prems(1) by (cases n) auto
qed simp

lemma filter_rows: "map (\<lambda>r. f (b ! r)) (filter (\<lambda>r. P (b ! r)) [0..<length b]) = map f (filter P b)"
proof -
  have "map (\<lambda>r. b ! r) (filter (\<lambda>r. P (b ! r)) [0..<length b]) = filter P (map (\<lambda>r. b ! r) [0..<length b])"
    by (simp add: filter_map comp_def)
  then have "map (\<lambda>r. b ! r) (filter (\<lambda>r. P (b ! r)) [0..<length b]) = filter P b" by (simp add: map_nth)
  then have "map f (map (\<lambda>r. b ! r) (filter (\<lambda>r. P (b ! r)) [0..<length b])) = map f (filter P b)" by (rule arg_cong)
  then show ?thesis by (simp add: comp_def)
qed

section \<open>What a chunk contributes\<close>

text \<open>The entries of a batch a query wants, as it wants them.\<close>

definition matched :: "query_env \<Rightarrow> SearchParams \<Rightarrow> Entry list \<Rightarrow> Entry list" where
  "matched E p es = map (live_candidate p) (filter (\<lambda>e. matchesParams (uc E) (js E) e p) es)"

lemma matched_append: "matched E p (xs @ ys) = matched E p xs @ matched E p ys"
  by (simp add: matched_def)

lemma candidate_frame [simp]: "Ts (live_candidate p e) = Ts e" "ID (live_candidate p e) = ID e"
  by (simp_all add: live_candidate_def)

lemma before_candidate [simp]: "entryComesBefore asc (live_candidate p a) (live_candidate p b) = entryComesBefore asc a b"
  by (simp add: entryComesBefore_def)

definition ascending_ids :: "Entry list \<Rightarrow> bool" where
  "ascending_ids es \<longleftrightarrow> sorted_wrt (\<lambda>a b. ID a <s ID b) es"

lemma fold_exact: "v = [] \<or> EqualFold U x v \<Longrightarrow> (v \<noteq> [] \<and> EqualFold U x v \<longrightarrow> x = v) \<Longrightarrow> v = [] \<or> x = v"
  by blast

lemma column_ids:
  assumes "ids_exact U p e" "column_match U now p e"
  shows "ids_equal p e"
  unfolding ids_equal_def using assms unfolding ids_exact_def column_match_def scalar_match_def by - (elim conjE, intro conjI; (erule fold_exact, assumption))

lemma no_post: "\<not> needsPostReadFilter p \<Longrightarrow> pMetadataFilter p = [] \<and> pExclude p = []"
  by (simp add: needsPostReadFilter_def)

lemma columns_match_params:
  assumes "pStart p = Some s" "pEnd p = Some t" "\<not> needsPostReadFilter p" "ids_exact U p e"
  shows "query_match U p e \<and> column_match U now p e \<longleftrightarrow> matchesParams U J e p"
proof -
  have "matchesMetadata J e (pMetadataFilter p)" "matchesExclude U e (pExclude p)"
    using no_post [OF assms(3)] by (simp_all add: matchesMetadata_def matchesExclude_def)
  then show ?thesis using matchesParams_iff [OF assms(1,2), of U J e now] column_ids [OF assms(4), of now] by blast
qed

lemma column_match_frame:
  "column_match U now (p\<lparr>pQuery := x\<rparr>) e = column_match U now p e" "column_match U now p (e\<lparr>Body := y\<rparr>) = column_match U now p e"
  by (simp_all add: column_match_def scalar_match_def isRequestEntry_def)

lemma reread_matches:
  assumes "pStart p = Some s" "pEnd p = Some t" "\<not> needsPostReadFilter p" "ids_exact U p e" "column_match U now p e"
  shows "matchesParams U J (row_entry body e) (p\<lparr>pQuery := []\<rparr>)"
proof -
  have b: "pStart (p\<lparr>pQuery := []\<rparr>) = Some s" "pEnd (p\<lparr>pQuery := []\<rparr>) = Some t" using assms(1,2) by simp_all
  have "ids_equal (p\<lparr>pQuery := []\<rparr>) (row_entry body e)"
    using column_ids [OF assms(4,5)] by (simp add: ids_equal_def row_entry_def)
  moreover have "column_match U now (p\<lparr>pQuery := []\<rparr>) (row_entry body e)"
    using assms(5) by (simp add: row_entry_def column_match_frame)
  ultimately show ?thesis
    using no_post [OF assms(3)] by (simp add: matchesParams_iff [OF b, where now = now] query_match_def matchesMetadata_def matchesExclude_def)
qed

lemma row_entry_candidate: "\<not> needsPostReadFilter p \<Longrightarrow> row_entry (\<not> pOmitBody p) e = live_candidate p e"
  by (simp add: row_entry_def live_candidate_def)

lemma ascending_before:
  assumes "ascending_ids b" "r < length b" "r' < length b"
  shows "ID (b ! r) <s ID (b ! r') \<longleftrightarrow> r < r'"
proof -
  have mono: "i < j \<Longrightarrow> j < length b \<Longrightarrow> ID (b ! i) <s ID (b ! j)" for i j
    using assms(1) by (simp add: ascending_ids_def sorted_wrt_iff_nth_less)
  show ?thesis using mono [of r r'] mono [of r' r] assms(2,3)
    by (cases r r' rule: linorder_cases) (auto simp: word_sless_alt)
qed

text \<open>Narrowing to the rows of a page keeps a best part of the entries.\<close>

lemma select_rows_best:
  assumes ids: "ascending_ids b" and rows: "list_all (\<lambda>r. r < length b) rows" "distinct rows" and n: "0 < n" "n < int (length rows)"
    and sel_def: "sel = selectTopRows (map Ts b) rows asc n"
  shows "set sel \<subseteq> set rows" and "entry_order.best asc (nat n) (mset (map (\<lambda>r. live_candidate p (b ! r)) rows)) (mset (map (\<lambda>r. live_candidate p (b ! r)) sel))"
proof -
  let ?mk = "\<lambda>r. \<lparr>crow = r, cts = tsAt (map Ts b) r\<rparr>" and ?f = "\<lambda>c. live_candidate p (b ! crow c)"
  define h where "h = fold (offer_top (rowComesBefore asc) (nat n)) (map ?mk rows) []"
  have sel: "sel = sort (map crow h)" using n by (simp add: sel_def selectTopRows_def h_def fold_map comp_def)
  have "distinct (map snd (map (row_key asc) (map ?mk rows)))" using rows(2) by (simp add: row_key_def comp_def)
  then have "distinct (map (row_key asc) (map ?mk rows))" using distinct_map [of snd "map (row_key asc) (map ?mk rows)"] by blast
  then have best: "row_order.best asc (nat n) (mset (map ?mk rows)) (mset h)"
    unfolding h_def using n(1) by (intro row_order.select_best) simp_all
  then have "set h \<subseteq> set (map ?mk rows)" unfolding row_order.best_def by (metis set_mset_mono set_mset_mset)
  then show "set sel \<subseteq> set rows" unfolding sel by auto
  have order: "rowComesBefore asc x y = entryComesBefore asc (?f x) (?f y)" if "x \<in> set (map ?mk rows)" "y \<in> set (map ?mk rows)" for x y
  proof -
    from that obtain r r' where xy: "x = ?mk r" "y = ?mk r'" "r < length b" "r' < length b" using rows(1) by (auto simp: list_all_iff)
    then show ?thesis using ascending_before [OF ids xy(3,4)] by (simp add: rowComesBefore_def entryComesBefore_def tsAt_def)
  qed
  have "entry_order.best asc (nat n) (image_mset ?f (mset (map ?mk rows))) (image_mset ?f (mset h))"
    using order by (intro best_entries [OF best]) simp_all
  moreover have "mset (map (\<lambda>r. live_candidate p (b ! r)) sel) = image_mset ?f (mset h)"
    unfolding sel by (simp add: multiset.map_comp comp_def)
  moreover have "mset (map (\<lambda>r. live_candidate p (b ! r)) rows) = image_mset ?f (mset (map ?mk rows))"
    by (simp add: multiset.map_comp comp_def)
  ultimately show "entry_order.best asc (nat n) (mset (map (\<lambda>r. live_candidate p (b ! r)) rows)) (mset (map (\<lambda>r. live_candidate p (b ! r)) sel))"
    by simp
qed

lemma top_rows_stored:
  "open_scan (zs E) readers b cols \<Longrightarrow>
   \<exists>cols'. topRowsByTs (zs E) rows asc n cols = (Inr (selectTopRows (map Ts b) rows asc n), cols') \<and> open_scan (zs E) readers b cols'"
  using yields_bind [OF ts_scan yields_ret, of "zs E" readers b "''read ts column for ordering''" "\<lambda>ts. selectTopRows ts rows asc n"]
  unfolding yields_def topRowsByTs_def by blast

text \<open>
  The conditions under which narrowing before reading gives the right page. Without body-dependent filters the rows of a page are
  chosen by the columns alone, so an identifier that equals the wanted one up to case must equal it; with such filters
  the bodies must be read, and descending rows with one timestamp are met in the order opposite to the page's.
\<close>

definition query_ok :: "query_env \<Rightarrow> SearchParams \<Rightarrow> Entry list \<Rightarrow> bool" where
  "query_ok E p b \<longleftrightarrow>
     (if needsPostReadFilter p then \<not> pOmitBody p \<and> (pSortAsc p \<or> distinct (map Ts b)) else list_all (ids_exact (uc E) p) b)"

lemma needs_post_query [simp]: "needsPostReadFilter (p\<lparr>pQuery := x\<rparr>) = needsPostReadFilter p"
  by (simp add: needsPostReadFilter_def)

lemma ordered_rows_stored:
  "open_scan (zs E) readers b cols \<Longrightarrow>
   \<exists>cols'. rowsInTsOrder (zs E) rows asc cols = (Inr (sort_Slice (\<lambda>i j.
         let ti = tsAt (map Ts b) i; tj = tsAt (map Ts b) j
         in if ti \<noteq> tj then (if asc then ti <s tj else tj <s ti) else if asc then i < j else j < i) rows), cols') \<and> open_scan (zs E) readers b cols'"
  using yields_bind [OF ts_scan yields_ret, of "zs E" readers b "''read ts column for ordering''" "\<lambda>tsValues. sort_Slice (\<lambda>i j.
         let ti = tsAt tsValues i; tj = tsAt tsValues j
         in if ti \<noteq> tj then (if asc then ti <s tj else tj <s ti) else if asc then i < j else j < i) rows"]
  unfolding yields_def rowsInTsOrder_def by blast

lemma order_rows_entries:
  assumes ids: "ascending_ids b" and rows: "list_all (\<lambda>r. r < length b) rows" and ts: "asc \<or> distinct (map Ts b)"
  shows "map (\<lambda>r. b ! r) (sort_Slice (\<lambda>i j.
         let ti = tsAt (map Ts b) i; tj = tsAt (map Ts b) j
         in if ti \<noteq> tj then (if asc then ti <s tj else tj <s ti) else if asc then i < j else j < i) rows)
    = sort_Slice (entryComesBefore asc) (map (\<lambda>r. b ! r) rows)"
proof (rule sort_Slice_map)
  fix x y assume "x \<in> set rows" "y \<in> set rows"
  then have lt: "x < length b" "y < length b" using rows by (auto simp: list_all_iff)
  have "\<not> asc \<Longrightarrow> Ts (b ! x) = Ts (b ! y) \<Longrightarrow> x = y" using ts lt by (auto simp: distinct_conv_nth)
  then show "(let ti = tsAt (map Ts b) x; tj = tsAt (map Ts b) y
       in if ti \<noteq> tj then (if asc then ti <s tj else tj <s ti) else if asc then x < y else y < x)
     = entryComesBefore asc (b ! x) (b ! y)"
    using ascending_before [OF ids lt] lt by (auto simp: Let_def tsAt_def entryComesBefore_def)
qed

lemma distinct_entry_keys: "distinct (map ID es) \<Longrightarrow> distinct (map (entry_key asc) es)"
  by (auto simp: distinct_map entry_key_def inj_on_def sint_eq_iff)

lemma ascending_distinct: "ascending_ids b \<Longrightarrow> distinct (map ID b)"
proof -
  assume "ascending_ids b"
  then have "sorted_wrt (<) (map (\<lambda>e. sint (ID e)) b)" by (simp add: ascending_ids_def sorted_wrt_map word_sless_alt)
  then have "distinct (map sint (map ID b))" by (simp add: strict_sorted_iff comp_def)
  then show ?thesis by (auto simp: distinct_map inj_on_def)
qed

lemma rows_entries:
  assumes "rows = filter (\<lambda>r. query_match U p (b ! r) \<and> column_match U now p (b ! r)) [0..<length b]"
  shows "map (\<lambda>r. f (b ! r)) rows = map f (filter (\<lambda>e. query_match U p e \<and> column_match U now p e) b)"
  unfolding assms by (rule filter_rows)

text \<open>Rows chosen by the columns alone.\<close>

lemma plain_rows_matched:
  assumes rows: "rows = filter (\<lambda>r. query_match (uc E) p (b ! r) \<and> column_match (uc E) (clock E) p (b ! r)) [0..<length b]"
    and bounds: "pStart p = Some s" "pEnd p = Some t" and plain: "\<not> needsPostReadFilter p" and ok: "query_ok E p b"
  shows "map (\<lambda>r. live_candidate p (b ! r)) rows = matched E p b"
    and "set rows' \<subseteq> set rows \<Longrightarrow> filter (\<lambda>e. matchesParams (uc E) (js E) e (p\<lparr>pQuery := []\<rparr>)) (map (\<lambda>r. row_entry (\<not> pOmitBody p) (b ! r)) rows')
      = map (\<lambda>r. live_candidate p (b ! r)) rows'"
proof -
  have ids: "e \<in> set b \<Longrightarrow> ids_exact (uc E) p e" for e using ok plain by (simp add: query_ok_def list_all_iff)
  have "filter (\<lambda>e. query_match (uc E) p e \<and> column_match (uc E) (clock E) p e) b = filter (\<lambda>e. matchesParams (uc E) (js E) e p) b"
    using columns_match_params [OF bounds plain ids] by (intro filter_cong) simp_all
  then show "map (\<lambda>r. live_candidate p (b ! r)) rows = matched E p b" using rows_entries [OF rows] by (simp add: matched_def)
  assume sub: "set rows' \<subseteq> set rows"
  have "matchesParams (uc E) (js E) (row_entry (\<not> pOmitBody p) (b ! r)) (p\<lparr>pQuery := []\<rparr>)" if "r \<in> set rows'" for r
  proof (rule reread_matches [OF bounds plain])
    have "r \<in> set rows" using sub that by blast
    then show "ids_exact (uc E) p (b ! r)" "column_match (uc E) (clock E) p (b ! r)" unfolding rows using ids by simp_all
  qed
  then show "filter (\<lambda>e. matchesParams (uc E) (js E) e (p\<lparr>pQuery := []\<rparr>)) (map (\<lambda>r. row_entry (\<not> pOmitBody p) (b ! r)) rows')
      = map (\<lambda>r. live_candidate p (b ! r)) rows'"
    by (simp add: row_entry_candidate [OF plain] filter_id_conv)
qed

text \<open>Rows that have to be read to be judged.\<close>

lemma read_rows_matched:
  assumes rows: "rows = filter (\<lambda>r. query_match (uc E) p (b ! r) \<and> column_match (uc E) (clock E) p (b ! r)) [0..<length b]"
    and bounds: "pStart p = Some s" "pEnd p = Some t" and post: "needsPostReadFilter p"
  shows "filter (\<lambda>e. matchesParams (uc E) (js E) e (p\<lparr>pQuery := []\<rparr>)) (map (\<lambda>r. b ! r) rows) = matched E p b"
proof -
  let ?p = "p\<lparr>pQuery := []\<rparr>"
  have b: "pStart ?p = Some s" "pEnd ?p = Some t" using bounds by simp_all
  have "query_match (uc E) p e \<and> column_match (uc E) (clock E) p e \<and> matchesParams (uc E) (js E) e ?p \<longleftrightarrow> matchesParams (uc E) (js E) e p" for e
    unfolding matchesParams_iff [OF bounds, where now = "clock E"] matchesParams_iff [OF b, where now = "clock E"] column_match_frame
    by (auto simp: query_match_def ids_equal_def)
  then have "filter (\<lambda>e. matchesParams (uc E) (js E) e ?p) (filter (\<lambda>e. query_match (uc E) p e \<and> column_match (uc E) (clock E) p e) b)
      = filter (\<lambda>e. matchesParams (uc E) (js E) e p) b" by (simp add: conj_ac)
  moreover have "live_candidate p = (\<lambda>e. e)" using post by (simp add: live_candidate_def fun_eq_iff)
  ultimately show ?thesis using rows_entries [OF rows, of "\<lambda>e. e"] by (simp add: matched_def)
qed

lemma matched_keys:
  assumes "distinct (map ID es)"
  shows "distinct (map (entry_key asc) (matched E p es))"
proof (rule distinct_entry_keys)
  have "map ID (matched E p es) = map ID (filter (\<lambda>e. matchesParams (uc E) (js E) e p) es)" by (simp add: matched_def)
  then show "distinct (map ID (matched E p es))" using assms by (simp add: distinct_map_filter)
qed

lemma narrowed_rows:
  assumes rows: "rows = filter (\<lambda>r. query_match (uc E) p (b ! r) \<and> column_match (uc E) (clock E) p (b ! r)) [0..<length b]"
    and bounds: "pStart p = Some s" "pEnd p = Some t" and plain: "\<not> needsPostReadFilter p" and ok: "query_ok E p b"
    and ids: "ascending_ids b" and sc: "open_scan (zs E) readers b cols"
  shows "\<exists>rows' cols'. (if page_limit p > 0 \<and> int (length rows) > page_limit p then topRowsByTs (zs E) rows (pSortAsc p) (page_limit p) cols
      else (Inr rows, cols)) = (Inr rows', cols') \<and> holds (zs E) readers b cols' \<and> set rows' \<subseteq> set rows \<and>
    entry_order.best (pSortAsc p) (nat (page_limit p)) (mset (matched E p b)) (mset (map (\<lambda>r. live_candidate p (b ! r)) rows'))"
proof -
  have lt: "list_all (\<lambda>r. r < length b) rows" and d: "distinct rows" by (simp_all add: rows list_all_iff)
  note m = plain_rows_matched(1) [OF rows bounds plain ok]
  show ?thesis
  proof (cases "page_limit p > 0 \<and> int (length rows) > page_limit p")
    case True
    then have n: "page_limit p > 0" "page_limit p < int (length rows)" by simp_all
    show ?thesis
      using True top_rows_stored [OF sc, of rows "pSortAsc p" "page_limit p"] select_rows_best(1) [OF ids lt d n refl, of "pSortAsc p"]
        select_rows_best(2) [OF ids lt d n refl, of "pSortAsc p" p] unfolding m open_scan_def by (metis (no_types, lifting))
  next
    case False
    have "entry_order.best (pSortAsc p) (nat (page_limit p)) (mset (matched E p b)) (mset (map (\<lambda>r. live_candidate p (b ! r)) rows))"
      unfolding m by (rule entry_order.best_refl)
    then show ?thesis using False sc by (intro exI [of _ rows] exI [of _ cols]) (simp only: open_scan_def if_False simp_thms subset_refl)
  qed
qed

lemma searchChunk_plain:
  assumes rows: "rows = filter (\<lambda>r. query_match (uc E) p (b ! r) \<and> column_match (uc E) (clock E) p (b ! r)) [0..<length b]"
    and bounds: "pStart p = Some s" "pEnd p = Some t" and plain: "\<not> needsPostReadFilter p" and ok: "query_ok E p b"
    and ids: "ascending_ids b" and norm: "list_all (\<lambda>e. chunk_normal e = e) b" and sc: "open_scan (zs E) (reader_at E) b cols"
    and o: "openChunkRows E p path ipath q = (Inr (Some (cols, rows)), q1)" and q1: "caches_ok E q1" and nonempty: "rows \<noteq> []"
  shows "\<exists>es q'. searchChunk E p path ipath q = (Inr es, q') \<and> caches_ok E q' \<and>
    entry_order.best (pSortAsc p) (nat (page_limit p)) (mset (matched E p b)) (mset es)"
proof -
  from narrowed_rows [OF rows bounds plain ok ids sc] obtain rows' cols' where
    top: "(if page_limit p > 0 \<and> int (length rows) > page_limit p then topRowsByTs (zs E) rows (pSortAsc p) (page_limit p) cols
      else (Inr rows, cols)) = (Inr rows', cols')" and h: "holds (zs E) (reader_at E) b cols'" and sub: "set rows' \<subseteq> set rows"
    and best: "entry_order.best (pSortAsc p) (nat (page_limit p)) (mset (matched E p b)) (mset (map (\<lambda>r. live_candidate p (b ! r)) rows'))"
    by blast
  have "list_all (\<lambda>r. r < length b) rows'" using sub by (auto simp: rows list_all_iff)
  from read_rows_stored [OF norm h this, of "p\<lparr>pQuery := []\<rparr>" "\<not> pOmitBody p"] obtain cols'' where
    rr: "read_rows E (p\<lparr>pQuery := []\<rparr>) (\<not> pOmitBody p) rows' cols' = (map (\<lambda>r. live_candidate p (b ! r)) rows', cols'')"
    and h': "holds (zs E) (reader_at E) b cols''"
    using plain_rows_matched(2) [OF rows bounds plain ok sub] by auto
  have "searchChunk E p path ipath q = (Inr (map (\<lambda>r. live_candidate p (b ! r)) rows'), q1\<lparr>qcolumns := shared cols''\<rparr>)"
    using top rr o nonempty plain by (simp add: searchChunk_def)
  then show ?thesis using best scan_caches(1) [OF h' q1] by blast
qed

lemma searchChunk_post:
  assumes rows: "rows = filter (\<lambda>r. query_match (uc E) p (b ! r) \<and> column_match (uc E) (clock E) p (b ! r)) [0..<length b]"
    and bounds: "pStart p = Some s" "pEnd p = Some t" and post: "needsPostReadFilter p" and ok: "query_ok E p b"
    and ids: "ascending_ids b" and norm: "list_all (\<lambda>e. chunk_normal e = e) b" and sc: "open_scan (zs E) (reader_at E) b cols"
    and o: "openChunkRows E p path ipath q = (Inr (Some (cols, rows)), q1)" and q1: "caches_ok E q1" and nonempty: "rows \<noteq> []"
  shows "\<exists>es q'. searchChunk E p path ipath q = (Inr es, q') \<and> caches_ok E q' \<and>
    entry_order.best (pSortAsc p) (nat (page_limit p)) (mset (matched E p b)) (mset es)"
proof -
  let ?n = "page_limit p" and ?F = "p\<lparr>pQuery := []\<rparr>" and ?sorted = "sort_Slice (entryComesBefore (pSortAsc p))"
  have lt: "list_all (\<lambda>r. r < length b) rows" by (simp add: rows list_all_iff)
  have body: "\<not> pOmitBody p" and ts: "pSortAsc p \<or> distinct (map Ts b)" using ok post by (simp_all add: query_ok_def)
  have re: "row_entry True = (\<lambda>e. e)" by (simp add: row_entry_def fun_eq_iff)
  note m = read_rows_matched [OF rows bounds post]
  show ?thesis
  proof (cases "?n > 0 \<and> int (length rows) > ?n")
    case False
    have "holds (zs E) (reader_at E) b cols" using sc by (simp add: open_scan_def)
    from read_rows_stored [OF norm this lt, of ?F True] obtain cols' where
      "read_rows E ?F True rows cols = (matched E p b, cols')" "holds (zs E) (reader_at E) b cols'" using m by (auto simp: re)
    then show ?thesis using o nonempty post body False scan_caches(1) [OF _ q1] entry_order.best_refl
      by (auto simp: searchChunk_def Let_def)
  next
    case True
    obtain rows' cols' where ord: "rowsInTsOrder (zs E) rows (pSortAsc p) cols = (Inr rows', cols')"
      and h: "holds (zs E) (reader_at E) b cols'" and rows': "set rows' = set rows" "length rows' = length rows"
      and srt: "map (\<lambda>r. b ! r) rows' = ?sorted (map (\<lambda>r. b ! r) rows)"
    proof -
      obtain cols' where "rowsInTsOrder (zs E) rows (pSortAsc p) cols = (Inr (sort_Slice (\<lambda>i j.
         let ti = tsAt (map Ts b) i; tj = tsAt (map Ts b) j
         in if ti \<noteq> tj then (if pSortAsc p then ti <s tj else tj <s ti) else if pSortAsc p then i < j else j < i) rows), cols')"
        "holds (zs E) (reader_at E) b cols'" using ordered_rows_stored [OF sc, of rows "pSortAsc p"] unfolding open_scan_def by blast
      then show ?thesis by (rule that [OF _ _ set_sort_Slice length_sort_Slice order_rows_entries [OF ids lt ts]])
    qed
    have "filter (\<lambda>e. matchesParams (uc E) (js E) e ?F) (map (\<lambda>r. b ! r) rows') = ?sorted (matched E p b)"
      unfolding srt entry_order.sort_Slice_key filter_sort m ..
    moreover have "list_all (\<lambda>r. r < length b) rows'" using lt rows' by (simp add: list_all_iff)
    ultimately obtain cols'' where mt: "materializeUntil E ?F (nat ?n) True rows' cols' = (take (nat ?n) (?sorted (matched E p b)), cols'')"
      and h': "holds (zs E) (reader_at E) b cols''"
      using materialize_stored [OF norm h, of rows' ?F "nat ?n" True] by (auto simp: re)
    have "searchChunk E p path ipath q = (Inr (take (nat ?n) (?sorted (matched E p b))), q1\<lparr>qcolumns := shared cols''\<rparr>)"
      using o nonempty post True ord mt by (simp add: searchChunk_def Let_def)
    moreover have "entry_order.best (pSortAsc p) (nat ?n) (mset (matched E p b)) (mset (take (nat ?n) (?sorted (matched E p b))))"
      by (intro entry_order.take_best matched_keys ascending_distinct ids)
    ultimately show ?thesis using scan_caches(1) [OF h' q1] by blast
  qed
qed

lemma searchChunk_stored:
  assumes Z: "zstd_lib (zs E)" and st: "chunk_stored E dir i b" and q: "caches_ok E q" and ids: "ascending_ids b"
    and bounds: "pStart p = Some s" "pEnd p = Some t" and ok: "query_ok E p b"
  shows "\<exists>es q'. searchChunk E p (chunkPath dir i) (idxPath dir i) q = (Inr es, q') \<and> caches_ok E q' \<and>
    entry_order.best (pSortAsc p) (nat (page_limit p)) (mset (matched E p b)) (mset es)"
proof -
  define rows where "rows = filter (\<lambda>r. query_match (uc E) p (b ! r) \<and> column_match (uc E) (clock E) p (b ! r)) [0..<length b]"
  have norm: "list_all (\<lambda>e. chunk_normal e = e) b" using st by (simp add: chunk_stored_def)
  obtain res q1 where o: "openChunkRows E p (chunkPath dir i) (idxPath dir i) q = (Inr res, q1)" and q1: "caches_ok E q1"
    and res: "case res of None \<Rightarrow> rows = [] | Some (cols, rows') \<Rightarrow> rows' = rows \<and> open_scan (zs E) (reader_at E) b cols"
    using openChunkRows_stored [OF Z st q rows_def] by blast
  show ?thesis
  proof (cases "rows = []")
    case True
    then have "matched E p b = []"
      using read_rows_matched [OF rows_def bounds] plain_rows_matched(1) [OF rows_def bounds _ ok] by (cases "needsPostReadFilter p") simp_all
    moreover have "searchChunk E p (chunkPath dir i) (idxPath dir i) q = (Inr [], q1)"
      using o res True by (auto simp: searchChunk_def split: option.splits)
    ultimately show ?thesis using q1 by (simp add: entry_order.best_refl)
  next
    case False
    then obtain cols where cr: "res = Some (cols, rows)" and sc: "open_scan (zs E) (reader_at E) b cols" using res by (auto split: option.splits)
    note args = ok ids norm sc o [unfolded cr] q1 False
    show ?thesis
      using searchChunk_plain [OF rows_def bounds _ args] searchChunk_post [OF rows_def bounds _ args] by (cases "needsPostReadFilter p") blast+
  qed
qed

end
