(* ===== verification/Search_Page.thy ===== *)
theory Search_Page
  imports Search
begin

text \<open>
  The page of a search: every chunk, every segment and the live logs contribute a best part of their matches, best parts add
  up, and a page of the merged best parts is the page of all matches.
\<close>

section \<open>Segments\<close>

text \<open>A segment whose metadata list the chunks \<open>bs\<close>, each stored under its number.\<close>

definition segment_stored :: "query_env \<Rightarrow> LoadedSegment \<Rightarrow> Entry list list \<Rightarrow> bool" where
  "segment_stored E seg bs \<longleftrightarrow> mChunks (Meta seg) = metas_from 0 bs \<and>
     (\<forall>i < length bs. chunk_stored E (DirPath seg) i (bs ! i))"

lemma search_chunks_stored:
  assumes Z: "zstd_lib (zs E)" and bounds: "pStart p = Some s" "pEnd p = Some t"
  shows "caches_ok E q \<Longrightarrow> (\<And>i. i < length bs \<Longrightarrow> chunk_stored E dir (k + i) (bs ! i)) \<Longrightarrow>
    list_all (\<lambda>b. ascending_ids b \<and> query_ok E p b) bs \<Longrightarrow>
    \<exists>es q'. search_chunks E p dir (metas_from k bs) q = (Inr es, q') \<and> caches_ok E q' \<and>
      entry_order.best (pSortAsc p) (nat (page_limit p)) (mset (matched E p (concat bs))) (mset es)"
proof (induction bs arbitrary: k q)
  case Nil
  then show ?case by (simp add: entry_order.best_refl matched_def)
next
  case (Cons b bs)
  have st: "chunk_stored E dir k b" using Cons.prems(2) [of 0] by simp
  have b: "ascending_ids b" "query_ok E p b" using Cons.prems(3) by simp_all
  obtain es q1 where c: "searchChunk E p (chunkPath dir k) (idxPath dir k) q = (Inr es, q1)" and q1: "caches_ok E q1"
    and best: "entry_order.best (pSortAsc p) (nat (page_limit p)) (mset (matched E p b)) (mset es)"
    using searchChunk_stored [OF Z st Cons.prems(1) b(1) bounds b(2)] by blast
  have "chunk_stored E dir (Suc k + i) (bs ! i)" if "i < length bs" for i using Cons.prems(2) [of "Suc i"] that by simp
  from Cons.IH [OF q1 this] Cons.prems(3) obtain rest q2 where
    r: "search_chunks E p dir (metas_from (Suc k) bs) q1 = (Inr rest, q2)" and q2: "caches_ok E q2"
    and best': "entry_order.best (pSortAsc p) (nat (page_limit p)) (mset (matched E p (concat bs))) (mset rest)" by auto
  from entry_order.best_union [OF best best'] show ?case using c r q2 by (simp add: chunk_meta_def matched_append)
qed

lemma cap_best:
  assumes "entry_order.best asc (nat m) (mset X) (mset es)" "distinct (map (entry_key asc) X)"
  shows "entry_order.best asc (nat m) (mset X) (mset (capEntriesByTs es asc m))"
proof (cases "m \<le> 0 \<or> int (length es) \<le> m")
  case False
  have "distinct (map (entry_key asc) es)"
    using assms by (intro entry_order.distinct_keys_part [of es X]) (simp_all add: entry_order.best_def)
  from entry_order.best_trans [OF assms(1) entry_order.take_best [OF this]] show ?thesis
    using False by (simp add: capEntriesByTs_def sortEntriesByTs_def)
qed (use assms(1) in \<open>auto simp: capEntriesByTs_def\<close>)

lemma search_segments_stored:
  assumes Z: "zstd_lib (zs E)" and bounds: "pStart p = Some s" "pEnd p = Some t"
  shows "caches_ok E q \<Longrightarrow> list_all2 (segment_stored E) segs bss \<Longrightarrow> list_all (\<lambda>b. ascending_ids b \<and> query_ok E p b) (concat bss) \<Longrightarrow>
    distinct (map ID (concat (concat bss))) \<Longrightarrow>
    \<exists>es n q'. search_segments E p segs q = ((es, n), q') \<and> caches_ok E q' \<and>
      entry_order.best (pSortAsc p) (nat (page_limit p)) (mset (matched E p (concat (concat bss)))) (mset es)"
proof (induction segs arbitrary: bss q)
  case Nil
  then show ?case by (simp add: entry_order.best_refl matched_def)
next
  case (Cons seg segs)
  obtain bs rest where bss: "bss = bs # rest" using Cons.prems(2) by (cases bss) auto
  have st: "mChunks (Meta seg) = metas_from 0 bs" "\<And>i. i < length bs \<Longrightarrow> chunk_stored E (DirPath seg) (0 + i) (bs ! i)"
    using Cons.prems(2) bss by (simp_all add: segment_stored_def)
  have "list_all (\<lambda>b. ascending_ids b \<and> query_ok E p b) bs" using Cons.prems(3) bss by simp
  from search_chunks_stored [OF Z bounds Cons.prems(1) st(2) this] obtain es q1 where
    c: "searchSegment E p seg q = (Inr es, q1)" and q1: "caches_ok E q1"
    and best: "entry_order.best (pSortAsc p) (nat (page_limit p)) (mset (matched E p (concat bs))) (mset es)"
    using st(1) by (auto simp: searchSegment_def)
  have "distinct (map (entry_key (pSortAsc p)) (matched E p (concat bs)))" using Cons.prems(4) bss by (intro matched_keys) simp
  note capped = cap_best [OF best this]
  from Cons.IH [OF q1, of rest] Cons.prems(2-4) bss obtain es' n q2 where
    r: "search_segments E p segs q1 = ((es', n), q2)" and q2: "caches_ok E q2"
    and best': "entry_order.best (pSortAsc p) (nat (page_limit p)) (mset (matched E p (concat (concat rest)))) (mset es')" by auto
  from entry_order.best_union [OF capped best'] show ?case using c r q2 bss by (simp add: matched_append)
qed

section \<open>Live logs\<close>

lemma walk_offers:
  "walk (offer_entry E p n) es (h, k) =
     (False, (fold (offer_top (entryComesBefore (pSortAsc p)) n) (matched E p es) h, k + length (matched E p es)))"
  by (induction es arbitrary: h k) (simp_all add: offer_entry_def matched_def)

lemma searchWALsTop_best:
  assumes "wal_cache_ok (zs E) B fs c" "0 < page_limit p"
    and live: "live = concat (map (wal_entries (zs E) fs) paths)" and d: "distinct (map ID live)"
  shows "\<exists>es c'. searchWALsTop E M B fs p paths (page_limit p) c = ((es, length (matched E p live)), c') \<and> wal_cache_ok (zs E) B fs c' \<and>
    entry_order.best (pSortAsc p) (nat (page_limit p)) (mset (matched E p live)) (mset es)"
proof -
  let ?fn = "offer_entry E p (nat (page_limit p))"
  let ?es = "fold (offer_top (entryComesBefore (pSortAsc p)) (nat (page_limit p))) (matched E p live) []"
  have "entry_order.best (pSortAsc p) (nat (page_limit p)) (mset (matched E p live)) (mset ?es)"
    using assms(2) by (intro entry_order.select_best matched_keys d) simp
  moreover have "snd (walk ?fn live ([], 0)) = (?es, length (matched E p live))" by (simp add: walk_offers)
  ultimately show ?thesis
    using forEachWALEntry_ok [OF assms(1), of M paths ?fn "([], 0)"] assms(2) live
    by (cases "forEachWALEntry (zs E) M B fs c paths ?fn ([], 0)") (auto simp: searchWALsTop_def)
qed

section \<open>The page\<close>

lemma search_defaults_facts:
  "0 < pLimit (search_defaults now p)" "pLimit (search_defaults now p) \<le> 500" "pOffset (search_defaults now p) = pOffset p"
  "\<exists>s. pStart (search_defaults now p) = Some s" "\<exists>t. pEnd (search_defaults now p) = Some t"
  by (auto simp: search_defaults_def Let_def)

lemma page_limit_eq:
  assumes "0 \<le> pOffset p" "pOffset p < 2 ^ 63 - 500" "0 < pLimit p" "pLimit p \<le> 500"
  shows "page_limit p = pOffset p + pLimit p"
proof -
  have "sint (word_of_int x :: int64) = x" if "- (2 ^ 63) \<le> x" "x < 2 ^ 63" for x
    using that by (simp add: signed_of_int signed_take_bit_int_eq_self)
  from this [of "pOffset p + pLimit p"] show ?thesis unfolding page_limit_def using assms by linarith
qed

lemma paginate:
  assumes "0 \<le> off" "0 < lim"
  shows "(let xs = (if 0 < off \<and> off < int (length xs) then drop (nat off) xs else if off \<ge> int (length xs) then [] else xs)
    in if int (length xs) > lim then take (nat lim) xs else xs) = take (nat lim) (drop (nat off) xs)"
  using assms by (auto simp: Let_def)

section \<open>Properties\<close>

text \<open>
  C4: a search returns the page of all matches. Take the segments a query sees, with the chunks they hold, and the live logs;
  let all their entries have distinct ids, those of each chunk ascending. Then the page is what sorting every matching
  entry by time and id and cutting at offset and limit gives, although every chunk, segment and log only contributes
  its best rows; whatever the caches hold, they stay coherent. Filters on identifiers are to be unambiguous up to case, or
  the bodies are read and descending chunks have distinct times (\<open>query_ok\<close>).
\<close>

theorem search_page_exact:
  assumes "zstd_lib (zs E)" and "p' = search_defaults (clock E) p" and "0 \<le> pOffset p" and "pOffset p < 2 ^ 63 - 500"
    and "qview (the (pStart p')) (the (pEnd p')) = (segs, paths)" and "list_all2 (segment_stored E) segs bss"
    and "es = concat (concat bss) @ concat (map (wal_entries (zs E) fs) paths)" and "distinct (map ID es)"
    and "list_all (\<lambda>b. ascending_ids b \<and> query_ok E p' b) (concat bss)"
    and "caches_ok E q" and "wal_cache_ok (zs E) B fs c"
  shows "\<exists>n q' c'. Store_Search E M B fs qview p q c =
      (\<lparr>Entries = take (nat (pLimit p')) (drop (nat (pOffset p)) (sortEntriesByTs (pSortAsc p') (matched E p' es))), Total = n\<rparr>, q', c') \<and>
    caches_ok E q' \<and> wal_cache_ok (zs E) B fs c'"
proof -
  let ?asc = "pSortAsc p'" and ?n = "nat (page_limit p')" and ?sealed = "concat (concat bss)"
  let ?live = "concat (map (wal_entries (zs E) fs) paths)"
  note df = search_defaults_facts [of "clock E" p, folded assms(2)]
  obtain s t where bounds: "pStart p' = Some s" "pEnd p' = Some t" using df(4,5) by blast
  have limit: "page_limit p' = pOffset p + pLimit p'" using assms(3,4) df by (subst page_limit_eq) simp_all
  have d: "distinct (map ID ?sealed)" "distinct (map ID ?live)" using assms(7,8) by simp_all
  obtain m1 n1 q' where s: "search_segments E p' segs q = ((m1, n1), q')" and q': "caches_ok E q'"
    and b1: "entry_order.best ?asc ?n (mset (matched E p' ?sealed)) (mset m1)"
    using search_segments_stored [OF assms(1) bounds assms(10,6,9) d(1)] by blast
  have "0 < page_limit p'" using limit assms(3) df(1) by simp
  from searchWALsTop_best [OF assms(11) this refl d(2), of M] obtain m2 c' where
    w: "searchWALsTop E M B fs p' paths (page_limit p') c = ((m2, length (matched E p' ?live)), c')" and c': "wal_cache_ok (zs E) B fs c'"
    and b2: "entry_order.best ?asc ?n (mset (matched E p' ?live)) (mset m2)" by blast
  have "entry_order.best ?asc ?n (mset (matched E p' es)) (mset (m1 @ m2))"
    using entry_order.best_union [OF b1 b2] by (simp add: assms(7) matched_append)
  from entry_order.page_of_best [OF this matched_keys [OF assms(8)]]
  have "take ?n (sortEntriesByTs ?asc (m1 @ m2)) = take ?n (sortEntriesByTs ?asc (matched E p' es))" by (simp add: sortEntriesByTs_def)
  then have "take (nat (pLimit p')) (drop (nat (pOffset p)) (sortEntriesByTs ?asc (m1 @ m2)))
      = take (nat (pLimit p')) (drop (nat (pOffset p)) (sortEntriesByTs ?asc (matched E p' es)))"
    using assms(3) df(1) by (simp add: limit nat_add_distrib take_drop add.commute)
  moreover have "Store_Search E M B fs qview p q c =
      (\<lparr>Entries = take (nat (pLimit p')) (drop (nat (pOffset p)) (sortEntriesByTs ?asc (m1 @ m2))), Total = n1 + length (matched E p' ?live)\<rparr>, q', c')"
    using s w assms(5) paginate [OF assms(3) df(1), of "sortEntriesByTs ?asc (m1 @ m2)"] df(3)
    by (simp add: Store_Search_def assms(2) [symmetric] Let_def)
  ultimately show ?thesis using q' c' by auto
qed

text \<open>One sealed chunk with one entry, and no live log.\<close>

definition one_entry :: Entry where "one_entry = zero_entry\<lparr>Level := ''info''\<rparr>"

definition one_env :: query_env where
  "one_env = \<lparr>zs = stored_zstd, uc = ascii_unicode, js = \<lparr>Unmarshal = \<lambda>_. None, Sprintv = \<lambda>_. []\<rparr>,
     ReadFile = (\<lambda>path. Inr (if path = chunkPath ''d'' 0 then written_chunk stored_zstd [one_entry]
                             else written_index stored_zstd ascii_unicode [one_entry])),
     Stat = (\<lambda>_. None), clock = 0\<rparr>"

lemma one_stored: "segment_stored one_env \<lparr>Hour = 0, DirPath = ''d'', Meta = sealed_meta 0 0 [one_entry]\<rparr> [[one_entry]]"
proof -
  have "chunk_normal one_entry = one_entry"
    by (simp add: one_entry_def zero_entry_def chunk_normal_def normal_int_def normal_status_def)
  moreover have "build_index ascii_unicode [[]] = []" by code_simp
  moreover have "batches (effectiveSealChunkEntries 0) 0 [one_entry] = [[one_entry]]"
    by (simp add: batches_Cons effectiveSealChunkEntries_def chunkSize_def batch_limit_def)
  ultimately show ?thesis
    using one_row_fits sealed_meta_of [of "[one_entry]" 0 0]
    by (auto simp: segment_stored_def chunk_stored_def one_env_def chunkPath_def idxPath_def Join_def meta_of_def received_def index_fits_def
        one_entry_def zero_entry_def)
qed

theorem search_page_exact_witness:
  "\<exists>n q' c'. Store_Search one_env 0 0 \<lparr>names = \<lambda>_. None, contents = \<lambda>_. []\<rparr>
      (\<lambda>_ _. ([\<lparr>Hour = 0, DirPath = ''d'', Meta = sealed_meta 0 0 [one_entry]\<rparr>], [])) (no_params\<lparr>pLevel := ''info''\<rparr>)
      \<lparr>qcolumns = newColumnCache 0, qindexes = NewCache 0\<rparr> newWALCache = (\<lparr>Entries = [one_entry], Total = n\<rparr>, q', c')"
proof -
  let ?p = "no_params\<lparr>pLevel := ''info''\<rparr>" and ?q = "\<lparr>qcolumns = newColumnCache 0, qindexes = NewCache 0\<rparr>"
  let ?fs = "\<lparr>names = \<lambda>_. None, contents = \<lambda>_. []\<rparr>"
  let ?seg = "\<lparr>Hour = 0, DirPath = ''d'', Meta = sealed_meta 0 0 [one_entry]\<rparr>"
  let ?p' = "search_defaults (clock one_env) ?p"
  have q: "caches_ok one_env ?q"
    by (simp add: caches_ok_def column_cache.coherent_def newColumnCache_inv NewCache_def)
  have "wal_cache_ok stored_zstd 0 ?fs newWALCache" by (simp add: wal_cache_ok_def newWALCache_def accounted_def)
  then have w: "wal_cache_ok (zs one_env) 0 ?fs newWALCache" by (simp add: one_env_def)
  have p': "pLimit ?p' = 50" "pSortAsc ?p' = False" by (simp_all add: search_defaults_def no_params_def)
  have "matchesParams ascii_unicode J one_entry ?p'" for J
    by (simp add: matchesParams_def search_defaults_def no_params_def one_env_def one_entry_def zero_entry_def matchesMetadata_def
        matchesExclude_def UnixMilli_def)
  then have m: "matched one_env ?p' [one_entry] = [one_entry]"
    by (simp add: matched_def one_env_def live_candidate_def search_defaults_def no_params_def)
  have "query_ok one_env ?p' [one_entry]"
    by (simp add: query_ok_def ids_exact_def search_defaults_def no_params_def needsPostReadFilter_def)
  from search_page_exact [OF _ refl, of one_env ?p "\<lambda>_ _. ([?seg], [])" "[?seg]" "[]" "[[[one_entry]]]" "[one_entry]" ?fs ?q 0 newWALCache 0]
    this q w one_stored m p' stored_zstd_lib show ?thesis
    by (simp add: no_params_def one_env_def ascending_ids_def sortEntriesByTs_def sort_Slice_def) blast
qed

end
