(* ===== verification/Search_Gaps.thy ===== *)
theory Search_Gaps
  imports Search_Page
begin

text \<open>
  Two pages that miss a match: instances outside the conditions of \<open>query_ok\<close>, on one stored chunk of two rows.
\<close>

section \<open>A chunk of two rows\<close>

definition lower_user :: Entry where "lower_user = zero_entry\<lparr>Level := ''info'', UserID := ''a'', Body := [123]\<rparr>"
definition upper_user :: Entry where "upper_user = zero_entry\<lparr>ID := 1, Ts := 1, Level := ''info'', UserID := ''A''\<rparr>"

lemma length_delta_two: "length (DeltaEncode stored_zstd [v, w]) < 4294967296"
  using length_concat_put_uvarint [of "zigzag_deltas v [v, w]"]
  by (simp add: DeltaEncode_def delta_encode_loop_eq Compress_def stored_zstd_def PutUvarint_def)

lemma dict_two:
  "DictEncodeLimit [[], []] 65535 = \<lparr>Dict = [[]], Indices = [0, 0]\<rparr>"
  "DictEncodeLimit [''info'', ''info''] 256 = \<lparr>Dict = [[], ''info''], Indices = [1, 1]\<rparr>"
  by (simp_all add: DictEncodeLimit_def dict_limit_def MaxDictEntries_def)

lemma fits_dict_two:
  "fits_dict (int MaxDictEntries) [[], []]" "fits_dict (int maxBitpackDictEntries) [''info'', ''info'']"
  by (simp_all add: fits_dict_def dict_two dict_buf_def length_AppendLenString strlen_consts MaxBlockBytes_def
    dict_limit_def MaxDictEntries_def maxBitpackDictEntries_def)

lemma length_dict_two: "length (DictMarshal stored_zstd (DictEncode [[], []])) < 4294967296"
  by (simp add: DictEncode_def dict_two DictMarshal_def Let_def Compress_stored MaxDictEntries_def fold_AppendLenString length_AppendLenString strlen_consts)

lemma level_two: "\<exists>d. encodeDictBitpack [''info'', ''info''] = Inr d \<and> length d < 4294967296"
proof -
  have b: "BitsNeeded (Suc (Suc 0)) = 1" by (simp add: BitsNeeded_def bits_needed_loop.simps)
  show ?thesis
    by (simp add: encodeDictBitpack_def dict_two Let_def b maxBitpackDictEntries_def BitpackEncode_def serializeDictOnly_buf dict_buf_def length_AppendLenString strlen_consts)
qed

lemma two_rows_fit: "chunk_fits stored_zstd [lower_user, upper_user]"
proof -
  obtain d where d: "encodeDictBitpack [''info'', ''info''] = Inr d" "length d < 4294967296" using level_two by blast
  note extracts = extractInt64_def extractString_def extractOptionalInt64_def extractOptionalBool_def extractBody_def
    int64_fields_def string_fields_def optional_int64_fields_def zero_entry_def nulls_def status_string_def lower_user_def upper_user_def
  note fits = fits_delta_def fits_int64_def fits_block_def fits_sparse_def fits_sparse_int_def fits_sparse_bool_def
    fits_sparse_bytes_def zstd_consts block_fits_def DecodeCeiling_def
  note encs = SparseStrings_def SparseInt64_def SparseBool_def SparseBytes_def buildBitmap_def buildBitmapPtr_def
    buildBitmapPtrBool_def buildBitmapBytes_def Compress_stored marshalSparse_def ZstdBlockEncodeInt64_def
    ZstdBlockEncodeStrings_def Let_def PutVarint_def
  show ?thesis
    by (simp add: chunk_fits_def Schema_def maxChunkEntries_def,
        simp add: column_fits_def coldata_def encodeColumn_def, simp add: extracts, simp add: fits, simp add: encs,
        simp add: length_delta_two d fits_dict_two length_dict_two length_AppendLenString strlen_consts
          AppendLenString_buf [of "AppendLenString [] s" for s])
qed

definition two_env :: query_env where
  "two_env = \<lparr>zs = stored_zstd, uc = ascii_unicode, js = \<lparr>Unmarshal = \<lambda>_. Some (JObject [(''metadata'', JObject [(''k'', JString ''v'')])]), Sprintv = \<lambda>_. ''v''\<rparr>,
     ReadFile = (\<lambda>path. Inr (if path = chunkPath ''d'' 0 then written_chunk stored_zstd [lower_user, upper_user]
                             else written_index stored_zstd ascii_unicode [lower_user, upper_user])),
     Stat = (\<lambda>_. None), clock = 10 ^ 9\<rparr>"

definition user_query :: SearchParams where
  "user_query = search_defaults (10 ^ 9) (no_params\<lparr>pUserID := ''a'', pLimit := 1\<rparr>)"

definition metadata_query :: SearchParams where
  "metadata_query = search_defaults (10 ^ 9) (no_params\<lparr>pMetadataFilter := [(''k'', ''v'')], pOmitBody := True\<rparr>)"

lemma two_stored: "chunk_stored two_env ''d'' 0 [lower_user, upper_user]"
proof -
  have "list_all (\<lambda>e. chunk_normal e = e) [lower_user, upper_user]"
    by (simp add: lower_user_def upper_user_def zero_entry_def chunk_normal_def normal_int_def normal_status_def)
  moreover have "build_index ascii_unicode [[], []] = []" by code_simp
  ultimately show ?thesis
    using two_rows_fit by (auto simp: chunk_stored_def two_env_def chunkPath_def idxPath_def Join_def index_fits_def lower_user_def upper_user_def zero_entry_def)
qed


lemma two_scan:
  assumes p: "pStart p = Some s" "UnixMilli s \<le> 0" "pEnd p = Some t" "1 \<le> UnixMilli t" and "pQuery p = []"
    and "\<And>e. e \<in> {lower_user, upper_user} \<Longrightarrow> column_match (uc two_env) (clock two_env) p e"
  shows "\<exists>cols q1. openChunkRows two_env p (chunkPath ''d'' 0) (idxPath ''d'' 0) \<lparr>qcolumns = newColumnCache 0, qindexes = NewCache 0\<rparr>
      = (Inr (Some (cols, [0, 1])), q1) \<and> open_scan (zs two_env) (reader_at two_env) [lower_user, upper_user] cols"
proof -
  let ?q = "\<lparr>qcolumns = newColumnCache 0, qindexes = NewCache 0\<rparr> :: query_caches" and ?b = "[lower_user, upper_user]"
  have Z: "zstd_lib (zs two_env)" by (simp add: two_env_def stored_zstd_lib)
  have q: "caches_ok two_env ?q" by (simp add: caches_ok_def column_cache.coherent_def newColumnCache_inv NewCache_def)
  have "[0, 1] = filter (\<lambda>r. query_match (uc two_env) p (?b ! r) \<and> column_match (uc two_env) (clock two_env) p (?b ! r)) [0..<length ?b]"
    using assms(5,6) by (simp add: query_match_def upt_rec)
  from openChunkRows_stored [OF Z two_stored q this] show ?thesis by (auto split: option.splits)
qed

lemma two_normal: "list_all (\<lambda>e. chunk_normal e = e) [lower_user, upper_user]"
  using two_stored by (simp add: chunk_stored_def)

section \<open>Properties\<close>

text \<open>
  C33: narrowing by case-insensitive columns can lose the answer. The columns keep rows whose user id equals the wanted
  one up to case, the newest of them fill the page, and only then is the id compared exactly: with the ids \<open>a\<close> and \<open>A\<close>
  in one chunk, a search for \<open>a\<close> with a page of one entry reads only the row of \<open>A\<close> and returns nothing, although the
  entry of \<open>a\<close> matches.
\<close>

theorem case_fold_narrowing_misses:
  "(\<exists>q'. searchChunk two_env user_query (chunkPath ''d'' 0) (idxPath ''d'' 0) \<lparr>qcolumns = newColumnCache 0, qindexes = NewCache 0\<rparr> = (Inr [], q')) \<and>
   matched two_env user_query [lower_user, upper_user] = [lower_user]"
proof -
  let ?q = "\<lparr>qcolumns = newColumnCache 0, qindexes = NewCache 0\<rparr> :: query_caches" and ?b = "[lower_user, upper_user]"
  note defs = user_query_def search_defaults_def no_params_def two_env_def lower_user_def upper_user_def zero_entry_def UnixMilli_def
  have fold: "EqualFold ascii_unicode ''A'' ''a''" by code_simp
  have "column_match (uc two_env) (clock two_env) user_query e" if "e \<in> {lower_user, upper_user}" for e
    using that fold by (auto simp: column_match_def scalar_match_def defs)
  from two_scan [OF _ _ _ _ _ this, of "- 3599 * 10 ^ 9" "10 ^ 9"] obtain cols q1 where
    o: "openChunkRows two_env user_query (chunkPath ''d'' 0) (idxPath ''d'' 0) ?q = (Inr (Some (cols, [0, 1])), q1)"
    and sc: "open_scan (zs two_env) (reader_at two_env) ?b cols" by (auto simp: user_query_def search_defaults_def no_params_def UnixMilli_def)
  have pl: "page_limit user_query = 1" "pSortAsc user_query = False" "\<not> needsPostReadFilter user_query"
    by (simp_all add: page_limit_def user_query_def search_defaults_def no_params_def needsPostReadFilter_def)
  have "selectTopRows (map Ts ?b) [0, 1] False 1 = [1]"
    by (simp add: defs selectTopRows_def offer_top_def heap_Push_def heap_up.simps heap_Fix_def heap_down.simps rowComesBefore_def tsAt_def parent_def word_sless_alt)
  with top_rows_stored [OF sc, of "[0, 1]" False 1] obtain cols1 where
    t: "topRowsByTs (zs two_env) [0, 1] False 1 cols = (Inr [1], cols1)" and "open_scan (zs two_env) (reader_at two_env) ?b cols1" by auto
  then have h: "holds (zs two_env) (reader_at two_env) ?b cols1" by (simp add: open_scan_def)
  have no: "\<not> matchesParams (uc two_env) (js two_env) (row_entry body upper_user) (user_query\<lparr>pQuery := []\<rparr>)" for body
    by (simp add: matchesParams_def row_entry_def defs)
  from read_rows_stored [OF two_normal h, of "[1]" "user_query\<lparr>pQuery := []\<rparr>" "\<not> pOmitBody user_query"] no obtain cols2 where
    "read_rows two_env (user_query\<lparr>pQuery := []\<rparr>) (\<not> pOmitBody user_query) [1] cols1 = ([], cols2)" by auto
  then have "\<exists>q'. searchChunk two_env user_query (chunkPath ''d'' 0) (idxPath ''d'' 0) ?q = (Inr [], q')"
    using o t pl by (simp add: searchChunk_def)
  moreover have "matched two_env user_query ?b = [lower_user]"
    by (simp add: matched_def matchesParams_def live_candidate_def matchesMetadata_def matchesExclude_def defs)
  ultimately show ?thesis ..
qed


end
