(* ===== verification/Lookup.thy ===== *)
theory Lookup
  imports Search_Page
begin

text \<open>
  Looking an entry up by its id, \<open>GetByID\<close> of \<open>internal/logstore/engine/store.go\<close>: the id names the hour, the hour the
  segment, the id ranges of the metadata the chunk and the row; ids in no sealed segment are searched in the live logs.
\<close>

section \<open>Operations\<close>

definition ErrEntryNotFound :: err where "ErrEntryNotFound = Errorf ''log entry not found'' []"

definition not_found :: "int64 \<Rightarrow> err" where
  "not_found i = Wrapf ''%w: entry ID %d'' [D (sint i)] ErrEntryNotFound"

text \<open>The error of opening a missing file, and \<open>os.IsNotExist\<close>, which does not look into wrapped errors.\<close>

definition ErrNotExist :: err where "ErrNotExist = Errorf ''file does not exist'' []"

definition IsNotExist :: "err \<Rightarrow> bool" where "IsNotExist e = (e = ErrNotExist)"

fun locatePhysicalChunk :: "ChunkMeta list \<Rightarrow> int64 \<Rightarrow> (nat \<times> int) option" where
  "locatePhysicalChunk [] i = None"
| "locatePhysicalChunk (cm # cms) i =
     (if i <s fst (cIDRange cm) \<or> snd (cIDRange cm) <s i then locatePhysicalChunk cms i
      else Some (cIndex cm, sint (i - fst (cIDRange cm))))"

definition find_entry :: "int64 \<Rightarrow> Entry option callback" where
  "find_entry i e found = (if ID e = i then (False, Some e) else (True, found))"

definition findInWALs :: "query_env \<Rightarrow> int \<Rightarrow> int \<Rightarrow> filesys \<Rightarrow> string list \<Rightarrow> int64 \<Rightarrow> walCache \<Rightarrow> Entry res \<times> walCache" where
  "findInWALs E M B fs paths i c =
     (case forEachWALEntry (zs E) M B fs c paths (find_entry i) None of
        (None, c) \<Rightarrow> (Inl (not_found i), c)
      | (Some e, c) \<Rightarrow> (Inr e, c))"

definition GetByID ::
  "query_env \<Rightarrow> int \<Rightarrow> int \<Rightarrow> filesys \<Rightarrow> segments \<Rightarrow> string list \<Rightarrow> int64 \<Rightarrow> query_caches \<Rightarrow> walCache \<Rightarrow> Entry res \<times> query_caches \<times> walCache" where
  "GetByID E M B fs segs paths i q c =
     (case FindSegmentByID i segs of
        None \<Rightarrow> (case findInWALs E M B fs paths i c of (r, c) \<Rightarrow> (r, q, c))
      | Some seg \<Rightarrow>
          (case locatePhysicalChunk (mChunks (Meta seg)) i of
             None \<Rightarrow> (Inl (not_found i), q, c)
           | Some (chunkNum, row) \<Rightarrow>
               let path = chunkPath (DirPath seg) chunkNum
               in case OpenChunk (ReadFile E) path of
                    Inl e \<Rightarrow>
                      (Inl (if IsNotExist e then not_found i
                            else Wrapf ''open chunk for ID %d (hour=%d chunk=%d)'' [D (sint i), D (sint (fst (DecodeID i))), D (int chunkNum)] e), q, c)
                  | Inr r \<Rightarrow>
                      if row \<ge> int (EntryCount r)
                      then (Inl (Wrapf ''%w: entry ID %d (row %d of %d)'' [D (sint i), D row, D (int (EntryCount r))] ErrEntryNotFound), q, c)
                      else if row < 0 then (Inl Panic, q, c)
                      else case readEntryFromChunk (zs E) (newCachedChunkColumns r (qcolumns q) path) (nat row) of
                             (res, cols) \<Rightarrow> (res, q\<lparr>qcolumns := shared cols\<rparr>, c)))"

definition GetBody ::
  "query_env \<Rightarrow> int \<Rightarrow> int \<Rightarrow> filesys \<Rightarrow> segments \<Rightarrow> string list \<Rightarrow> int64 \<Rightarrow> query_caches \<Rightarrow> walCache \<Rightarrow> bytes res \<times> query_caches \<times> walCache" where
  "GetBody E M B fs segs paths i q c = (case GetByID E M B fs segs paths i q c of (r, qc) \<Rightarrow> (rbind r (\<lambda>e. Inr (Body e)), qc))"

section \<open>From an id to its row\<close>

text \<open>Entries numbered as the writer numbers an hour, from position \<open>k\<close> on.\<close>

definition numbered :: "nat \<Rightarrow> nat \<Rightarrow> Entry list \<Rightarrow> bool" where
  "numbered h k es \<longleftrightarrow> h < 2 ^ 32 \<and> k + length es \<le> MaxEntriesPerSegment \<and> (\<forall>i < length es. ID (es ! i) = of_nat (pos_nat h (k + i)))"

lemma numbered_id: "numbered h k es \<Longrightarrow> i < length es \<Longrightarrow> ID (es ! i) = of_nat (pos_nat h (k + i))"
  by (simp add: numbered_def)

lemma numbered_take: "numbered h k es \<Longrightarrow> numbered h k (take l es)"
  by (auto simp: numbered_def)

lemma numbered_drop: "numbered h k es \<Longrightarrow> numbered h (k + min l (length es)) (drop l es)"
  by (auto simp: numbered_def add.assoc)

lemma numbered_less:
  assumes "numbered h k es" "i < length es" "j < length es"
  shows "ID (es ! i) <s ID (es ! j) \<longleftrightarrow> i < j"
proof -
  have b: "k + i < MaxEntriesPerSegment" "k + j < MaxEntriesPerSegment" "h < 2 ^ 32" using assms by (auto simp: numbered_def)
  have "pos_nat h (k + i) < pos_nat h (k + j) \<longleftrightarrow> i < j"
    using pos_nat_mono [of "k + i" "k + j" h] pos_nat_mono [of "k + j" "k + i" h] b by (metis add_less_cancel_left less_asym linorder_neqE_nat)
  then show ?thesis
    using assms int64_less [OF pos_nat_bound [OF b(3,1)] pos_nat_bound [OF b(3,2)]] by (simp add: numbered_def)
qed

lemma numbered_ascending: "numbered h k es \<Longrightarrow> ascending_ids es"
  unfolding ascending_ids_def sorted_wrt_iff_nth_less using numbered_less by (meson less_trans)

lemma numbered_row:
  assumes "numbered h k es" "i < length es" and "k mod chunkSize + length es \<le> chunkSize"
  shows "sint (ID (es ! i) - ID (hd es)) = int i"
proof -
  have ne: "hd es = es ! 0" using assms(2) by (cases es) auto
  have "(k + i) div chunkSize = k div chunkSize" "(k + i) mod chunkSize = k mod chunkSize + i"
  proof -
    have eq: "k + i = k div chunkSize * chunkSize + (k mod chunkSize + i)" by simp
    have lt: "k mod chunkSize + i < chunkSize" using assms(2,3) by simp
    have "(x * m + y) div m = x" "(x * m + y) mod m = y" if "y < m" for x y m :: nat using that by simp_all
    from this [OF lt, of "k div chunkSize"] show "(k + i) div chunkSize = k div chunkSize" "(k + i) mod chunkSize = k mod chunkSize + i"
      unfolding eq [symmetric] by simp_all
  qed
  then have "pos_nat h (k + i) = pos_nat h k + i" by (simp add: pos_nat_def id_nat_def)
  then have "ID (es ! i) - ID (hd es) = of_nat i"
    using numbered_id [OF assms(1), of i] numbered_id [OF assms(1), of 0] assms(2) ne by force
  moreover have "i < 2 ^ 63" using assms(2,3) by (simp add: chunkSize_def)
  ultimately show ?thesis by (simp add: signed_of_nat signed_take_bit_int_eq_self)
qed

text \<open>No batch crosses a boundary of the id layout, so ids run without gaps inside a batch.\<close>

lemma locate_batches:
  "0 < n \<Longrightarrow> numbered h k es \<Longrightarrow> i < length es \<Longrightarrow>
    \<exists>j row. locatePhysicalChunk (metas_from c (batches n k es)) (ID (es ! i)) = Some (c + j, int row) \<and>
      j < length (batches n k es) \<and> row < length (batches n k es ! j) \<and> batches n k es ! j ! row = es ! i"
proof (induction n k es arbitrary: c i rule: batches.induct)
  case (1 n k es)
  let ?l = "batch_limit n k" and ?b = "take (batch_limit n k) es"
  let ?rest = "batches n (k + length ?b) (drop ?l es)"
  have ne: "es \<noteq> []" using "1.prems" by auto
  have l: "0 < ?l" by (rule batch_limit_pos [OF "1.prems"(1)])
  have cut: "k mod chunkSize + ?l \<le> chunkSize" by (simp add: batch_limit_def chunkSize_def)
  have eq: "batches n k es = ?b # ?rest" by (rule batches_Cons [OF ne "1.prems"(1)])
  have hd: "hd ?b = es ! 0" using ne l by (cases es) (auto simp: take_Cons')
  have len: "length ?b = min ?l (length es)" and pos: "0 < length ?b" using ne l by simp_all
  have last: "last ?b = es ! (length ?b - 1)" using pos by (subst last_conv_nth) auto
  note less = numbered_less [OF "1.prems"(2)]
  show ?case
  proof (cases "i < length ?b")
    case True
    have "\<not> ID (es ! i) <s ID (hd ?b)" "\<not> ID (last ?b) <s ID (es ! i)"
      unfolding hd last using less "1.prems"(3) True ne len by auto
    moreover have "sint (ID (?b ! i) - ID (hd ?b)) = int i"
      using numbered_row [OF numbered_take [OF "1.prems"(2)] True] cut len by simp
    ultimately have "locatePhysicalChunk (metas_from c (batches n k es)) (ID (es ! i)) = Some (c + 0, int i)"
      unfolding eq using True by (simp add: chunk_meta_def)
    then show ?thesis using True eq by (rule_tac x = 0 in exI, rule_tac x = i in exI) simp
  next
    case False
    then have i: "i - length ?b < length (drop ?l es)" "drop ?l es ! (i - length ?b) = es ! i" using "1.prems"(3) len by auto
    have "ID (last ?b) <s ID (es ! i)" unfolding last using less [of "length ?b - 1" i] "1.prems"(3) False pos len by auto
    then have skip: "locatePhysicalChunk (metas_from c (batches n k es)) (ID (es ! i)) = locatePhysicalChunk (metas_from (Suc c) ?rest) (ID (es ! i))"
      unfolding eq by (simp add: chunk_meta_def)
    have "\<not> (es = [] \<or> n = 0)" using ne "1.prems"(1) by simp
    from "1.IH" [OF this refl "1.prems"(1) _ i(1), of "Suc c"] numbered_drop [OF "1.prems"(2), of ?l] len i(2)
    obtain j row where "locatePhysicalChunk (metas_from (Suc c) ?rest) (ID (es ! i)) = Some (Suc c + j, int row)"
      "j < length ?rest" "row < length (?rest ! j)" "?rest ! j ! row = es ! i" by (auto simp: min.commute)
    then show ?thesis unfolding skip unfolding eq by (rule_tac x = "Suc j" in exI, rule_tac x = row in exI) simp
  qed
qed

section \<open>Properties\<close>

lemma walk_find: "snd (walk (find_entry i) es None) = find (\<lambda>e. ID e = i) es"
  by (induction es) (simp_all add: find_entry_def)

lemma findInWALs_ok:
  assumes "wal_cache_ok (zs E) B fs c" "live = concat (map (wal_entries (zs E) fs) paths)"
  shows "fst (findInWALs E M B fs paths i c) = (case find (\<lambda>e. ID e = i) live of None \<Rightarrow> Inl (not_found i) | Some e \<Rightarrow> Inr e)"
  using forEachWALEntry_ok [OF assms(1), of M paths "find_entry i" None] assms(2)
  by (auto simp: findInWALs_def walk_find split: prod.split option.split)

text \<open>
  C12: every entry can be fetched by its id. An hour's entries are numbered by the writer and sealed into a segment; the list
  of segments is sorted and has the segment under its hour. Then looking up the id of any entry of the hour gives
  exactly that entry, body included, through any coherent cache. An id of an hour that has no segment gives the first entry
  with that id in the live logs, or the not-found error.
\<close>

theorem get_by_id_exact:
  assumes "zstd_lib (zs E)" and "caches_ok E q" and "wal_cache_ok (zs E) B fs c" and "segments_ok segs"
    and "by_hour segs (int h) = Some seg" and "numbered h 0 es" and "i < length es"
    and "segment_stored E seg (batches n 0 es)" and "0 < n"
    and "by_hour segs (sint (fst (DecodeID j))) = None"
  shows "fst (GetByID E M B fs segs paths (ID (es ! i)) q c) = Inr (es ! i) \<and>
    fst (GetByID E M B fs segs paths j q c)
      = (case find (\<lambda>e. ID e = j) (concat (map (wal_entries (zs E) fs) paths)) of None \<Rightarrow> Inl (not_found j) | Some e \<Rightarrow> Inr e)"
proof
  let ?bs = "batches n 0 es"
  have ni: "i < MaxEntriesPerSegment" "h < 2 ^ 32" and idi: "ID (es ! i) = of_nat (pos_nat h i)"
    using assms(6,7) by (auto simp: numbered_def)
  have "pos_nat h i div 2 ^ 31 = h" unfolding pos_nat_def using pos_fields [OF ni(1)] by (intro id_nat_fields) simp_all
  then have "fst (DecodeID (ID (es ! i))) = of_nat h"
    using signed_drop_small [OF pos_nat_bound [OF ni(2,1)], of 31] by (simp add: idi DecodeID_def id_consts)
  moreover have "sint (of_nat h :: int64) = int h" using ni(2) by (simp add: signed_of_nat signed_take_bit_int_eq_self)
  ultimately have seg: "FindSegmentByID (ID (es ! i)) segs = Some seg"
    using FindSegmentByHour_map [OF assms(4)] assms(5) by (cases "DecodeID (ID (es ! i))") (simp add: FindSegmentByID_def)
  obtain ci row where loc: "locatePhysicalChunk (mChunks (Meta seg)) (ID (es ! i)) = Some (ci, int row)"
    and ci: "ci < length ?bs" "row < length (?bs ! ci)" "?bs ! ci ! row = es ! i"
    using locate_batches [OF assms(9,6,7), of 0] assms(8) by (auto simp: segment_stored_def)
  let ?b = "?bs ! ci" and ?path = "chunkPath (DirPath seg) ci"
  let ?r = "written_reader (zs E) ?b (written_chunk (zs E) ?b)"
  have st: "chunk_stored E (DirPath seg) ci ?b" using assms(8) ci(1) by (simp add: segment_stored_def)
  have norm: "list_all (\<lambda>e. chunk_normal e = e) ?b" using st by (simp add: chunk_stored_def)
  have "holds (zs E) (reader_at E) ?b (newCachedChunkColumns ?r (qcolumns q) ?path)"
    using open_scan_stored [OF assms(1) st assms(2) open_stored [OF st]] by (simp add: open_scan_def)
  from fill_stored [OF this norm ci(2), of True] obtain cols where
    "readEntryFromChunk (zs E) (newCachedChunkColumns ?r (qcolumns q) ?path) row = (Inr (es ! i), cols)"
    using ci(3) by (auto simp: readEntryFromChunk_def fillEntryFromChunk_def row_entry_def)
  moreover have "EntryCount ?r = length ?b" by (simp add: written_reader_def)
  ultimately show "fst (GetByID E M B fs segs paths (ID (es ! i)) q c) = Inr (es ! i)"
    using seg loc ci(2) open_stored [OF st] by (simp add: GetByID_def)
next
  have "FindSegmentByID j segs = None" using FindSegmentByHour_map [OF assms(4)] assms(10) by (cases "DecodeID j") (simp add: FindSegmentByID_def)
  then show "fst (GetByID E M B fs segs paths j q c)
      = (case find (\<lambda>e. ID e = j) (concat (map (wal_entries (zs E) fs) paths)) of None \<Rightarrow> Inl (not_found j) | Some e \<Rightarrow> Inr e)"
    using findInWALs_ok [OF assms(3) refl, of M paths j] by (cases "findInWALs E M B fs paths j c") (simp add: GetByID_def)
qed

theorem get_by_id_exact_witness:
  "let segs = [\<lparr>Hour = 0, DirPath = ''d'', Meta = sealed_meta 0 0 [one_entry]\<rparr>]; fs = \<lparr>names = \<lambda>_. None, contents = \<lambda>_. []\<rparr>;
       q = \<lparr>qcolumns = newColumnCache 0, qindexes = NewCache 0\<rparr>
   in fst (GetByID one_env 0 0 fs segs [] 0 q newWALCache) = Inr one_entry \<and>
      fst (GetByID one_env 0 0 fs segs [] (2 ^ 40) q newWALCache) = Inl (not_found (2 ^ 40))"
proof -
  let ?seg = "\<lparr>Hour = 0, DirPath = ''d'', Meta = sealed_meta 0 0 [one_entry]\<rparr>" and ?q = "\<lparr>qcolumns = newColumnCache 0, qindexes = NewCache 0\<rparr>"
  let ?fs = "\<lparr>names = \<lambda>_. None, contents = \<lambda>_. []\<rparr>"
  have Z: "zstd_lib (zs one_env)" by (simp add: one_env_def stored_zstd_lib)
  have q: "caches_ok one_env ?q" by (simp add: caches_ok_def column_cache.coherent_def newColumnCache_inv NewCache_def)
  have w: "wal_cache_ok (zs one_env) 0 ?fs newWALCache" by (simp add: wal_cache_ok_def newWALCache_def accounted_def)
  have segs: "segments_ok [?seg]" "by_hour [?seg] (int 0) = Some ?seg" by (simp_all add: segments_ok_def by_hour_def)
  have n: "numbered 0 0 [one_entry]" by (simp add: numbered_def one_entry_def zero_entry_def pos_nat_def id_nat_def id_consts)
  have "batches 50000 0 [one_entry] = [[one_entry]]" by (simp add: batches_Cons chunkSize_def batch_limit_def)
  then have st: "segment_stored one_env ?seg (batches 50000 0 [one_entry])" using one_stored by simp
  have "fst (DecodeID (2 ^ 40)) = 512" by (simp add: DecodeID_def id_consts)
  then have "by_hour [?seg] (sint (fst (DecodeID (2 ^ 40)))) = None" by (simp add: by_hour_def)
  from get_by_id_exact [OF Z q w segs n _ st _ this, of 0 0 "[]"] show ?thesis
    by (simp add: Let_def one_entry_def zero_entry_def)
qed

text \<open>
  C37: a chunk deleted by retention between the lookup and the open is reported as an I/O error, not as a missing entry: the
  reader wraps the error of the open, and the check for a missing file does not look into wrapped errors. Callers that ask
  for \<open>ErrEntryNotFound\<close> do not see it.
\<close>

theorem deleted_chunk_not_reported:
  assumes "FindSegmentByID i segs = Some seg" and "locatePhysicalChunk (mChunks (Meta seg)) i = Some (ci, row)"
    and "ReadFile E (chunkPath (DirPath seg) ci) = Inl ErrNotExist"
  shows "\<exists>e. fst (GetByID E M B fs segs paths i q c) = Inl e \<and> \<not> err_Is e ErrEntryNotFound"
  using assms by (simp add: GetByID_def OpenChunk_def IsNotExist_def ErrNotExist_def ErrEntryNotFound_def)

theorem deleted_chunk_not_reported_witness:
  "\<exists>e. fst (GetByID (one_env\<lparr>ReadFile := \<lambda>_. Inl ErrNotExist\<rparr>) 0 0 \<lparr>names = \<lambda>_. None, contents = \<lambda>_. []\<rparr>
      [\<lparr>Hour = 0, DirPath = ''d'', Meta = sealed_meta 0 0 [one_entry]\<rparr>] [] 0 \<lparr>qcolumns = newColumnCache 0, qindexes = NewCache 0\<rparr> newWALCache)
      = Inl e \<and> \<not> err_Is e ErrEntryNotFound"
proof -
  let ?seg = "\<lparr>Hour = 0, DirPath = ''d'', Meta = sealed_meta 0 0 [one_entry]\<rparr>"
  have "FindSegmentByID 0 [?seg] = Some ?seg"
    by (simp add: FindSegmentByID_def FindSegmentByHour_def sort_Search_def search_loop.simps DecodeID_def)
  moreover have "locatePhysicalChunk (mChunks (Meta ?seg)) 0 = Some (0, 0)"
    using one_stored by (simp add: segment_stored_def chunk_meta_def one_entry_def zero_entry_def)
  ultimately show ?thesis by (rule deleted_chunk_not_reported) simp
qed

end
