(* ===== verification/Aggregates.thy ===== *)
theory Aggregates
  imports Lookup
begin

text \<open>
  Counts, histograms and distinct values over a time range, \<open>internal/logstore/engine/store.go\<close>: taken from a segment's metadata
  where they are exact, else from a scan of its columns, and from the entries of the live logs. A Go map of counts is an
  association list updated in place; the order of its keys is immaterial.
\<close>

section \<open>Scans\<close>

text \<open>
  \<open>visit\<close> reads the columns it needs and folds the rows into a state; a failed read leaves the state and ends the scan of the
  segment.
\<close>

type_synonym 's visit = "nat list \<Rightarrow> 's \<Rightarrow> 's scan"

fun scan_chunks :: "query_env \<Rightarrow> SearchParams \<Rightarrow> string \<Rightarrow> 's visit \<Rightarrow> ChunkMeta list \<Rightarrow> 's \<Rightarrow> query_caches \<Rightarrow> (err option \<times> 's) \<times> query_caches" where
  "scan_chunks E p dir visit [] s q = ((None, s), q)"
| "scan_chunks E p dir visit (cm # cms) s q =
     (case openChunkRows E p (chunkPath dir (cIndex cm)) (idxPath dir (cIndex cm)) q of
        (Inl e, q) \<Rightarrow> ((Some (Wrapf ''scan chunk %d'' [D (int (cIndex cm))] e), s), q)
      | (Inr None, q) \<Rightarrow> scan_chunks E p dir visit cms s q
      | (Inr (Some (cols, rows)), q) \<Rightarrow>
          (case visit rows s cols of
             (Inl e, cols) \<Rightarrow> ((Some (Wrapf ''scan chunk %d'' [D (int (cIndex cm))] e), s), q\<lparr>qcolumns := shared cols\<rparr>)
           | (Inr s, cols) \<Rightarrow> scan_chunks E p dir visit cms s (q\<lparr>qcolumns := shared cols\<rparr>)))"

definition scanSegment :: "query_env \<Rightarrow> LoadedSegment \<Rightarrow> SearchParams \<Rightarrow> 's visit \<Rightarrow> 's \<Rightarrow> query_caches \<Rightarrow> (err option \<times> 's) \<times> query_caches" where
  "scanSegment E seg p visit s q = scan_chunks E p (DirPath seg) visit (mChunks (Meta seg)) s q"

section \<open>Counts\<close>

definition skewMarginSeconds :: int where "skewMarginSeconds = 3600"

definition segmentFullyInRange :: "int \<Rightarrow> go_time \<Rightarrow> go_time \<Rightarrow> bool" where
  "segmentFullyInRange hour start end' =
     (let segStart = hour * 3600 - skewMarginSeconds; segEnd = (hour + 1) * 3600 + skewMarginSeconds
      in Unix start \<le> segStart \<and> segEnd \<le> Unix end')"

definition envMatches :: "unicode \<Rightarrow> string \<Rightarrow> string \<Rightarrow> bool" where
  "envMatches U flt entryEnv = (if flt = [] \<or> entryEnv = [] then True else EqualFold U flt entryEnv)"

definition walEntryInScope :: "unicode \<Rightarrow> Entry \<Rightarrow> go_time \<Rightarrow> go_time \<Rightarrow> string \<Rightarrow> string \<Rightarrow> bool" where
  "walEntryInScope U e start end' service environment =
     (if sint (Ts e) < UnixMilli start \<or> sint (Ts e) > UnixMilli end' then False
      else if service \<noteq> [] \<and> \<not> EqualFold U (Service e) service then False
      else envMatches U environment (Env e))"

type_synonym counts = "(string \<times> nat) list"

definition plus_counts :: "counts \<Rightarrow> counts \<Rightarrow> counts" where
  "plus_counts m counts = fold (\<lambda>(k, n). alter k 0 (\<lambda>c. c + n)) m counts"

definition level_visit :: "counts visit" where
  "level_visit rows counts =
     sbind (scol ''level'' strings_of dictBitpack ''level'')
       (\<lambda>levels. sret (fold (\<lambda>row m. if row < length levels then alter (levels ! row) 0 Suc m else m) rows counts))"

definition level_segment ::
  "query_env \<Rightarrow> go_time \<Rightarrow> go_time \<Rightarrow> string \<Rightarrow> string \<Rightarrow> LoadedSegment \<Rightarrow> counts \<times> query_caches \<Rightarrow> counts \<times> query_caches" where
  "level_segment E start end' service environment seg = (\<lambda>(counts, q).
     if service = [] \<and> environment = [] \<and> segmentFullyInRange (Hour seg) start end'
     then (plus_counts (ByLevel (mCounts (Meta seg))) counts, q)
     else case scanSegment E seg (no_params\<lparr>pStart := Some start, pEnd := Some end', pService := service, pEnv := environment\<rparr>) level_visit counts q of
            ((_, counts), q) \<Rightarrow> (counts, q))"

definition count_level :: "query_env \<Rightarrow> go_time \<Rightarrow> go_time \<Rightarrow> string \<Rightarrow> string \<Rightarrow> counts callback" where
  "count_level E start end' service environment e counts =
     (True, if walEntryInScope (uc E) e start end' service environment then alter (Level e) 0 Suc counts else counts)"

definition countWALsByLevel ::
  "query_env \<Rightarrow> int \<Rightarrow> int \<Rightarrow> filesys \<Rightarrow> string list \<Rightarrow> go_time \<Rightarrow> go_time \<Rightarrow> string \<Rightarrow> string \<Rightarrow> walCache \<Rightarrow> counts \<times> walCache" where
  "countWALsByLevel E M B fs paths start end' service environment c =
     forEachWALEntry (zs E) M B fs c paths (count_level E start end' service environment) []"

definition CountByLevel ::
  "query_env \<Rightarrow> int \<Rightarrow> int \<Rightarrow> filesys \<Rightarrow> (go_time \<Rightarrow> go_time \<Rightarrow> segments \<times> string list) \<Rightarrow> go_time \<Rightarrow> go_time \<Rightarrow> string \<Rightarrow> string \<Rightarrow>
   query_caches \<Rightarrow> walCache \<Rightarrow> counts \<times> query_caches \<times> walCache" where
  "CountByLevel E M B fs qview start end' service environment q c =
     (let (segs, paths) = qview start end';
          (counts, q) = fold (level_segment E start end' service environment) segs ([], q);
          (walCounts, c) = countWALsByLevel E M B fs paths start end' service environment c
      in (plus_counts walCounts counts, q, c))"

text \<open>Per-service totals and errors.\<close>

record ServiceCount =
  scTotal :: nat
  scErrors :: nat

type_synonym service_counts = "(string \<times> ServiceCount) list"

definition add_service :: "string \<Rightarrow> nat \<Rightarrow> nat \<Rightarrow> service_counts \<Rightarrow> service_counts" where
  "add_service svc n ne =
     alter svc \<lparr>scTotal = 0, scErrors = 0\<rparr> (\<lambda>b. b\<lparr>scTotal := scTotal b + n, scErrors := scErrors b + ne\<rparr>)"

definition service_visit :: "zstd \<Rightarrow> service_counts visit" where
  "service_visit Z rows counts =
     sbind (scol ''service'' strings_of (dictZstd Z) ''service'') (\<lambda>services.
     sbind (scol ''level'' strings_of dictBitpack ''level'') (\<lambda>levels.
       sret (fold (\<lambda>row. add_service (if row < length services then services ! row else []) 1
         (if row < length levels \<and> isErrorLevel (levels ! row) then 1 else 0)) rows counts)))"

definition service_segment ::
  "query_env \<Rightarrow> go_time \<Rightarrow> go_time \<Rightarrow> string \<Rightarrow> LoadedSegment \<Rightarrow> service_counts \<times> query_caches \<Rightarrow> service_counts \<times> query_caches" where
  "service_segment E start end' environment seg = (\<lambda>(counts, q).
     if environment = [] \<and> segmentFullyInRange (Hour seg) start end'
     then (fold (\<lambda>(svc, n). add_service svc n (at_key 0 (ByServiceError (mCounts (Meta seg))) svc)) (ByService (mCounts (Meta seg))) counts, q)
     else case scanSegment E seg (no_params\<lparr>pStart := Some start, pEnd := Some end', pEnv := environment\<rparr>) (service_visit (zs E)) counts q of
            ((_, counts), q) \<Rightarrow> (counts, q))"

definition count_service :: "query_env \<Rightarrow> go_time \<Rightarrow> go_time \<Rightarrow> string \<Rightarrow> service_counts callback" where
  "count_service E start end' environment e counts =
     (True, if walEntryInScope (uc E) e start end' [] environment
            then add_service (Service e) 1 (if isErrorLevel (Level e) then 1 else 0) counts else counts)"

definition countWALsByService ::
  "query_env \<Rightarrow> int \<Rightarrow> int \<Rightarrow> filesys \<Rightarrow> string list \<Rightarrow> go_time \<Rightarrow> go_time \<Rightarrow> string \<Rightarrow> walCache \<Rightarrow> service_counts \<times> walCache" where
  "countWALsByService E M B fs paths start end' environment c =
     forEachWALEntry (zs E) M B fs c paths (count_service E start end' environment) []"

definition CountByServiceDetailed ::
  "query_env \<Rightarrow> int \<Rightarrow> int \<Rightarrow> filesys \<Rightarrow> (go_time \<Rightarrow> go_time \<Rightarrow> segments \<times> string list) \<Rightarrow> go_time \<Rightarrow> go_time \<Rightarrow> string \<Rightarrow>
   query_caches \<Rightarrow> walCache \<Rightarrow> service_counts \<times> query_caches \<times> walCache" where
  "CountByServiceDetailed E M B fs qview start end' environment q c =
     (let (segs, paths) = qview start end';
          (counts, q) = fold (service_segment E start end' environment) segs ([], q);
          (walCounts, c) = countWALsByService E M B fs paths start end' environment c
      in (fold (\<lambda>(svc, b). add_service svc (scTotal b) (scErrors b)) walCounts counts, q, c))"

definition CountByService ::
  "query_env \<Rightarrow> int \<Rightarrow> int \<Rightarrow> filesys \<Rightarrow> (go_time \<Rightarrow> go_time \<Rightarrow> segments \<times> string list) \<Rightarrow> go_time \<Rightarrow> go_time \<Rightarrow> string \<Rightarrow>
   query_caches \<Rightarrow> walCache \<Rightarrow> counts \<times> query_caches \<times> walCache" where
  "CountByService E M B fs qview start end' environment q c =
     (case CountByServiceDetailed E M B fs qview start end' environment q c of
        (detailed, qc) \<Rightarrow> (map (\<lambda>(svc, b). (svc, scTotal b)) detailed, qc))"

section \<open>Distinct values\<close>

definition maxDistinctValues :: nat where "maxDistinctValues = 100000"

definition dictColumnReader :: "zstd \<Rightarrow> string \<Rightarrow> string list scan" where
  "dictColumnReader Z column =
     (if column = ''level'' then scol column strings_of dictBitpack ''level''
      else if column = ''event_type'' then scol column strings_of (sparseStrings Z) ''event_type''
      else scol column strings_of (dictZstd Z) column)"

definition sortedKeys :: "string list \<Rightarrow> string list" where "sortedKeys found = sort found"

definition dict_visit :: "zstd \<Rightarrow> string \<Rightarrow> string list visit" where
  "dict_visit Z column rows found =
     sbind (dictColumnReader Z column)
       (\<lambda>values. sret (fold (\<lambda>row found. if row < length values \<and> values ! row \<noteq> [] then set_add (values ! row) found else found) rows found))"

definition dict_segment ::
  "query_env \<Rightarrow> SearchParams \<Rightarrow> bool \<Rightarrow> string \<Rightarrow> LoadedSegment \<Rightarrow> string list \<times> query_caches \<Rightarrow> string list \<times> query_caches" where
  "dict_segment E p filtered column seg = (\<lambda>(found, q).
     if \<not> filtered
     then (fold (\<lambda>v found. if v \<noteq> [] then set_add v found else found) (at_key [] (mDicts (Meta seg)) column) found, q)
     else case scanSegment E seg p (dict_visit (zs E) column) found q of ((_, found), q) \<Rightarrow> (found, q))"

definition collect_dict :: "query_env \<Rightarrow> SearchParams \<Rightarrow> string \<Rightarrow> string list callback" where
  "collect_dict E p column e found =
     (if \<not> matchesParams (uc E) (js E) e p then (True, found)
      else let v = dictColumnValue e column; found = (if v \<noteq> [] then set_add v found else found)
           in (length found < maxDistinctValues, found))"

definition distinctDictValues ::
  "query_env \<Rightarrow> int \<Rightarrow> int \<Rightarrow> filesys \<Rightarrow> string \<Rightarrow> segments \<Rightarrow> string list \<Rightarrow> go_time \<Rightarrow> go_time \<Rightarrow> string \<Rightarrow> string \<Rightarrow> string \<Rightarrow>
   query_caches \<Rightarrow> walCache \<Rightarrow> string list \<times> query_caches \<times> walCache" where
  "distinctDictValues E M B fs column segs paths start end' service level environment q c =
     (let p = no_params\<lparr>pStart := Some start, pEnd := Some end', pService := service, pLevel := level, pEnv := environment\<rparr>;
          filtered = (service \<noteq> [] \<or> level \<noteq> [] \<or> environment \<noteq> []);
          (found, q) = fold (dict_segment E p filtered column) segs ([], q);
          (found, c) = forEachWALEntry (zs E) M B fs c paths (collect_dict E p column) found
      in (sortedKeys found, q, c))"

text \<open>The scan of one chunk stops at the cap; the flag tells the loop over the segments.\<close>

fun collect_rows :: "string list \<Rightarrow> nat list \<Rightarrow> string list \<Rightarrow> string list \<times> bool" where
  "collect_rows values [] found = (found, False)"
| "collect_rows values (row # rows) found =
     (if row < length values \<and> values ! row \<noteq> [] then
        let found = set_add (values ! row) found
        in if length found \<ge> maxDistinctValues then (found, True) else collect_rows values rows found
      else collect_rows values rows found)"

definition distinct_visit :: "zstd \<Rightarrow> string \<Rightarrow> (string list \<times> bool) visit" where
  "distinct_visit Z column rows s =
     sbind (scol column strings_of (sparseStrings Z) column)
       (\<lambda>values. sret (case collect_rows values rows (fst s) of (found, full) \<Rightarrow> (found, full \<or> snd s)))"

fun distinct_segments :: "query_env \<Rightarrow> SearchParams \<Rightarrow> string \<Rightarrow> segments \<Rightarrow> string list \<Rightarrow> query_caches \<Rightarrow> string list \<times> query_caches" where
  "distinct_segments E p column [] found q = (found, q)"
| "distinct_segments E p column (seg # segs) found q =
     (case scanSegment E seg p (distinct_visit (zs E) column) (found, False) q of
        ((Some e, (found, full)), q) \<Rightarrow> distinct_segments E p column segs found q
      | ((None, (found, full)), q) \<Rightarrow> if full then (found, q) else distinct_segments E p column segs found q)"

definition collect_scan :: "query_env \<Rightarrow> SearchParams \<Rightarrow> string \<Rightarrow> string list callback" where
  "collect_scan E p column e found =
     (if \<not> matchesParams (uc E) (js E) e p then (True, found)
      else let found = (case scanColumnValue e column of Some v \<Rightarrow> if v \<noteq> [] then set_add v found else found | None \<Rightarrow> found)
           in (length found < maxDistinctValues, found))"

definition DistinctValues ::
  "query_env \<Rightarrow> int \<Rightarrow> int \<Rightarrow> filesys \<Rightarrow> (go_time \<Rightarrow> go_time \<Rightarrow> segments \<times> string list) \<Rightarrow> string \<Rightarrow> go_time \<Rightarrow> go_time \<Rightarrow> string \<Rightarrow> string \<Rightarrow> string \<Rightarrow>
   query_caches \<Rightarrow> walCache \<Rightarrow> string list res \<times> query_caches \<times> walCache" where
  "DistinctValues E M B fs qview column start end' service level environment q c =
     (let (segs, paths) = qview start end'
      in if column \<in> {''service'', ''level'', ''env'', ''event_type''} then
           (case distinctDictValues E M B fs column segs paths start end' service level environment q c of (v, qc) \<Rightarrow> (Inr v, qc))
         else if scanColumnValue zero_entry column = None then
           (Inl (Errorf ''distinct values not supported for column %q'' [Q column]), q, c)
         else let p = no_params\<lparr>pStart := Some start, pEnd := Some end', pService := service, pLevel := level, pEnv := environment\<rparr>;
                  (found, q) = distinct_segments E p column segs [] q;
                  (found, c) = (if length found < maxDistinctValues
                               then forEachWALEntry (zs E) M B fs c paths (collect_scan E p column) found else (found, c))
              in (Inr (sortedKeys found), q, c))"

section \<open>Histogram\<close>

record HistogramBucket =
  bTimestamp :: go_time
  bTotal :: nat
  bErrors :: nat

record HistogramFilter =
  fService :: string
  fLevel :: string
  fEnvironment :: string

definition maxHistogramBuckets :: int where "maxHistogramBuckets = 10000"
definition minHistogramInterval :: int where "minHistogramInterval = 10 ^ 9"

definition isZero :: "HistogramFilter \<Rightarrow> bool" where
  "isZero f \<longleftrightarrow> fService f = [] \<and> fLevel f = [] \<and> fEnvironment f = []"

definition filter_matches :: "unicode \<Rightarrow> HistogramFilter \<Rightarrow> Entry \<Rightarrow> bool" where
  "filter_matches U f e =
     (if fService f \<noteq> [] \<and> \<not> EqualFold U (Service e) (fService f) then False
      else if fLevel f \<noteq> [] \<and> \<not> EqualFold U (Level e) (fLevel f) then False
      else envMatches U (fEnvironment f) (Env e))"

text \<open>\<open>Time.Sub\<close> saturates at the range of a duration.\<close>

definition Sub :: "go_time \<Rightarrow> go_time \<Rightarrow> int" where
  "Sub a b = max (- (2 ^ 63)) (min (2 ^ 63 - 1) (a - b))"

definition histogram_interval :: "int \<Rightarrow> int \<Rightarrow> int" where
  "histogram_interval span interval =
     (let interval = (if interval < minHistogramInterval then minHistogramInterval else interval)
      in if span div interval > maxHistogramBuckets
         then (let interval = span div maxHistogramBuckets
               in if interval < minHistogramInterval then minHistogramInterval else interval)
         else interval)"

type_synonym minutes = "(int option \<times> HBucket) list"

definition no_bucket :: HBucket where "no_bucket = \<lparr>hTotal = 0, hErrors = 0\<rparr>"

definition plus_minutes :: "minutes \<Rightarrow> minutes \<Rightarrow> minutes" where
  "plus_minutes h m = fold (\<lambda>(k, b). alter k no_bucket (\<lambda>e. e\<lparr>hTotal := hTotal e + hTotal b, hErrors := hErrors e + hErrors b\<rparr>)) h m"

text \<open>Minute keys of scanned rows; the last key is kept between rows, as in the accumulator of a seal.\<close>

definition add_row :: "int64 list \<Rightarrow> string list \<Rightarrow> nat \<Rightarrow> (int \<times> int option) \<times> minutes \<Rightarrow> (int \<times> int option) \<times> minutes" where
  "add_row received' levels row s = (case s of ((lastMinute, key), m) \<Rightarrow>
     if row \<ge> length received' then s
     else let mi = sint (received' ! row) sdiv 60000;
              (lastMinute, key) = (if mi \<noteq> lastMinute then (mi, Some mi) else (lastMinute, key))
          in ((lastMinute, key), alter key no_bucket (bump_bucket (if row < length levels then levels ! row else [])) m))"

definition minute_visit :: "zstd \<Rightarrow> minutes visit" where
  "minute_visit Z rows m =
     sbind (scol ''received_at'' int64s_of (deltaInt64 Z) ''received_at'') (\<lambda>received'.
     sbind (scol ''level'' strings_of dictBitpack ''level'') (\<lambda>levels.
       sret (snd (fold (add_row received' levels) rows ((-1, None), m)))))"

definition addSegmentHistogram ::
  "query_env \<Rightarrow> LoadedSegment \<Rightarrow> go_time \<Rightarrow> go_time \<Rightarrow> HistogramFilter \<Rightarrow> minutes \<Rightarrow> query_caches \<Rightarrow> minutes \<times> query_caches" where
  "addSegmentHistogram E seg start end' f m q =
     (case scanSegment E seg (no_params\<lparr>pStart := Some start, pEnd := Some end', pService := fService f, pLevel := fLevel f, pEnv := fEnvironment f\<rparr>)
             (minute_visit (zs E)) m q of
        ((_, m), q) \<Rightarrow> (m, q))"

definition minute_segment ::
  "query_env \<Rightarrow> go_time \<Rightarrow> go_time \<Rightarrow> HistogramFilter \<Rightarrow> LoadedSegment \<Rightarrow> minutes \<times> query_caches \<Rightarrow> minutes \<times> query_caches" where
  "minute_segment E start end' f seg = (\<lambda>(m, q).
     if isZero f then (plus_minutes (mHistogram (Meta seg)) m, q) else addSegmentHistogram E seg start end' f m q)"

definition add_live_minute :: "query_env \<Rightarrow> go_time \<Rightarrow> go_time \<Rightarrow> HistogramFilter \<Rightarrow> minutes callback" where
  "add_live_minute E start end' f e m =
     (if sint (ReceivedAt e) < UnixMilli start \<or> sint (ReceivedAt e) > UnixMilli end' then (True, m)
      else if \<not> filter_matches (uc E) f e then (True, m)
      else (True, alter (Some (sint (ReceivedAt e) div 60000)) no_bucket (bump_bucket (Level e)) m))"

definition addWALHistogram ::
  "query_env \<Rightarrow> int \<Rightarrow> int \<Rightarrow> filesys \<Rightarrow> string list \<Rightarrow> go_time \<Rightarrow> go_time \<Rightarrow> HistogramFilter \<Rightarrow> minutes \<Rightarrow> walCache \<Rightarrow> minutes \<times> walCache" where
  "addWALHistogram E M B fs paths start end' f m c = forEachWALEntry (zs E) M B fs c paths (add_live_minute E start end' f) m"

definition fill_bucket :: "go_time \<Rightarrow> go_time \<Rightarrow> int \<Rightarrow> int option \<times> HBucket \<Rightarrow> HistogramBucket list \<Rightarrow> HistogramBucket list" where
  "fill_bucket start end' interval = (\<lambda>(key, mb) buckets.
     case key of
       None \<Rightarrow> buckets
     | Some k \<Rightarrow>
         let mi = k * 60 * 10 ^ 9
         in if mi < start \<or> \<not> mi < end' then buckets
            else let idx = Sub mi start div interval
                 in if 0 \<le> idx \<and> idx < int (length buckets)
                    then buckets[nat idx := (buckets ! nat idx)\<lparr>bTotal := bTotal (buckets ! nat idx) + hTotal mb, bErrors := bErrors (buckets ! nat idx) + hErrors mb\<rparr>]
                    else buckets)"

definition HistogramFiltered ::
  "query_env \<Rightarrow> int \<Rightarrow> int \<Rightarrow> filesys \<Rightarrow> (go_time \<Rightarrow> go_time \<Rightarrow> segments \<times> string list) \<Rightarrow> go_time \<Rightarrow> go_time \<Rightarrow> int \<Rightarrow> HistogramFilter \<Rightarrow>
   query_caches \<Rightarrow> walCache \<Rightarrow> HistogramBucket list \<times> query_caches \<times> walCache" where
  "HistogramFiltered E M B fs qview start end' interval f q c =
     (if \<not> end' > start then ([], q, c)
      else let span = Sub end' start;
               interval = histogram_interval span interval;
               (segs, paths) = qview start end';
               (m, q) = fold (minute_segment E start end' f) segs ([], q);
               (m, c) = addWALHistogram E M B fs paths start end' f m c;
               nBuckets = nat (span div interval + 1);
               buckets = map (\<lambda>i. \<lparr>bTimestamp = start + int i * interval, bTotal = 0, bErrors = 0\<rparr>) [0..<nBuckets]
           in (fold (fill_bucket start end' interval) m buckets, q, c))"

section \<open>What a scan folds\<close>

lemma walk_all: "walk (\<lambda>e s. (True, g e s)) es s = (False, fold g es s)"
  by (induction es arbitrary: s) simp_all

text \<open>A visit that folds the entries of the rows.\<close>

definition folds :: "query_env \<Rightarrow> 's visit \<Rightarrow> (Entry \<Rightarrow> 's \<Rightarrow> 's) \<Rightarrow> bool" where
  "folds E visit h \<longleftrightarrow> (\<forall>b rows s. list_all (\<lambda>r. r < length b) rows \<longrightarrow>
     yields (zs E) (reader_at E) b (visit rows s) (fold h (map (\<lambda>r. b ! r) rows) s))"

lemma foldsD: "folds E visit h \<Longrightarrow> list_all (\<lambda>r. r < length b) rows \<Longrightarrow>
    yields (zs E) (reader_at E) b (visit rows s) (fold h (map (\<lambda>r. b ! r) rows) s)"
  by (simp add: folds_def)

lemma scan_chunks_stored:
  assumes Z: "zstd_lib (zs E)" and v: "folds E visit h"
  shows "caches_ok E q \<Longrightarrow> (\<And>i. i < length bs \<Longrightarrow> chunk_stored E dir (k + i) (bs ! i)) \<Longrightarrow>
    \<exists>q'. scan_chunks E p dir visit (metas_from k bs) s q
      = ((None, fold h (filter (\<lambda>e. query_match (uc E) p e \<and> column_match (uc E) (clock E) p e) (concat bs)) s), q') \<and> caches_ok E q'"
proof (induction bs arbitrary: k q s)
  case (Cons b bs)
  let ?P = "\<lambda>e. query_match (uc E) p e \<and> column_match (uc E) (clock E) p e"
  define rows where "rows = filter (\<lambda>r. query_match (uc E) p (b ! r) \<and> column_match (uc E) (clock E) p (b ! r)) [0..<length b]"
  have st: "chunk_stored E dir k b" using Cons.prems(2) [of 0] by simp
  have rest: "chunk_stored E dir (Suc k + i) (bs ! i)" if "i < length bs" for i using Cons.prems(2) [of "Suc i"] that by simp
  have m: "map (\<lambda>r. b ! r) rows = filter ?P b" unfolding rows_def using filter_rows [where f = "\<lambda>e. e"] by simp
  obtain res q1 where o: "openChunkRows E p (chunkPath dir k) (idxPath dir k) q = (Inr res, q1)" and q1: "caches_ok E q1"
    and res: "case res of None \<Rightarrow> rows = [] | Some (cols, rows') \<Rightarrow> rows' = rows \<and> open_scan (zs E) (reader_at E) b cols"
    using openChunkRows_stored [OF Z st Cons.prems(1) rows_def] by blast
  show ?case
  proof (cases res)
    case None
    then have "rows = []" using res by simp
    then have "filter ?P b = []" using m by simp
    then show ?thesis using None o Cons.IH [OF q1 rest, of s] by (simp add: chunk_meta_def)
  next
    case (Some cr)
    then obtain cols where cr: "res = Some (cols, rows)" and sc: "open_scan (zs E) (reader_at E) b cols" using res by (cases cr) auto
    have lt: "list_all (\<lambda>r. r < length b) rows" by (simp add: rows_def list_all_iff)
    have "yields (zs E) (reader_at E) b (visit rows s) (fold h (filter ?P b) s)" unfolding m [symmetric] by (rule foldsD [OF v lt])
    then obtain cols' where vs: "visit rows s cols = (Inr (fold h (filter ?P b) s), cols')" and sc': "open_scan (zs E) (reader_at E) b cols'"
      using sc unfolding yields_def by blast
    from Cons.IH [OF scan_caches(2) [OF sc' q1] rest, of "fold h (filter ?P b) s"] show ?thesis
      using o cr vs by (simp add: chunk_meta_def)
  qed
qed simp

lemma scanSegment_stored:
  assumes "zstd_lib (zs E)" "folds E visit h" "caches_ok E q" "segment_stored E seg bs"
  shows "\<exists>q'. scanSegment E seg p visit s q
    = ((None, fold h (filter (\<lambda>e. query_match (uc E) p e \<and> column_match (uc E) (clock E) p e) (concat bs)) s), q') \<and> caches_ok E q'"
  using scan_chunks_stored [OF assms(1-3), of bs "DirPath seg" 0 p s] assms(4) by (simp add: scanSegment_def segment_stored_def)

lemma rows_fold:
  fixes b :: "Entry list"
  assumes "\<And>r s. r < length b \<Longrightarrow> step r s = h (b ! r) s"
  shows "list_all (\<lambda>r. r < length b) rows \<Longrightarrow> fold step rows s = fold h (map (\<lambda>r. b ! r) rows) s"
  using assms by (induction rows arbitrary: s) simp_all

lemma scope_match:
  "query_match U (no_params\<lparr>pStart := Some start, pEnd := Some end', pService := service, pEnv := environment\<rparr>) e \<and>
   column_match U now (no_params\<lparr>pStart := Some start, pEnd := Some end', pService := service, pEnv := environment\<rparr>) e
   \<longleftrightarrow> walEntryInScope U e start end' service environment"
  using EqualFold_sym [of U environment "Env e"]
  by (auto simp: query_match_def column_match_def scalar_match_def no_params_def walEntryInScope_def envMatches_def)

section \<open>Counting\<close>

lemma at_key_counts: "at_key 0 (fold (\<lambda>e. alter (f e) 0 Suc) es m) l = at_key 0 m l + number (\<lambda>e. f e = l) es"
  by (induction es arbitrary: m) (auto simp: number_def)

lemma at_key_Cons: "at_key z ((k, v) # m) l = (if l = k then v else at_key z m l)"
  by (simp add: at_key_def)

lemma at_key_plus:
  "distinct (map fst m) \<Longrightarrow> at_key 0 (plus_counts m counts) l = at_key 0 counts l + at_key 0 m l"
proof (induction m arbitrary: counts)
  case (Cons x m)
  obtain k n where x: "x = (k, n)" by fastforce
  have "plus_counts (x # m) counts = plus_counts m (alter k 0 (\<lambda>c. c + n) counts)" by (simp add: plus_counts_def x)
  moreover have "k \<notin> dom (map_of m)" using Cons.prems x by (simp add: dom_map_of_conv_image_fst)
  then have "at_key 0 m k = 0" by (simp add: at_key_def domIff)
  ultimately show ?case using Cons.IH [of "alter k 0 (\<lambda>c. c + n) counts"] Cons.prems x at_key_Cons [of 0 k n m l] by auto
qed (simp add: plus_counts_def at_key_def)

lemma counts_distinct: "distinct (map fst m) \<Longrightarrow> distinct (map fst (fold (\<lambda>e. alter (f e) 0 Suc) es m))"
  by (induction es arbitrary: m) simp_all

lemma level_folds: "folds E level_visit (\<lambda>e. alter (Level e) 0 Suc)"
  unfolding folds_def
proof (intro allI impI)
  fix b :: "Entry list" and rows s assume r: "list_all (\<lambda>r. r < length b) rows"
  have lv: "yields (zs E) (reader_at E) b (scol ''level'' strings_of dictBitpack ''level'') (map Level b)"
    by (rule yields_strings [OF _ scan_methods(3)]) (simp_all add: Schema_def string_fields_def string_type_def)
  have eq: "fold (\<lambda>row m. if row < length (map Level b) then alter (map Level b ! row) 0 Suc m else m) rows s
      = fold (\<lambda>e. alter (Level e) 0 Suc) (map (\<lambda>r. b ! r) rows) s"
    by (intro rows_fold r) simp
  show "yields (zs E) (reader_at E) b (level_visit rows s) (fold (\<lambda>e. alter (Level e) 0 Suc) (map (\<lambda>r. b ! r) rows) s)"
    unfolding level_visit_def by (rule yields_bind [OF lv]) (unfold eq, rule yields_ret)
qed

text \<open>
  A segment whose metadata describe what it holds, and whose entries have times less than an hour (and a second) outside its hour.
\<close>

definition in_slot :: "int \<Rightarrow> Entry \<Rightarrow> bool" where
  "in_slot hour e \<longleftrightarrow> (hour * 3600 - 3600) * 1000 + 999 \<le> sint (Ts e) \<and> sint (Ts e) \<le> ((hour + 1) * 3600 + 3600) * 1000"

definition segment_exact :: "query_env \<Rightarrow> LoadedSegment \<Rightarrow> Entry list list \<Rightarrow> bool" where
  "segment_exact E seg bs \<longleftrightarrow> segment_stored E seg bs \<and> meta_of (Meta seg) (concat bs) bs \<and> list_all (in_slot (Hour seg)) (concat bs)"

lemma full_in_scope:
  assumes "segmentFullyInRange hour start end'" "in_slot hour e"
  shows "walEntryInScope U e start end' [] []"
proof -
  have s: "Unix start \<le> hour * 3600 - 3600" "(hour + 1) * 3600 + 3600 \<le> Unix end'"
    using assms(1) by (simp_all add: segmentFullyInRange_def skewMarginSeconds_def Let_def)
  have "UnixMilli start \<le> Unix start * 1000 + 999" "Unix end' * 1000 \<le> UnixMilli end'"
    by (simp_all add: Unix_def UnixMilli_def)
  then show ?thesis using s assms(2) by (simp add: walEntryInScope_def envMatches_def in_slot_def)
qed

lemma number_filter: "number P (filter R es) = number (\<lambda>e. R e \<and> P e) es"
  by (simp add: number_def conj_commute)

lemma number_cong: "(\<And>e. e \<in> set es \<Longrightarrow> P e = R e) \<Longrightarrow> number P es = number R es"
  by (simp add: number_def cong: filter_cong)

lemma level_segment_ok:
  assumes Z: "zstd_lib (zs E)" and q: "caches_ok E q" and seg: "segment_exact E seg bs"
  shows "\<exists>counts' q'. level_segment E start end' service environment seg (counts, q) = (counts', q') \<and> caches_ok E q' \<and>
    (\<forall>l. at_key 0 counts' l = at_key 0 counts l + number (\<lambda>e. walEntryInScope (uc E) e start end' service environment \<and> Level e = l) (concat bs))"
proof (cases "service = [] \<and> environment = [] \<and> segmentFullyInRange (Hour seg) start end'")
  case True
  have m: "counts_ok (mCounts (Meta seg)) (concat bs)" using seg by (simp add: segment_exact_def meta_of_def)
  have "number (\<lambda>e. walEntryInScope (uc E) e start end' [] [] \<and> Level e = l) (concat bs) = at_key 0 (ByLevel (mCounts (Meta seg))) l" for l
  proof -
    have "number (\<lambda>e. walEntryInScope (uc E) e start end' [] [] \<and> Level e = l) (concat bs) = number (\<lambda>e. Level e = l) (concat bs)"
      using seg True full_in_scope [of "Hour seg" start end'] by (intro number_cong) (auto simp: segment_exact_def list_all_iff)
    then show ?thesis using m by (simp add: counts_ok_def)
  qed
  then show ?thesis using True q m by (simp add: level_segment_def at_key_plus counts_ok_def)
next
  case False
  have "segment_stored E seg bs" using seg by (simp add: segment_exact_def)
  from scanSegment_stored [OF Z level_folds q this, of "no_params\<lparr>pStart := Some start, pEnd := Some end', pService := service, pEnv := environment\<rparr>" counts]
  obtain q' where "scanSegment E seg (no_params\<lparr>pStart := Some start, pEnd := Some end', pService := service, pEnv := environment\<rparr>) level_visit counts q
      = ((None, fold (\<lambda>e. alter (Level e) 0 Suc) (filter (\<lambda>e. walEntryInScope (uc E) e start end' service environment) (concat bs)) counts), q')"
    and q': "caches_ok E q'" unfolding scope_match by blast
  then have "level_segment E start end' service environment seg (counts, q)
      = (fold (\<lambda>e. alter (Level e) 0 Suc) (filter (\<lambda>e. walEntryInScope (uc E) e start end' service environment) (concat bs)) counts, q')"
    unfolding level_segment_def by (simp only: prod.case False if_False)
  then show ?thesis using q' by (simp add: at_key_counts number_filter)
qed

lemma level_segments_ok:
  assumes Z: "zstd_lib (zs E)"
  shows "caches_ok E q \<Longrightarrow> list_all2 (segment_exact E) segs bss \<Longrightarrow>
    \<exists>counts' q'. fold (level_segment E start end' service environment) segs (counts, q) = (counts', q') \<and> caches_ok E q' \<and>
      (\<forall>l. at_key 0 counts' l = at_key 0 counts l +
        number (\<lambda>e. walEntryInScope (uc E) e start end' service environment \<and> Level e = l) (concat (concat bss)))"
proof (induction segs arbitrary: bss counts q)
  case (Cons seg segs)
  obtain bs rest where bss: "bss = bs # rest" "segment_exact E seg bs" "list_all2 (segment_exact E) segs rest" using Cons.prems(2) by (cases bss) auto
  obtain counts1 q1 where c: "level_segment E start end' service environment seg (counts, q) = (counts1, q1)" "caches_ok E q1"
    "\<forall>l. at_key 0 counts1 l = at_key 0 counts l + number (\<lambda>e. walEntryInScope (uc E) e start end' service environment \<and> Level e = l) (concat bs)"
    using level_segment_ok [OF Z Cons.prems(1) bss(2)] by blast
  from Cons.IH [OF c(2) bss(3), of counts1] show ?case using c bss(1) by auto
qed simp

section \<open>Properties\<close>

text \<open>
  C13: counts by level are exact. For stored segments whose metadata describe them, and whose entries lie within an hour of their slot,
  the count of every level over a range is the number of entries of that level in the sealed segments and the live logs that a
  search of the same range, service and environment would match; whether a segment is counted from its metadata or scanned
  makes no difference.
\<close>

theorem count_by_level_exact:
  assumes "zstd_lib (zs E)" and "caches_ok E q" and "wal_cache_ok (zs E) B fs c"
    and "qview start end' = (segs, paths)" and "list_all2 (segment_exact E) segs bss"
    and "es = concat (concat bss) @ concat (map (wal_entries (zs E) fs) paths)"
  shows "at_key 0 (fst (CountByLevel E M B fs qview start end' service environment q c)) level
    = number (\<lambda>e. walEntryInScope (uc E) e start end' service environment \<and> Level e = level) es"
proof -
  let ?scope = "\<lambda>e. walEntryInScope (uc E) e start end' service environment" and ?live = "concat (map (wal_entries (zs E) fs) paths)"
  obtain counts q' where s: "fold (level_segment E start end' service environment) segs ([], q) = (counts, q')"
    and n: "\<forall>l. at_key 0 counts l = at_key 0 [] l + number (\<lambda>e. ?scope e \<and> Level e = l) (concat (concat bss))"
    using level_segments_ok [OF assms(1,2,5)] by blast
  have cb: "count_level E start end' service environment = (\<lambda>e s. (True, if ?scope e then alter (Level e) 0 Suc s else s))"
    by (intro ext) (simp add: count_level_def)
  have fl: "fold (\<lambda>e s. if ?scope e then alter (Level e) 0 Suc s else s) xs m = fold (\<lambda>e. alter (Level e) 0 Suc) (filter ?scope xs) m" for xs m
    by (induction xs arbitrary: m) simp_all
  obtain wc c' where w: "countWALsByLevel E M B fs paths start end' service environment c = (wc, c')" by fastforce
  have wc: "wc = fold (\<lambda>e. alter (Level e) 0 Suc) (filter ?scope ?live) []"
    using forEachWALEntry_ok [OF assms(3), of M paths "count_level E start end' service environment" "[]"] w
    unfolding countWALsByLevel_def cb by (simp add: walk_all fl)
  have "at_key 0 (plus_counts wc counts) level = at_key 0 counts level + at_key 0 wc level"
    unfolding wc by (intro at_key_plus counts_distinct) simp
  moreover have "at_key 0 [] l = (0::nat)" for l :: string by (simp add: at_key_def)
  ultimately show ?thesis using s w n assms(4,6) by (simp add: CountByLevel_def wc at_key_counts number_filter)
qed

theorem count_by_level_exact_witness:
  "let seg = \<lparr>Hour = 0, DirPath = ''d'', Meta = sealed_meta 0 0 [one_entry\<lparr>Ts := 0\<rparr>]\<rparr>;
       q = \<lparr>qcolumns = newColumnCache 0, qindexes = NewCache 0\<rparr>; fs = \<lparr>names = \<lambda>_. None, contents = \<lambda>_. []\<rparr>
   in at_key 0 (fst (CountByLevel one_env 0 0 fs (\<lambda>_ _. ([seg], [])) (-7200 * 10 ^ 9) (7200 * 10 ^ 9) [] [] q newWALCache)) ''info'' = 1 \<and>
      at_key 0 (fst (CountByLevel one_env 0 0 fs (\<lambda>_ _. ([seg], [])) 0 (10 ^ 9) [] [] q newWALCache)) ''info'' = 1"
proof -
  have ts: "one_entry\<lparr>Ts := 0\<rparr> = one_entry" by (simp add: one_entry_def zero_entry_def)
  let ?seg = "\<lparr>Hour = 0, DirPath = ''d'', Meta = sealed_meta 0 0 [one_entry]\<rparr>" and ?q = "\<lparr>qcolumns = newColumnCache 0, qindexes = NewCache 0\<rparr>"
  let ?fs = "\<lparr>names = \<lambda>_. None, contents = \<lambda>_. []\<rparr>"
  have Z: "zstd_lib (zs one_env)" by (simp add: one_env_def stored_zstd_lib)
  have q: "caches_ok one_env ?q" by (simp add: caches_ok_def column_cache.coherent_def newColumnCache_inv NewCache_def)
  have w: "wal_cache_ok (zs one_env) 0 ?fs newWALCache" by (simp add: wal_cache_ok_def newWALCache_def accounted_def)
  have "meta_of (Meta ?seg) [one_entry] [[one_entry]]"
    using sealed_meta_of [of "[one_entry]" 0 0] by (simp add: received_def one_entry_def zero_entry_def batches_Cons effectiveSealChunkEntries_def chunkSize_def batch_limit_def)
  then have "segment_exact one_env ?seg [[one_entry]]"
    using one_stored by (simp add: segment_exact_def in_slot_def one_entry_def zero_entry_def)
  then have l: "list_all2 (segment_exact one_env) [?seg] [[[one_entry]]]" by simp
  show ?thesis
    unfolding Let_def ts
    using count_by_level_exact [OF Z q w, of "\<lambda>_ _. ([?seg], [])" "-7200 * 10 ^ 9" "7200 * 10 ^ 9" "[?seg]" "[]" "[[[one_entry]]]" "[one_entry]" 0 "[]" "[]" "''info''"]
      count_by_level_exact [OF Z q w, of "\<lambda>_ _. ([?seg], [])" 0 "10 ^ 9" "[?seg]" "[]" "[[[one_entry]]]" "[one_entry]" 0 "[]" "[]" "''info''"] l
    by (simp add: number_def walEntryInScope_def envMatches_def one_entry_def zero_entry_def UnixMilli_def)
qed

end
