(* ===== verification/Histograms.thy ===== *)
theory Histograms
  imports Aggregates
begin

text \<open>
  What a histogram returns. The buckets of \<open>HistogramFiltered\<close> are filled from minute counts: those of the segments' metadata
  and those of the live logs. The weight of a set of minutes in such a table is what the lemmas follow, from the
  entries through the merges to the buckets.
\<close>

text \<open>\<open>Histogram\<close>: the histogram without a filter.\<close>

definition Histogram ::
  "query_env \<Rightarrow> int \<Rightarrow> int \<Rightarrow> filesys \<Rightarrow> (go_time \<Rightarrow> go_time \<Rightarrow> segments \<times> string list) \<Rightarrow> go_time \<Rightarrow> go_time \<Rightarrow> int \<Rightarrow>
   query_caches \<Rightarrow> walCache \<Rightarrow> HistogramBucket list \<times> query_caches \<times> walCache" where
  "Histogram E M B fs qview start end' interval q c =
     HistogramFiltered E M B fs qview start end' interval \<lparr>fService = [], fLevel = [], fEnvironment = []\<rparr> q c"

section \<open>The interval\<close>

lemma histogram_interval_min: "minHistogramInterval \<le> histogram_interval span interval"
  by (simp add: histogram_interval_def Let_def)

lemma histogram_interval_pos: "0 < histogram_interval span interval"
  using histogram_interval_min [of span interval] by (simp add: minHistogramInterval_def)

lemma int_div_less: "0 < (d :: int) \<Longrightarrow> x div d < k \<longleftrightarrow> x < k * d"
proof -
  assume d: "0 < d"
  have x: "x = (x div d) * d + x mod d" "0 \<le> x mod d" "x mod d < d" using d by simp_all
  show ?thesis
  proof
    assume "x div d < k"
    then have "(x div d + 1) * d \<le> k * d" using d by simp
    then have "(x div d) * d + d \<le> k * d" by (simp add: distrib_right)
    then show "x < k * d" using x by linarith
  next
    assume "x < k * d"
    then have "(x div d) * d < k * d" using x by linarith
    then show "x div d < k" using d by simp
  qed
qed

text \<open>Widening the interval to a share of the span leaves at most one bucket more than the cap.\<close>

lemma widened: "0 < k \<Longrightarrow> k \<le> (span :: int) div k \<Longrightarrow> span div (span div k) \<le> k"
proof -
  assume k: "0 < k" "k \<le> span div k"
  have "span mod k < k" using k(1) by simp
  moreover have "span = k * (span div k) + span mod k" by simp
  ultimately have "span < k * (span div k) + span div k" using k(2) by linarith
  then have "span < (k + 1) * (span div k)" by (simp add: distrib_right)
  then have "span div (span div k) < k + 1" using k by (subst int_div_less) auto
  then show ?thesis by simp
qed

lemma histogram_interval_cap: "span div histogram_interval span interval \<le> maxHistogramBuckets"
proof -
  define i where "i = max interval minHistogramInterval"
  have i: "minHistogramInterval \<le> i" by (simp add: i_def)
  show ?thesis
  proof (cases "span div i > maxHistogramBuckets")
    case True
    have "maxHistogramBuckets * i \<le> span"
    proof -
      have "maxHistogramBuckets * i \<le> (span div i) * i" using True i by (intro mult_right_mono) (auto simp: minHistogramInterval_def)
      also have "\<dots> \<le> span" using i by (simp add: minHistogramInterval_def minus_mod_eq_div_mult [symmetric])
      finally show ?thesis .
    qed
    then have "i \<le> span div maxHistogramBuckets" by (simp add: maxHistogramBuckets_def)
    then have m: "minHistogramInterval \<le> span div maxHistogramBuckets" using i by simp
    then have "histogram_interval span interval = span div maxHistogramBuckets"
      using True unfolding histogram_interval_def i_def by (simp add: max_def Let_def split: if_splits)
    then show ?thesis using m widened [of maxHistogramBuckets span] by (simp add: maxHistogramBuckets_def minHistogramInterval_def)
  next
    case False
    then show ?thesis unfolding histogram_interval_def i_def by (simp add: max_def Let_def split: if_splits)
  qed
qed

section \<open>Weights of minute tables\<close>

definition weight :: "(HBucket \<Rightarrow> nat) \<Rightarrow> (int option \<Rightarrow> bool) \<Rightarrow> minutes \<Rightarrow> nat" where
  "weight g P m = (\<Sum>(k, b) \<leftarrow> m. if P k then g b else 0)"

lemma weight_Nil [simp]: "weight g P [] = 0"
  by (simp add: weight_def)

lemma weight_Cons [simp]: "weight g P ((k, b) # m) = (if P k then g b else 0) + weight g P m"
  by (simp add: weight_def)

lemma weight_alter: "g z = 0 \<Longrightarrow> (\<And>b. g (f b) = g b + n) \<Longrightarrow> weight g P (alter k z f m) = weight g P m + (if P k then n else 0)"
  by (induction k z f m rule: alter.induct) auto

text \<open>The two fields of a bucket, with what an entry of a level adds to each.\<close>

definition tally :: "(HBucket \<Rightarrow> nat) \<Rightarrow> (string \<Rightarrow> bool) \<Rightarrow> bool" where
  "tally g w \<longleftrightarrow> g = hTotal \<and> w = (\<lambda>_. True) \<or> g = hErrors \<and> w = isErrorLevel"

lemma tally_bump: "tally g w \<Longrightarrow> g (bump_bucket l b) = g b + (if w l then 1 else 0)"
  by (auto simp: tally_def bump_bucket_def Let_def)

lemma tally_zero: "tally g w \<Longrightarrow> g no_bucket = 0"
  by (auto simp: tally_def no_bucket_def)

lemma tally_bucket: "tally g w \<Longrightarrow> g (bucket_of es k) = number (\<lambda>e. minute e = k \<and> w (Level e)) es"
  by (auto simp: tally_def bucket_of_def)

lemma weight_plus: "tally g w \<Longrightarrow> weight g P (plus_minutes h m) = weight g P m + weight g P h"
proof (induction h arbitrary: m)
  case (Cons kb h)
  obtain k b where kb: "kb = (k, b)" by fastforce
  have "weight g P (alter k no_bucket (\<lambda>e. e\<lparr>hTotal := hTotal e + hTotal b, hErrors := hErrors e + hErrors b\<rparr>) m)
      = weight g P m + (if P k then g b else 0)"
    using Cons.prems by (intro weight_alter tally_zero) (auto simp: tally_def)
  then show ?case using Cons.IH [OF Cons.prems] by (simp add: plus_minutes_def kb)
qed (simp add: plus_minutes_def)

text \<open>The weight of a table with the right count under every key is a number of entries.\<close>

lemma number_split:
  assumes "finite K" "f ` set es \<subseteq> K"
  shows "(\<Sum>k\<in>K. number (\<lambda>e. f e = k \<and> R k e) es) = number (\<lambda>e. R (f e) e) es"
  using assms(2)
proof (induction es)
  case (Cons e es)
  have "(\<Sum>k\<in>K. number (\<lambda>e. f e = k \<and> R k e) (e # es))
      = (\<Sum>k\<in>K. if f e = k then (if R k e then 1 else 0) else 0) + (\<Sum>k\<in>K. number (\<lambda>e. f e = k \<and> R k e) es)"
    unfolding sum.distrib [symmetric] by (intro sum.cong) (auto simp: number_def)
  then show ?case using Cons assms(1) by (simp add: number_def)
qed (simp add: number_def)

lemma weight_sum:
  assumes "distinct (map fst m)"
  shows "weight g P m = (\<Sum>k \<in> fst ` set m. if P k then g (at_key z m k) else 0)"
  using assms
proof (induction m)
  case (Cons kb m)
  obtain k b where kb: "kb = (k, b)" by fastforce
  have "(\<Sum>l \<in> fst ` set m. if P l then g (at_key z (kb # m) l) else 0) = (\<Sum>l \<in> fst ` set m. if P l then g (at_key z m l) else 0)"
    using Cons.prems by (intro sum.cong) (auto simp: kb at_key_Cons)
  then show ?case using Cons by (simp add: kb at_key_Cons)
qed simp

lemma meta_weight:
  assumes t: "tally g w" and m: "meta_of mt es bs"
  shows "weight g P (mHistogram mt) = number (\<lambda>e. P (Some (minute e)) \<and> w (Level e)) es"
proof -
  let ?h = "mHistogram mt" and ?K = "the ` fst ` set (mHistogram mt)"
  have h: "at_key no_bucket ?h (Some k) = bucket_of es k" for k using m by (simp add: meta_of_def no_bucket_def)
  have some: "k \<in> fst ` set ?h \<Longrightarrow> \<exists>i. k = Some i" for k using m by (cases k) (auto simp: meta_of_def)
  have "minute e \<in> ?K" if e: "e \<in> set es" for e
  proof (rule ccontr)
    assume "minute e \<notin> ?K"
    then have "Some (minute e) \<notin> fst ` set ?h" by force
    then have "hTotal (at_key no_bucket ?h (Some (minute e))) = 0"
      by (auto simp: at_key_def no_bucket_def map_of_eq_None_iff [symmetric])
    then show False using e by (auto simp: h bucket_of_def number_def filter_empty_conv)
  qed
  then have sub: "minute ` set es \<subseteq> ?K" by auto
  have "weight g P ?h = (\<Sum>k \<in> fst ` set ?h. if P k then g (at_key no_bucket ?h k) else 0)"
    using m by (intro weight_sum) (simp add: meta_of_def)
  also have "\<dots> = (\<Sum>i \<in> ?K. if P (Some i) then g (at_key no_bucket ?h (Some i)) else 0)"
    using some by (intro sum.reindex_cong [of Some]) (force simp: image_iff)+
  also have "\<dots> = (\<Sum>i \<in> ?K. number (\<lambda>e. minute e = i \<and> (P (Some i) \<and> w (Level e))) es)"
    by (intro sum.cong) (auto simp: h tally_bucket [OF t] number_def)
  also have "\<dots> = number (\<lambda>e. P (Some (minute e)) \<and> w (Level e)) es"
    using number_split [OF _ sub, of "\<lambda>i e. P (Some i) \<and> w (Level e)"] by simp
  finally show ?thesis .
qed

section \<open>From minutes to buckets\<close>

text \<open>The minutes a bucket takes: those that start in it, and before the end of the range.\<close>

definition in_bucket :: "go_time \<Rightarrow> go_time \<Rightarrow> int \<Rightarrow> nat \<Rightarrow> int \<Rightarrow> bool" where
  "in_bucket start end' interval i k \<longleftrightarrow>
     start + int i * interval \<le> k * 60 * 10 ^ 9 \<and> k * 60 * 10 ^ 9 < start + (int i + 1) * interval \<and> k * 60 * 10 ^ 9 < end'"

definition keyed :: "(int \<Rightarrow> bool) \<Rightarrow> int option \<Rightarrow> bool" where
  "keyed P k \<longleftrightarrow> (case k of None \<Rightarrow> False | Some k \<Rightarrow> P k)"

lemma keyed_Some [simp]: "keyed P (Some k) = P k"
  by (simp add: keyed_def)

lemma div_slot: "0 < (d :: int) \<Longrightarrow> (x div d = int i) \<longleftrightarrow> int i * d \<le> x \<and> x < (int i + 1) * d"
  using int_div_less [of d x "int i"] int_div_less [of d x "int i + 1"] by linarith

lemma fill_bucket_ok:
  assumes d: "0 < interval" and span: "end' - start < 2 ^ 63" and n: "end' - start < int (length buckets) * interval"
    and i: "i < length buckets"
  shows "length (fill_bucket start end' interval (k, b) buckets) = length buckets"
    and "bTimestamp (fill_bucket start end' interval (k, b) buckets ! i) = bTimestamp (buckets ! i)"
    and "bTotal (fill_bucket start end' interval (k, b) buckets ! i) =
      bTotal (buckets ! i) + (if keyed (in_bucket start end' interval i) k then hTotal b else 0)"
    and "bErrors (fill_bucket start end' interval (k, b) buckets ! i) =
      bErrors (buckets ! i) + (if keyed (in_bucket start end' interval i) k then hErrors b else 0)"
proof -
  let ?f = "fill_bucket start end' interval (k, b) buckets" and ?k = "keyed (in_bucket start end' interval i) k"
  have "length ?f = length buckets \<and> bTimestamp (?f ! i) = bTimestamp (buckets ! i) \<and>
      bTotal (?f ! i) = bTotal (buckets ! i) + (if ?k then hTotal b else 0) \<and> bErrors (?f ! i) = bErrors (buckets ! i) + (if ?k then hErrors b else 0)"
  proof (cases k)
    case (Some j)
    define t where "t = j * 60 * 10 ^ 9 - start"
    show ?thesis
    proof (cases "0 \<le> t \<and> t < end' - start")
      case True
      have sub: "Sub (j * 60 * 10 ^ 9) start = t" using True span by (simp add: Sub_def t_def)
      have "(j * 60 * 10 ^ 9 < start \<or> \<not> j * 60 * 10 ^ 9 < end') = False" using True by (simp add: t_def)
      note eq = fill_bucket_def Some prod.case option.case Let_def this sub if_False
      have "0 \<le> t div interval" using True d by (simp add: pos_imp_zdiv_nonneg_iff)
      moreover have "t div interval < int (length buckets)" using True n int_div_less [OF d, of t "int (length buckets)"] by linarith
      moreover have "?k \<longleftrightarrow> t div interval = int i"
        using True div_slot [OF d, of t i] unfolding Some keyed_Some in_bucket_def t_def by linarith
      ultimately show ?thesis using i unfolding eq by (auto simp: nth_list_update)
    next
      case False
      have "\<not> ?k"
      proof
        assume ?k
        then have "int i * interval \<le> t" "t < end' - start" unfolding Some keyed_Some in_bucket_def t_def by linarith+
        moreover have "0 \<le> int i * interval" using d by simp
        ultimately show False using False by linarith
      qed
      then show ?thesis using False by (auto simp: fill_bucket_def Some t_def)
    qed
  qed (simp add: fill_bucket_def keyed_def)
  then show "length ?f = length buckets" "bTimestamp (?f ! i) = bTimestamp (buckets ! i)"
    "bTotal (?f ! i) = bTotal (buckets ! i) + (if ?k then hTotal b else 0)" "bErrors (?f ! i) = bErrors (buckets ! i) + (if ?k then hErrors b else 0)"
    by blast+
qed

lemma fill_buckets_ok:
  assumes d: "0 < interval" and span: "end' - start < 2 ^ 63"
  shows "end' - start < int (length buckets) * interval \<Longrightarrow>
    length (fold (fill_bucket start end' interval) m buckets) = length buckets \<and>
    (\<forall>i < length buckets. bTimestamp (fold (fill_bucket start end' interval) m buckets ! i) = bTimestamp (buckets ! i) \<and>
       bTotal (fold (fill_bucket start end' interval) m buckets ! i) = bTotal (buckets ! i) + weight hTotal (keyed (in_bucket start end' interval i)) m \<and>
       bErrors (fold (fill_bucket start end' interval) m buckets ! i) = bErrors (buckets ! i) + weight hErrors (keyed (in_bucket start end' interval i)) m)"
proof (induction m arbitrary: buckets)
  case (Cons kb m)
  obtain k b where kb: "kb = (k, b)" by fastforce
  note f = fill_bucket_ok [OF d span Cons.prems, of _ k b]
  have l: "length (fill_bucket start end' interval (k, b) buckets) = length buckets" by (simp add: fill_bucket_def Let_def split: option.split)
  from Cons.IH [of "fill_bucket start end' interval (k, b) buckets"] Cons.prems
  show ?case by (simp add: kb l f(2-4))
qed simp

section \<open>From entries to minutes\<close>

definition no_filter :: HistogramFilter where
  "no_filter = \<lparr>fService = [], fLevel = [], fEnvironment = []\<rparr>"

lemma minute_segments_ok:
  assumes t: "tally g w"
  shows "list_all2 (\<lambda>seg bs. meta_of (Meta seg) (concat bs) bs) segs bss \<Longrightarrow>
    \<exists>m'. fold (minute_segment E start end' no_filter) segs (m, q) = (m', q) \<and>
      weight g P m' = weight g P m + number (\<lambda>e. P (Some (minute e)) \<and> w (Level e)) (concat (concat bss))"
proof (induction segs arbitrary: bss m)
  case (Cons seg segs)
  obtain bs rest where b: "bss = bs # rest" "meta_of (Meta seg) (concat bs) bs" "list_all2 (\<lambda>seg bs. meta_of (Meta seg) (concat bs) bs) segs rest"
    using Cons.prems by (cases bss) auto
  have s: "minute_segment E start end' no_filter seg (m, q) = (plus_minutes (mHistogram (Meta seg)) m, q)"
    by (simp add: minute_segment_def isZero_def no_filter_def)
  show ?case using Cons.IH [OF b(3), of "plus_minutes (mHistogram (Meta seg)) m"]
    by (auto simp: s b(1) weight_plus [OF t] meta_weight [OF t b(2)])
qed (simp add: number_def)

text \<open>An entry of a live log takes part when it was received in the range, to the millisecond.\<close>

definition live_in :: "go_time \<Rightarrow> go_time \<Rightarrow> Entry \<Rightarrow> bool" where
  "live_in start end' e \<longleftrightarrow> UnixMilli start \<le> sint (ReceivedAt e) \<and> sint (ReceivedAt e) \<le> UnixMilli end'"

definition live_minute :: "Entry \<Rightarrow> int" where
  "live_minute e = sint (ReceivedAt e) div 60000"

lemma live_minutes_ok:
  assumes t: "tally g w" and ok: "wal_cache_ok (zs E) B fs c"
  shows "weight g P (fst (addWALHistogram E M B fs paths start end' no_filter m c)) =
    weight g P m + number (\<lambda>e. live_in start end' e \<and> P (Some (live_minute e)) \<and> w (Level e)) (concat (map (wal_entries (zs E) fs) paths))"
proof -
  let ?h = "\<lambda>e m. if live_in start end' e then alter (Some (live_minute e)) no_bucket (bump_bucket (Level e)) m else m"
  have cb: "add_live_minute E start end' no_filter = (\<lambda>e m. (True, ?h e m))"
    by (intro ext) (simp add: add_live_minute_def no_filter_def filter_matches_def envMatches_def live_in_def live_minute_def)
  have "weight g P (fold ?h es m) = weight g P m + number (\<lambda>e. live_in start end' e \<and> P (Some (live_minute e)) \<and> w (Level e)) es" for es
    by (induction es arbitrary: m) (simp_all add: number_def weight_alter [OF tally_zero [OF t] tally_bump [OF t]])
  then show ?thesis
    using forEachWALEntry_ok [OF ok, of M paths "add_live_minute E start end' no_filter" m]
    unfolding addWALHistogram_def cb walk_all by simp
qed

section \<open>Properties\<close>

text \<open>
  C14: a histogram is exact and bounded. Over segments whose metadata describe their entries and live logs, the histogram of a range
  shorter than the longest duration has at most 10001 buckets of at least a second that follow each other from the start
  and cover the range; the total and the errors of each bucket are the numbers of sealed and live entries whose minute
  starts in it and before the end, the live ones received in the range.
\<close>

theorem histogram_exact:
  assumes "wal_cache_ok (zs E) B fs c" and "qview start end' = (segs, paths)"
    and "list_all2 (\<lambda>seg bs. meta_of (Meta seg) (concat bs) bs) segs bss"
    and "start < end'" and "end' - start < 2 ^ 63"
    and "old = concat (concat bss)" and "live = concat (map (wal_entries (zs E) fs) paths)"
    and "w = histogram_interval (end' - start) interval"
    and "hs = fst (Histogram E M B fs qview start end' interval q c)"
  shows "length hs \<le> 10001 \<and> 10 ^ 9 \<le> w \<and> end' < start + int (length hs) * w \<and>
    (\<forall>i < length hs. bTimestamp (hs ! i) = start + int i * w \<and>
       bTotal (hs ! i) = number (\<lambda>e. in_bucket start end' w i (minute e)) old +
         number (\<lambda>e. live_in start end' e \<and> in_bucket start end' w i (live_minute e)) live \<and>
       bErrors (hs ! i) = number (\<lambda>e. in_bucket start end' w i (minute e) \<and> isErrorLevel (Level e)) old +
         number (\<lambda>e. live_in start end' e \<and> in_bucket start end' w i (live_minute e) \<and> isErrorLevel (Level e)) live)"
proof -
  have t: "tally hTotal (\<lambda>_. True)" "tally hErrors isErrorLevel" by (simp_all add: tally_def)
  have w: "0 < w" "10 ^ 9 \<le> w" "(end' - start) div w \<le> 10000"
    using histogram_interval_pos histogram_interval_min [of "end' - start" interval] histogram_interval_cap [of "end' - start" interval]
    by (simp_all add: assms(8) minHistogramInterval_def maxHistogramBuckets_def)
  have sub: "Sub end' start = end' - start" using assms(4,5) by (simp add: Sub_def)
  obtain m where m: "fold (minute_segment E start end' no_filter) segs ([], q) = (m, q)"
    using minute_segments_ok [OF t(1) assms(3)] by blast
  have mw: "weight g P m = number (\<lambda>e. P (Some (minute e)) \<and> v (Level e)) old" if "tally g v" for g P v
    using minute_segments_ok [OF that assms(3), of E start end' "[]" q P] m by (simp add: assms(6))
  obtain m' c' where m': "addWALHistogram E M B fs paths start end' no_filter m c = (m', c')" by fastforce
  have lw: "weight g P m' = weight g P m + number (\<lambda>e. live_in start end' e \<and> P (Some (live_minute e)) \<and> v (Level e)) live" if "tally g v" for g P v
    using live_minutes_ok [OF that assms(1), of P M paths start end' m] by (simp add: m' assms(7))
  define buckets where "buckets = map (\<lambda>i. \<lparr>bTimestamp = start + int i * w, bTotal = 0, bErrors = 0\<rparr>) [0..<nat ((end' - start) div w + 1)]"
  have hs: "hs = fold (fill_bucket start end' w) m' buckets"
    using assms(4) m m' by (simp add: assms(2,9) assms(8) [symmetric] Histogram_def HistogramFiltered_def sub buckets_def no_filter_def [symmetric])
  have nn: "0 \<le> (end' - start) div w" using assms(4) w(1) by (simp add: pos_imp_zdiv_nonneg_iff)
  have cover: "end' - start < int (length buckets) * w" using int_div_less [OF w(1), of "end' - start" "(end' - start) div w + 1"] nn by (simp add: buckets_def)
  note f = fill_buckets_ok [OF w(1) assms(5) cover, of m']
  have l: "length hs = length buckets" using f by (simp add: hs)
  moreover have "length buckets \<le> 10001" using w(3) nn by (simp add: buckets_def)
  ultimately show ?thesis
    using w(2) cover f unfolding hs by (auto simp: buckets_def lw [OF t(1)] lw [OF t(2)] mw [OF t(1)] mw [OF t(2)])
qed

theorem histogram_exact_witness:
  "let seg = \<lparr>Hour = 0, DirPath = ''d'', Meta = sealed_meta 0 0 [one_entry]\<rparr>;
       hs = fst (Histogram one_env 0 0 \<lparr>names = \<lambda>_. None, contents = \<lambda>_. []\<rparr> (\<lambda>_ _. ([seg], [])) 0 (120 * 10 ^ 9) (60 * 10 ^ 9)
         \<lparr>qcolumns = newColumnCache 0, qindexes = NewCache 0\<rparr> newWALCache)
   in 2 < length hs \<and> bTotal (hs ! 0) = 1"
proof -
  let ?seg = "\<lparr>Hour = 0, DirPath = ''d'', Meta = sealed_meta 0 0 [one_entry]\<rparr>"
  have w: "wal_cache_ok (zs one_env) 0 \<lparr>names = \<lambda>_. None, contents = \<lambda>_. []\<rparr> newWALCache" by (simp add: wal_cache_ok_def newWALCache_def accounted_def)
  have "meta_of (Meta ?seg) [one_entry] [[one_entry]]"
    using sealed_meta_of [of "[one_entry]" 0 0] by (simp add: received_def one_entry_def zero_entry_def batches_Cons effectiveSealChunkEntries_def chunkSize_def batch_limit_def)
  then have m: "list_all2 (\<lambda>seg bs. meta_of (Meta seg) (concat bs) bs) [?seg] [[[one_entry]]]" by simp
  have i: "histogram_interval (120 * 10 ^ 9 - 0) (60 * 10 ^ 9) = 60 * 10 ^ 9" by code_simp
  let ?hs = "fst (Histogram one_env 0 0 \<lparr>names = \<lambda>_. None, contents = \<lambda>_. []\<rparr> (\<lambda>_ _. ([?seg], [])) 0 (120 * 10 ^ 9) (60 * 10 ^ 9)
    \<lparr>qcolumns = newColumnCache 0, qindexes = NewCache 0\<rparr> newWALCache)"
  have b: "in_bucket 0 (120 * 10 ^ 9) (60 * 10 ^ 9) 0 (minute one_entry)" by (simp add: in_bucket_def minute_def one_entry_def zero_entry_def)
  have h: "120 * 10 ^ 9 < 0 + int (length ?hs) * (60 * 10 ^ 9) \<and> (\<forall>i < length ?hs.
      bTotal (?hs ! i) = number (\<lambda>e. in_bucket 0 (120 * 10 ^ 9) (60 * 10 ^ 9) i (minute e)) [one_entry] + number (\<lambda>e. False) [])"
    using histogram_exact [OF w _ m _ _ refl refl i [symmetric] refl, where qview = "\<lambda>_ _. ([?seg], [])" and paths = "[]" and M = 0 and q = "\<lparr>qcolumns = newColumnCache 0, qindexes = NewCache 0\<rparr>"]
    by (simp add: number_def)
  have "2 < n" if "120 * 10 ^ 9 < 0 + int n * (60 * 10 ^ 9)" for n using that by simp
  then have l: "2 < length ?hs" using h by blast
  then have "bTotal (?hs ! 0) = number (\<lambda>e. in_bucket 0 (120 * 10 ^ 9) (60 * 10 ^ 9) 0 (minute e)) [one_entry] + number (\<lambda>e. False) []"
    by (intro h [THEN conjunct2, rule_format]) linarith
  then show ?thesis using l b unfolding Let_def by (simp add: number_def)
qed

end
