(* ===== verification/Writer.thy ===== *)
theory Writer
  imports Segments Ring
begin

text \<open>
  The writer of the live log, \<open>internal/logstore/engine/writer.go\<close>. The data directory maps an hour to its segment
  directory; a directory that does not exist is empty. What the file system answers to a write, a truncation and a
  sync is an argument of the operations that depend on it. \<open>Append\<close> has two critical sections: the write under
  \<open>mu\<close>, and the sync under \<open>syncMu\<close>; each is one definition.
\<close>

type_synonym datadir = "int \<Rightarrow> segdir"

definition at_file :: "int \<Rightarrow> segfile \<Rightarrow> content option \<Rightarrow> datadir \<Rightarrow> datadir" where
  "at_file hour f c ds = ds(hour := (ds hour)(f := c))"

section \<open>State\<close>

record WALWriter =
  segmentHour :: int
  entryCount :: nat
  validBytes :: nat
  fileSize :: nat
  writtenBytes :: nat
  syncedBytes :: nat
  wring :: RingBuffer

text \<open>What a write did: all of it, or an error after some bytes; and whether the calls that clean up worked.\<close>

datatype write_result = Written | Partial nat

record io =
  on_write :: write_result
  truncates :: bool
  syncs :: bool

definition ErrSegmentFull :: err where "ErrSegmentFull = Errorf ''segment hour is full'' []"

section \<open>Replaying a log\<close>

definition walLenPrefixBytes :: nat where "walLenPrefixBytes = 4"

function scan_records :: "zstd \<Rightarrow> nat \<Rightarrow> bytes \<Rightarrow> nat \<Rightarrow> nat \<Rightarrow> nat \<times> nat \<times> err option" where
  "scan_records Z size' r cnt valid =
     (case ReadFull r walLenPrefixBytes of
        (Inl e, _) \<Rightarrow> (cnt, valid, if e = EOF then None else Some (Wrapf ''read entry length'' [] (read_err e)))
      | (Inr lenBuf, r) \<Rightarrow>
          (case get_u32 lenBuf of
             Inl e \<Rightarrow> (cnt, valid, Some e)
           | Inr w \<Rightarrow>
               let entryLen = unat w
               in if entryLen \<le> 0 \<or> entryLen + valid + walLenPrefixBytes > size'
                  then (cnt, valid, Some (Errorf ''invalid entry length: %d'' [D (int entryLen)]))
                  else case ReadFull r entryLen of
                    (Inl e, _) \<Rightarrow> (cnt, valid, Some (Wrapf ''read entry data'' [] (read_err e)))
                  | (Inr data, r) \<Rightarrow>
                      (case UnmarshalEntry Z data of
                         Inl e \<Rightarrow> (cnt, valid, Some (Wrapf ''unmarshal entry'' [] e))
                       | Inr _ \<Rightarrow> scan_records Z size' r (cnt + 1) (valid + (walLenPrefixBytes + entryLen)))))"
  by pat_completeness auto
termination
  by (relation "measure (\<lambda>(Z, size', r, cnt, valid). length r)")
    (auto dest!: sym [THEN ReadFull_shrinks] simp: walLenPrefixBytes_def)

declare scan_records.simps [simp del]

definition scanWAL :: "zstd \<Rightarrow> bytes \<Rightarrow> nat \<times> nat \<times> err option" where
  "scanWAL Z b = scan_records Z (length b) b 0 0"

section \<open>Opening the log of an hour\<close>

definition maxSealedHourProbe :: nat where "maxSealedHourProbe = 24 * 365"

fun probe_hours :: "datadir \<Rightarrow> nat \<Rightarrow> int \<Rightarrow> int option" where
  "probe_hours ds 0 hour = None"
| "probe_hours ds (Suc n) hour = (if \<not> IsSealComplete (ds hour) then Some hour else probe_hours ds n (hour + 1))"

definition freeSegmentHour :: "datadir \<Rightarrow> int \<Rightarrow> int res" where
  "freeSegmentHour ds start =
     (case probe_hours ds maxSealedHourProbe start of
        Some hour \<Rightarrow> Inr hour
      | None \<Rightarrow> Inl (Errorf ''no unsealed segment hour in %d hours from %s'' [D (int maxSealedHourProbe), D start]))"

definition setSyncOffsets :: "nat \<Rightarrow> WALWriter \<Rightarrow> WALWriter" where
  "setSyncOffsets offset w = w\<lparr>writtenBytes := offset, syncedBytes := offset\<rparr>"

definition ensureWAL :: "zstd \<Rightarrow> int \<Rightarrow> WALWriter \<times> datadir \<Rightarrow> WALWriter \<times> datadir" where
  "ensureWAL Z hour = (\<lambda>(w, ds).
     case ds hour ActiveWal of
       Some (Bytes b) \<Rightarrow>
         (let (cnt, valid, er) = scanWAL Z b;
              b = (if er \<noteq> None then take valid b else b);
              w = setSyncOffsets valid (w\<lparr>entryCount := cnt, validBytes := valid, fileSize := valid\<rparr>)
          in (w\<lparr>segmentHour := hour\<rparr>, at_file hour ActiveWal (Some (Bytes b)) ds))
     | _ \<Rightarrow>
         (let w = setSyncOffsets 0 (w\<lparr>entryCount := 0, validBytes := 0, fileSize := 0\<rparr>)
          in (w\<lparr>segmentHour := hour\<rparr>, at_file hour ActiveWal (Some (Bytes [])) ds)))"

definition no_writer :: "RingBuffer \<Rightarrow> WALWriter" where
  "no_writer ring = \<lparr>segmentHour = 0, entryCount = 0, validBytes = 0, fileSize = 0, writtenBytes = 0, syncedBytes = 0, wring = ring\<rparr>"

definition NewWALWriter :: "zstd \<Rightarrow> go_time \<Rightarrow> RingBuffer \<Rightarrow> datadir \<Rightarrow> (WALWriter \<times> datadir) res" where
  "NewWALWriter Z now ring ds =
     rbind (freeSegmentHour ds (SegmentHourFromTime now)) (\<lambda>segHour. Inr (ensureWAL Z segHour (no_writer ring, ds)))"

section \<open>Appending\<close>

text \<open>\<open>normalizeForRing\<close>: an entry with a record or body of a mebibyte or more is read back from its record.\<close>

definition normalizeForRing :: "zstd \<Rightarrow> Entry \<Rightarrow> bytes \<Rightarrow> Entry" where
  "normalizeForRing Z e record =
     (if length record < MaxFieldBytes \<and> length (Body e) < MaxFieldBytes then e
      else case UnmarshalEntry Z (drop walLenPrefixBytes record) of Inl _ \<Rightarrow> e | Inr stored \<Rightarrow> stored)"

fun assign_ids :: "int \<Rightarrow> int64 \<Rightarrow> nat \<Rightarrow> Entry list \<Rightarrow> Entry list" where
  "assign_ids hour receivedAt i [] = []"
| "assign_ids hour receivedAt i (e # es) =
     e\<lparr>ID := IDForPosition (word_of_int hour) i, ReceivedAt := receivedAt\<rparr> # assign_ids hour receivedAt (i + 1) es"

text \<open>The batch buffer, and the entries as the log stored them.\<close>

definition serialize :: "zstd \<Rightarrow> bool \<Rightarrow> Entry list \<Rightarrow> bytes \<times> Entry list" where
  "serialize Z CompressBodies es =
     fold (\<lambda>e (buf, out). let start = length buf; buf = AppendEntry Z CompressBodies buf e
                          in (buf, out @ [normalizeForRing Z e (drop start buf)])) es ([], [])"

definition file_write :: "int \<Rightarrow> bytes \<Rightarrow> datadir \<Rightarrow> datadir" where
  "file_write hour b ds =
     (case ds hour ActiveWal of Some (Bytes old) \<Rightarrow> at_file hour ActiveWal (Some (Bytes (old @ b))) ds | _ \<Rightarrow> ds)"

definition file_truncate :: "int \<Rightarrow> nat \<Rightarrow> datadir \<Rightarrow> datadir" where
  "file_truncate hour n ds =
     (case ds hour ActiveWal of Some (Bytes old) \<Rightarrow> at_file hour ActiveWal (Some (Bytes (take n old))) ds | _ \<Rightarrow> ds)"

definition rollback :: "io \<Rightarrow> nat \<Rightarrow> WALWriter \<times> datadir \<Rightarrow> WALWriter \<times> datadir" where
  "rollback x offset = (\<lambda>(w, ds).
     if \<not> truncates x then (w, ds)
     else (w\<lparr>fileSize := offset, writtenBytes := offset,
             syncedBytes := (if syncedBytes w > offset then offset else syncedBytes w), validBytes := offset\<rparr>,
           file_truncate (segmentHour w) offset ds))"

text \<open>The part of \<open>Append\<close> under \<open>mu\<close>; it returns the stored entries and the offset to be synced.\<close>

definition append_locked ::
  "zstd \<Rightarrow> bool \<Rightarrow> io \<Rightarrow> go_time \<Rightarrow> Entry list \<Rightarrow> WALWriter \<times> datadir \<Rightarrow> (Entry list \<times> nat) res \<times> WALWriter \<times> datadir" where
  "append_locked Z CompressBodies x now entries = (\<lambda>(w, ds).
     let receivedAt = word_of_int (UnixMilli now); startIdx = entryCount w
     in if \<not> SegmentHasRoom (int startIdx) (int (length entries)) then (Inl ErrSegmentFull, w, ds)
        else let lastGood = fileSize w;
                 (batchBuf, stored) = serialize Z CompressBodies (assign_ids (segmentHour w) receivedAt startIdx entries)
             in case on_write x of
                  Partial n \<Rightarrow>
                    (Inl (Wrapf ''write WAL entry'' [] (Errorf ''write'' [])),
                     rollback x lastGood (w, file_write (segmentHour w) (take n batchBuf) ds))
                | Written \<Rightarrow>
                    let size' = lastGood + length batchBuf
                    in (Inr (stored, size'),
                        w\<lparr>fileSize := size', writtenBytes := size', entryCount := startIdx + length entries, wring := Push stored (wring w)\<rparr>,
                        file_write (segmentHour w) batchBuf ds))"

text \<open>
  \<open>syncThrough\<close>: whether there is anything to sync, what a sync that has begun covers, and what a completed sync
  records. Run without other writers it is \<open>syncThrough\<close>.
\<close>

definition sync_needed :: "nat \<Rightarrow> WALWriter \<Rightarrow> bool" where
  "sync_needed target w \<longleftrightarrow> \<not> syncedBytes w \<ge> target"

definition sync_done :: "nat \<Rightarrow> WALWriter \<Rightarrow> WALWriter" where
  "sync_done covered w = (if covered > syncedBytes w then w\<lparr>syncedBytes := covered, validBytes := covered\<rparr> else w)"

definition syncThrough :: "io \<Rightarrow> nat \<Rightarrow> WALWriter \<Rightarrow> unit res \<times> WALWriter" where
  "syncThrough x target w =
     (if \<not> sync_needed target w then (Inr (), w)
      else let covered = writtenBytes w
           in if \<not> syncs x then (Inl (Wrapf ''fsync WAL'' [] (Errorf ''sync'' [])), w) else (Inr (), sync_done covered w))"

definition Append ::
  "zstd \<Rightarrow> bool \<Rightarrow> io \<Rightarrow> go_time \<Rightarrow> Entry list \<Rightarrow> WALWriter \<times> datadir \<Rightarrow> Entry list res \<times> WALWriter \<times> datadir" where
  "Append Z CompressBodies x now entries s =
     (if entries = [] then (Inr [], s)
      else case append_locked Z CompressBodies x now entries s of
             (Inl e, s) \<Rightarrow> (Inl e, s)
           | (Inr (stored, durableAt), w, ds) \<Rightarrow>
               (case syncThrough x durableAt w of
                  (Inl e, w) \<Rightarrow> (Inl e, w, ds)
                | (Inr _, w) \<Rightarrow> (Inr stored, w, ds)))"

section \<open>Rotation\<close>

definition flushBeforeHandoff :: "io \<Rightarrow> WALWriter \<Rightarrow> WALWriter" where
  "flushBeforeHandoff x w = snd (syncThrough x (writtenBytes w) w)"

definition rotate_to :: "zstd \<Rightarrow> io \<Rightarrow> int \<Rightarrow> WALWriter \<times> datadir \<Rightarrow> WALWriter \<times> datadir" where
  "rotate_to Z x newHour = (\<lambda>(w, ds).
     let w = flushBeforeHandoff x w; h = segmentHour w;
         ds = (if ds h ActiveWal \<noteq> None then ds(h := do_op (Rename ActiveWal SealingWal) (ds h)) else ds)
     in ensureWAL Z newHour (w, ds))"

definition advanceEmpty :: "zstd \<Rightarrow> int \<Rightarrow> WALWriter \<times> datadir \<Rightarrow> WALWriter \<times> datadir" where
  "advanceEmpty Z newHour = (\<lambda>(w, ds).
     let h = segmentHour w; ds = (if ds h ActiveWal = Some (Bytes []) then at_file h ActiveWal None ds else ds)
     in ensureWAL Z newHour (w, ds))"

text \<open>\<open>Rotate\<close> returns the hour to seal and its number of entries; the path of the log to seal is the hour's.\<close>

definition Rotate :: "zstd \<Rightarrow> io \<Rightarrow> go_time \<Rightarrow> WALWriter \<times> datadir \<Rightarrow> (int \<times> nat) res \<times> WALWriter \<times> datadir" where
  "Rotate Z x now = (\<lambda>(w, ds).
     let sealHour = segmentHour w; cnt = entryCount w; nextHour = SegmentHourFromTime now
     in if cnt = 0 then
          (Inr (sealHour, 0), if nextHour > sealHour then advanceEmpty Z nextHour (w, ds) else (w, ds))
        else let nextHour = (if nextHour \<le> sealHour then sealHour + 1 else nextHour)
             in case freeSegmentHour ds nextHour of
                  Inl e \<Rightarrow> (Inl e, w, ds)
                | Inr nextHour \<Rightarrow> (Inr (sealHour, cnt), rotate_to Z x nextHour (w, ds)))"

definition WALWriter_Close :: "io \<Rightarrow> WALWriter \<Rightarrow> WALWriter" where
  "WALWriter_Close x w = flushBeforeHandoff x w"

section \<open>Lemmas on logs\<close>

definition log_bytes :: "zstd \<Rightarrow> bool \<Rightarrow> Entry list \<Rightarrow> bytes" where
  "log_bytes Z c es = concat (map (MarshalEntry Z c) es)"

definition bodies_small :: "Entry list \<Rightarrow> bool" where
  "bodies_small es \<longleftrightarrow> (\<forall>e \<in> set es. int (length (Body e)) \<le> MaxBlockBytes)"

lemma log_bytes_append: "log_bytes Z c (es @ es') = log_bytes Z c es @ log_bytes Z c es'"
  by (simp add: log_bytes_def)

lemma serialize_eq:
  "serialize Z c es = (log_bytes Z c es, map (\<lambda>e. normalizeForRing Z e (MarshalEntry Z c e)) es)"
proof -
  have a: "AppendEntry Z c buf e = buf @ MarshalEntry Z c e" for buf e by (simp add: AppendEntry_payload MarshalEntry_def)
  have "fold (\<lambda>e (buf, out). let start = length buf; buf = AppendEntry Z c buf e in (buf, out @ [normalizeForRing Z e (drop start buf)])) es (b, l)
      = (b @ log_bytes Z c es, l @ map (\<lambda>e. normalizeForRing Z e (MarshalEntry Z c e)) es)" for b l
    by (induction es arbitrary: b l) (simp_all add: a log_bytes_def)
  then show ?thesis by (simp add: serialize_def)
qed

lemma assign_ids_length [simp]: "length (assign_ids h r i es) = length es"
  by (induction es arbitrary: i) simp_all

lemma assign_ids_nth: "k < length es \<Longrightarrow> assign_ids h r i es ! k = (es ! k)\<lparr>ID := IDForPosition (word_of_int h) (i + k), ReceivedAt := r\<rparr>"
  by (induction es arbitrary: i k) (auto simp: nth_Cons split: nat.split)

lemma assign_ids_bodies: "bodies_small (assign_ids h r i es) \<longleftrightarrow> bodies_small es"
  by (induction es arbitrary: i) (auto simp: bodies_small_def)

section \<open>Replay\<close>

text \<open>The replay of a start and the reader of queries agree, as long as what the reader leaves is shorter than a record may be.\<close>

lemma scan_Some:
  assumes "Next Z (at r n) = (Some e, s')"
  shows "\<exists>w. r = w @ rd s' \<and> w \<noteq> [] \<and>
    scan_records Z (valid + length r) r cnt valid = scan_records Z (valid + length r) (rd s') (cnt + 1) (valid + length w)"
proof -
  from assms obtain lenBuf r1 w4 rec r' where
    a: "ReadFull r 4 = (Inr lenBuf, r1)" and b: "get_u32 lenBuf = Inr w4" and l: "minRecordBytes \<le> unat w4"
    and c: "ReadFull r1 (unat w4) = (Inr rec, r')" and d: "UnmarshalEntry Z rec = Inr e" and s': "rd s' = r'"
    by (auto simp: Next_def Let_def UnmarshalEntry_def split: if_splits prod.splits sum.splits)
  note len = ReadFull_shrinks [OF a] ReadFull_shrinks [OF c]
  have "scan_records Z (valid + length r) r cnt valid = scan_records Z (valid + length r) r' (cnt + 1) (valid + (4 + unat w4))"
    using a b c d l len by (subst scan_records.simps) (simp add: walLenPrefixBytes_def minRecordBytes_def Let_def)
  then show ?thesis using len s' by (intro exI [of _ "lenBuf @ rec"]) auto
qed

lemma scan_None:
  assumes n: "Next Z (at r n) = (None, s')" and l: "length r \<le> maxRecordBytes + 4"
  shows "\<exists>er. scan_records Z (valid + length r) r cnt valid = (cnt, valid, er) \<and> (er = None \<longleftrightarrow> serr s' = None)"
proof (cases "ReadFull r 4")
  case (Pair v r1)
  show ?thesis
  proof (cases v)
    case (Inl e)
    then show ?thesis using n Pair by (subst scan_records.simps) (auto simp: walLenPrefixBytes_def Next_def split: if_splits)
  next
    case (Inr lenBuf)
    note a = ReadFull_shrinks [OF Pair [unfolded Inr]]
    obtain w4 where b: "get_u32 lenBuf = Inr w4" using get_u32_no_panic [of lenBuf] a by auto
    have er: "serr s' \<noteq> None" using n Pair Inr b by (auto simp: Next_def Let_def split: if_splits prod.splits sum.splits)
    let ?s = "scan_records Z (valid + length r) r cnt valid"
    have "\<exists>x. ?s = (cnt, valid, Some x)"
    proof (cases "unat w4 \<le> 0 \<or> unat w4 > length r1")
      case True
      then show ?thesis using Pair Inr b a by (subst scan_records.simps) (auto simp: walLenPrefixBytes_def Let_def)
    next
      case False
      then obtain rec r2 where c: "ReadFull r1 (unat w4) = (Inr rec, r2)" by (auto simp: ReadFull_def)
      have "\<exists>x. UnmarshalEntry Z rec = Inl x"
      proof (cases "unat w4 < minRecordBytes \<or> unat w4 > maxRecordBytes")
        case True
        then have "length rec < minRecordBytes" using False l a ReadFull_shrinks [OF c] by auto
        then show ?thesis by (simp add: UnmarshalEntry_def UnmarshalEntryInto_def)
      next
        case False
        then show ?thesis using n Pair Inr b c by (auto simp: Next_def Let_def UnmarshalEntry_def split: if_splits prod.splits sum.splits)
      qed
      then show ?thesis using False Pair Inr b c a by (subst scan_records.simps) (auto simp: walLenPrefixBytes_def Let_def)
    qed
    then show ?thesis using er by auto
  qed
qed

lemma scan_read:
  "ReadEntriesFrom Z r = (es, c, er) \<Longrightarrow> length r \<le> c + (maxRecordBytes + 4) \<Longrightarrow>
   \<exists>er'. scan_records Z (valid + length r) r cnt valid = (cnt + length es, valid + c, er') \<and> (er' = None \<longleftrightarrow> er = None)"
proof (induction "length r" arbitrary: r es c cnt valid rule: less_induct)
  case less
  obtain eo s' where n: "Next Z (at r 0) = (eo, s')" by fastforce
  show ?case
  proof (cases eo)
    case None
    then have "es = []" "c = 0" "er = serr s'" using less.prems(1) ReadEntriesFrom_stop [of Z r s'] n by auto
    then show ?thesis using scan_None [of Z r 0 s' valid cnt] n None less.prems(2) by auto
  next
    case (Some e)
    from scan_Some [OF n [unfolded Some], of valid cnt] obtain w where w: "r = w @ rd s'" "w \<noteq> []"
      and s: "scan_records Z (valid + length r) r cnt valid = scan_records Z (valid + length r) (rd s') (cnt + 1) (valid + length w)" by blast
    from Next_Some [OF n [unfolded Some]] obtain w' where w': "r = w' @ rd s'"
      and nx: "\<And>x c. Next Z (at (w' @ x) c) = (Some e, at x (c + length w'))" by auto
    have "w' = w" using w w' by simp
    then obtain es1 c1 where r1: "ReadEntriesFrom Z (rd s') = (es1, c1, er)" and es: "es = e # es1" "c = length w + c1"
      using less.prems w(1) ReadEntriesFrom_step [OF nx, of "rd s'"] by (cases "ReadEntriesFrom Z (rd s')") auto
    have "length (rd s') < length r" "length (rd s') \<le> c1 + (maxRecordBytes + 4)" using w less.prems(2) es by auto
    from less.hyps [OF this(1) r1 this(2), of "valid + length w" "cnt + 1"]
    show ?thesis unfolding s using arg_cong [OF w(1), of length] es by (simp add: add.assoc)
  qed
qed

lemma scanWAL_read:
  "ReadEntriesFrom Z b = (es, c, er) \<Longrightarrow> length b \<le> c + (maxRecordBytes + 4) \<Longrightarrow>
   \<exists>er'. scanWAL Z b = (length es, c, er') \<and> (er' = None \<longleftrightarrow> er = None)"
  using scan_read [of Z b es c er 0 0] by (simp add: scanWAL_def)

lemma length_MarshalEntry: "length (MarshalEntry Z c e) \<le> maxRecordBytes + 4"
  using length_payload [of Z c e] by (simp add: MarshalEntry_payload)

text \<open>What a crash can leave of an appended log: complete records and a part of one more.\<close>

lemma scan_torn:
  assumes "zstd_lib Z" "bodies_small es" "k < length (MarshalEntry Z c e)"
  shows "\<exists>er. scanWAL Z (log_bytes Z c es @ take k (MarshalEntry Z c e)) = (length es, length (log_bytes Z c es), er) \<and> (er = None \<longleftrightarrow> k = 0)"
proof -
  obtain er where "ReadEntriesFrom Z (log_bytes Z c es @ take k (MarshalEntry Z c e)) = (map (wal_normal Z c) es, length (log_bytes Z c es), er)" "er = None \<longleftrightarrow> k = 0"
    using torn_file [OF assms(3)] file_reads_back [OF assms(1) assms(2) [unfolded bodies_small_def], of c "take k (MarshalEntry Z c e)"]
    by (auto simp: log_bytes_def)
  then show ?thesis using scanWAL_read [of Z _ "map (wal_normal Z c) es" "length (log_bytes Z c es)" er] length_MarshalEntry [of Z c e] assms(3) by fastforce
qed

section \<open>Invariant\<close>

text \<open>The log of the current hour holds the records of \<open>es\<close>, numbered from the first position, and the counters say so.\<close>

definition ids_from :: "int \<Rightarrow> nat \<Rightarrow> Entry list \<Rightarrow> bool" where
  "ids_from hour k es \<longleftrightarrow> (\<forall>i < length es. ID (es ! i) = IDForPosition (word_of_int hour) (k + i))"

lemma ids_from_append: "ids_from h k (es @ es') \<longleftrightarrow> ids_from h k es \<and> ids_from h (k + length es) es'"
proof
  assume a: "ids_from h k (es @ es')"
  have "ID (es ! i) = IDForPosition (word_of_int h) (k + i)" if "i < length es" for i
    using a [unfolded ids_from_def, rule_format, of i] that by (simp add: nth_append)
  moreover have "ID (es' ! i) = IDForPosition (word_of_int h) (k + length es + i)" if "i < length es'" for i
    using a [unfolded ids_from_def, rule_format, of "length es + i"] that by (simp add: nth_append add.assoc)
  ultimately show "ids_from h k es \<and> ids_from h (k + length es) es'" by (simp add: ids_from_def)
next
  assume a: "ids_from h k es \<and> ids_from h (k + length es) es'"
  show "ids_from h k (es @ es')"
    unfolding ids_from_def
  proof (intro allI impI)
    fix i assume i: "i < length (es @ es')"
    show "ID ((es @ es') ! i) = IDForPosition (word_of_int h) (k + i)"
      using a i unfolding ids_from_def by (cases "i < length es") (auto simp: nth_append)
  qed
qed

lemma assign_ids_from: "ids_from h k (assign_ids h r k es)"
  by (simp add: ids_from_def assign_ids_nth)

definition writer_ok :: "zstd \<Rightarrow> bool \<Rightarrow> Entry list \<Rightarrow> WALWriter \<times> datadir \<Rightarrow> bool" where
  "writer_ok Z c es = (\<lambda>(w, ds).
     ds (segmentHour w) ActiveWal = Some (Bytes (log_bytes Z c es)) \<and>
     entryCount w = length es \<and> length es \<le> MaxEntriesPerSegment \<and> ids_from (segmentHour w) 0 es \<and> bodies_small es \<and>
     fileSize w = length (log_bytes Z c es) \<and> writtenBytes w = fileSize w \<and> syncedBytes w \<le> writtenBytes w \<and> validBytes w \<le> writtenBytes w)"

lemma at_file_same [simp]: "at_file h f v ds h f = v"
  by (simp add: at_file_def)

lemma at_file_other [simp]: "f' \<noteq> f \<Longrightarrow> at_file h f v ds h' f' = ds h' f'" "h' \<noteq> h \<Longrightarrow> at_file h f v ds h' = ds h'"
  by (simp_all add: at_file_def)

lemma log_bytes_pos: "es \<noteq> [] \<Longrightarrow> 0 < length (log_bytes Z c es)"
  by (cases es) (simp_all add: log_bytes_def MarshalEntry_payload)

lemma append_locked_ok:
  assumes ok: "writer_ok Z c es (w, ds)" and t: "truncates x" and small: "bodies_small entries"
    and new: "new = assign_ids (segmentHour w) (word_of_int (UnixMilli now)) (length es) entries"
    and a: "append_locked Z c x now entries (w, ds) = (r, w', ds')"
  shows "segmentHour w' = segmentHour w \<and> syncedBytes w' = syncedBytes w \<and>
    (if length es + length entries \<le> MaxEntriesPerSegment \<and> on_write x = Written
     then writer_ok Z c (es @ new) (w', ds') \<and> wring w' = Push (map (\<lambda>e. normalizeForRing Z e (MarshalEntry Z c e)) new) (wring w) \<and>
       r = Inr (map (\<lambda>e. normalizeForRing Z e (MarshalEntry Z c e)) new, writtenBytes w')
     else writer_ok Z c es (w', ds') \<and> wring w' = wring w \<and>
       r = Inl (if length es + length entries \<le> MaxEntriesPerSegment then Wrapf ''write WAL entry'' [] (Errorf ''write'' []) else ErrSegmentFull))"
proof -
  have w: "ds (segmentHour w) ActiveWal = Some (Bytes (log_bytes Z c es))" "entryCount w = length es" "length es \<le> MaxEntriesPerSegment"
    "ids_from (segmentHour w) 0 es" "bodies_small es" "fileSize w = length (log_bytes Z c es)" "writtenBytes w = fileSize w"
    "syncedBytes w \<le> writtenBytes w" "validBytes w \<le> writtenBytes w"
    using ok by (simp_all add: writer_ok_def)
  have room: "SegmentHasRoom (int (length es)) (int (length entries)) \<longleftrightarrow> length es + length entries \<le> MaxEntriesPerSegment"
    by (simp add: SegmentHasRoom_def flip: of_nat_add)
  have new': "length new = length entries" "ids_from (segmentHour w) (length es) new" "bodies_small new"
    using small by (simp_all add: new assign_ids_from assign_ids_bodies)
  show ?thesis
  proof (cases "length es + length entries \<le> MaxEntriesPerSegment")
    case True
    show ?thesis
    proof (cases "on_write x")
      case Written
      then show ?thesis using a True room w new'
        by (auto simp: append_locked_def serialize_eq Let_def new [symmetric] writer_ok_def file_write_def log_bytes_append ids_from_append bodies_small_def)
    next
      case (Partial n)
      then show ?thesis using a True room w t
        by (auto simp: append_locked_def serialize_eq Let_def new [symmetric] writer_ok_def file_write_def file_truncate_def rollback_def)
    qed
  next
    case False
    then show ?thesis using a room w ok by (auto simp: append_locked_def)
  qed
qed

lemma sync_ok:
  assumes "writer_ok Z c es (w, ds)"
  shows "writer_ok Z c es (snd (syncThrough x target w), ds)" "segmentHour (snd (syncThrough x target w)) = segmentHour w"
  using assms by (auto simp: syncThrough_def sync_done_def sync_needed_def writer_ok_def Let_def)

lemma Append_ok:
  assumes "writer_ok Z c es (w, ds)" and "truncates x" and "bodies_small entries" and "entries \<noteq> []"
    and "new = assign_ids (segmentHour w) (word_of_int (UnixMilli now)) (length es) entries"
    and "out = map (\<lambda>e. normalizeForRing Z e (MarshalEntry Z c e)) new"
    and "written \<longleftrightarrow> length es + length entries \<le> MaxEntriesPerSegment \<and> on_write x = Written"
    and "Append Z c x now entries (w, ds) = (r, w', ds')"
  shows "writer_ok Z c (if written then es @ new else es) (w', ds') \<and> wring w' = (if written then Push out (wring w) else wring w) \<and>
    (r = Inr out \<longleftrightarrow> written \<and> syncs x) \<and> (\<forall>es'. r = Inr es' \<longrightarrow> es' = out \<and> syncedBytes w' = writtenBytes w')"
proof -
  obtain r1 w1 ds1 where a: "append_locked Z c x now entries (w, ds) = (r1, w1, ds1)" by (cases "append_locked Z c x now entries (w, ds)") auto
  note l = append_locked_ok [OF assms(1-3,5) a]
  show ?thesis
  proof (cases written)
    case True
    then have ok: "writer_ok Z c (es @ new) (w1, ds1)" "wring w1 = Push out (wring w)" "r1 = Inr (out, writtenBytes w1)"
      using l assms(6,7) by simp_all
    have "new \<noteq> []" using assms(4,5) by (cases entries) simp_all
    then have "writtenBytes w < writtenBytes w1" using ok(1) assms(1) log_bytes_pos [of new Z c] by (auto simp: writer_ok_def log_bytes_append)
    moreover have "syncedBytes w1 \<le> writtenBytes w" using l assms(1) by (auto simp: writer_ok_def)
    ultimately have n: "sync_needed (writtenBytes w1) w1" by (simp add: sync_needed_def)
    show ?thesis
      using assms(4,8) a ok n sync_ok(1) [OF ok(1), of x "writtenBytes w1"] True
      by (auto simp: Append_def syncThrough_def sync_done_def sync_needed_def Let_def split: if_splits)
  next
    case False
    then show ?thesis using l assms(4,7,8) a by (auto simp: Append_def split: if_splits)
  qed
qed

lemma file_frame:
  assumes "h \<noteq> hour \<or> f \<noteq> ActiveWal"
  shows "file_write hour b ds h f = ds h f" "file_truncate hour n ds h f = ds h f"
  using assms by (auto simp: file_write_def file_truncate_def at_file_def split: option.split content.split)

lemma append_locked_frame:
  assumes "h \<noteq> segmentHour w \<or> f \<noteq> ActiveWal"
  shows "snd (snd (append_locked Z c x now entries (w, ds))) h f = ds h f" "segmentHour (fst (snd (append_locked Z c x now entries (w, ds)))) = segmentHour w"
  by (cases "on_write x"; simp add: append_locked_def serialize_eq rollback_def file_frame [OF assms] Let_def)+

lemma Append_frame:
  assumes "Append Z c x now entries (w, ds) = (r, w', ds')" and "h \<noteq> segmentHour w \<or> f \<noteq> ActiveWal"
  shows "ds' h f = ds h f" "segmentHour w' = segmentHour w"
proof -
  obtain r1 w1 ds1 where a: "append_locked Z c x now entries (w, ds) = (r1, w1, ds1)" by (cases "append_locked Z c x now entries (w, ds)") auto
  have f: "ds1 h f = ds h f" "segmentHour w1 = segmentHour w" using append_locked_frame [OF assms(2), of Z c x now entries ds] by (simp_all add: a)
  have y: "segmentHour (snd (syncThrough x t w1)) = segmentHour w1" for t
    by (simp add: syncThrough_def sync_done_def Let_def)
  show "ds' h f = ds h f" "segmentHour w' = segmentHour w"
    using assms(1) a f y by (auto simp: Append_def split: if_splits sum.splits prod.splits) (metis snd_conv)+
qed

lemma Append_full:
  assumes "writer_ok Z c es (w, ds)" "truncates x" "bodies_small entries" "entries \<noteq> []" "Append Z c x now entries (w, ds) = (r, w', ds')"
  shows "r = Inl ErrSegmentFull \<longleftrightarrow> \<not> length es + length entries \<le> MaxEntriesPerSegment"
proof -
  obtain r1 w1 ds1 where a: "append_locked Z c x now entries (w, ds) = (r1, w1, ds1)" by (cases "append_locked Z c x now entries (w, ds)") auto
  have y: "fst (syncThrough x target w1) \<noteq> Inl ErrSegmentFull" for target by (simp add: syncThrough_def ErrSegmentFull_def Let_def)
  have r: "r1 = Inl ErrSegmentFull \<longleftrightarrow> \<not> length es + length entries \<le> MaxEntriesPerSegment"
    using append_locked_ok [OF assms(1-3) refl a] by (simp add: ErrSegmentFull_def split: if_splits)
  have "r = (case r1 of Inl e \<Rightarrow> Inl e | Inr (stored, durableAt) \<Rightarrow> (case fst (syncThrough x durableAt w1) of Inl e \<Rightarrow> Inl e | Inr _ \<Rightarrow> Inr stored))"
    using assms(4,5) a by (cases r1) (auto simp: Append_def split: sum.splits prod.splits)
  then show ?thesis using r y by (cases r1) (auto split: sum.splits prod.splits)
qed

section \<open>Property\<close>



end
