(* ===== verification/Group_Commit.thy ===== *)
theory Group_Commit
  imports Writer
begin

text \<open>
  Concurrent appends: the two critical sections of \<open>Append\<close> and the lock order of \<open>internal/logstore/engine/writer.go\<close> as a
  step relation. A batch is written under \<open>mu\<close>; then its appender waits for \<open>syncMu\<close>, and either finds its bytes already
  synced, or reads \<open>writtenBytes\<close> and starts a sync, during which other batches can be written. A failed write leaves
  a part of its batch behind and keeps \<open>mu\<close> until the rollback, which takes \<open>syncMu\<close>. A sync that returns has made
  durable all that was written before it began.
\<close>

section \<open>Steps\<close>

record commit =
  gw :: WALWriter
  gds :: datadir
  ondisk :: nat
  syncing :: "(nat \<times> nat) option"
  failing :: "nat option"
  waiting :: "nat \<Rightarrow> (nat \<times> Entry list) option"
  acked :: "nat \<Rightarrow> (nat \<times> Entry list) option"

definition batch_of :: "go_time \<Rightarrow> Entry list \<Rightarrow> commit \<Rightarrow> Entry list" where
  "batch_of now entries s = assign_ids (segmentHour (gw s)) (word_of_int (UnixMilli now)) (entryCount (gw s)) entries"

inductive commit_step :: "zstd \<Rightarrow> bool \<Rightarrow> commit \<Rightarrow> commit \<Rightarrow> bool" for Z c where
  write_all: "commit_step Z c s (s\<lparr>gw := w, gds := ds, waiting := (waiting s)(t \<mapsto> (target, batch_of now entries s))\<rparr>)"
    if "failing s = None" "waiting s t = None" "acked s t = None" "entries \<noteq> []" "bodies_small entries"
      "append_locked Z c \<lparr>on_write = Written, truncates = True, syncs = True\<rparr> now entries (gw s, gds s) = (Inr (out, target), w, ds)"
| write_part: "commit_step Z c s (s\<lparr>gds := file_write (segmentHour (gw s)) (take n (fst (serialize Z c (batch_of now entries s)))) (gds s),
      failing := Some (fileSize (gw s))\<rparr>)"
    if "failing s = None"
| roll_back: "commit_step Z c s (s\<lparr>gw := w, gds := ds, failing := None\<rparr>)"
    if "failing s = Some lastGood" "syncing s = None" "rollback \<lparr>on_write = Partial 0, truncates = True, syncs = ok\<rparr> lastGood (gw s, gds s) = (w, ds)"
| covered: "commit_step Z c s (s\<lparr>waiting := (waiting s)(t := None), acked := (acked s)(t \<mapsto> (target, new))\<rparr>)"
    if "waiting s t = Some (target, new)" "syncing s = None" "\<not> sync_needed target (gw s)"
| sync_begin: "commit_step Z c s (s\<lparr>syncing := Some (t, writtenBytes (gw s))\<rparr>)"
    if "waiting s t = Some (target, new)" "syncing s = None" "sync_needed target (gw s)"
| sync_end: "commit_step Z c s (s\<lparr>gw := sync_done n (gw s), ondisk := max (ondisk s) n, syncing := None,
      waiting := (waiting s)(t := None), acked := (acked s)(t \<mapsto> (target, new))\<rparr>)"
    if "syncing s = Some (t, n)" "waiting s t = Some (target, new)"
| sync_fail: "commit_step Z c s (s\<lparr>syncing := None, waiting := (waiting s)(t := None)\<rparr>)"
    if "syncing s = Some (t, n)"

text \<open>A writer that nobody waits for, whose synced bytes are on disk.\<close>

definition commit_start :: "zstd \<Rightarrow> bool \<Rightarrow> commit \<Rightarrow> bool" where
  "commit_start Z c s \<longleftrightarrow> (\<exists>es. writer_ok Z c es (gw s, gds s)) \<and> syncedBytes (gw s) \<le> ondisk s \<and> ondisk s \<le> writtenBytes (gw s) \<and>
     syncing s = None \<and> failing s = None \<and> waiting s = (\<lambda>_. None) \<and> acked s = (\<lambda>_. None)"

section \<open>Invariant\<close>

text \<open>Where a batch lies in the log: its records end at the target offset.\<close>

definition placed :: "zstd \<Rightarrow> bool \<Rightarrow> Entry list \<Rightarrow> nat \<times> Entry list \<Rightarrow> bool" where
  "placed Z c es = (\<lambda>(target, new). \<exists>pre post. es = pre @ new @ post \<and> target = length (log_bytes Z c (pre @ new)))"

definition commit_inv :: "zstd \<Rightarrow> bool \<Rightarrow> Entry list \<Rightarrow> bytes \<Rightarrow> commit \<Rightarrow> bool" where
  "commit_inv Z c es junk s \<longleftrightarrow>
     writer_ok Z c es (gw s, at_file (segmentHour (gw s)) ActiveWal (Some (Bytes (log_bytes Z c es))) (gds s)) \<and>
     gds s (segmentHour (gw s)) ActiveWal = Some (Bytes (log_bytes Z c es @ junk)) \<and>
     (failing s = None \<longrightarrow> junk = []) \<and> (\<forall>g. failing s = Some g \<longrightarrow> g = fileSize (gw s)) \<and>
     syncedBytes (gw s) \<le> ondisk s \<and> ondisk s \<le> writtenBytes (gw s) \<and>
     (\<forall>t b. waiting s t = Some b \<longrightarrow> placed Z c es b) \<and> (\<forall>t b. acked s t = Some b \<longrightarrow> placed Z c es b \<and> fst b \<le> ondisk s) \<and>
     (\<forall>t n. syncing s = Some (t, n) \<longrightarrow> n \<le> writtenBytes (gw s) \<and> (\<exists>b. waiting s t = Some b \<and> fst b \<le> n))"

lemma placed_le: "placed Z c es b \<Longrightarrow> fst b \<le> length (log_bytes Z c es)"
  by (auto simp: placed_def log_bytes_append)

lemma placed_append: "placed Z c es b \<Longrightarrow> placed Z c (es @ es2) b"
  by (auto simp: placed_def) (metis append.assoc)

lemma placed_new: "placed Z c (es @ new) (length (log_bytes Z c (es @ new)), new)"
  unfolding placed_def prod.case by (rule exI [of _ es], rule exI [of _ "[]"], simp)

lemma commit_start_inv: "commit_start Z c s \<Longrightarrow> \<exists>es. commit_inv Z c es [] s"
proof -
  assume s: "commit_start Z c s"
  then obtain es where "writer_ok Z c es (gw s, gds s)" by (auto simp: commit_start_def)
  moreover from this have "at_file (segmentHour (gw s)) ActiveWal (Some (Bytes (log_bytes Z c es))) (gds s) = gds s"
    by (simp add: writer_ok_def at_file_def fun_upd_idem)
  ultimately show ?thesis using s by (auto simp: commit_inv_def commit_start_def writer_ok_def)
qed

lemma commit_write:
  assumes inv: "commit_inv Z c es junk s" and f: "failing s = None" and small: "bodies_small entries" and wt: "waiting s t = None"
    and l: "append_locked Z c \<lparr>on_write = Written, truncates = True, syncs = True\<rparr> now entries (gw s, gds s) = (Inr (out, target), w, ds)"
  shows "\<exists>es. commit_inv Z c es [] (s\<lparr>gw := w, gds := ds, waiting := (waiting s)(t \<mapsto> (target, batch_of now entries s))\<rparr>)"
proof -
  have fs: "at_file (segmentHour (gw s)) ActiveWal (Some (Bytes (log_bytes Z c es))) (gds s) = gds s"
    using inv f by (simp add: commit_inv_def at_file_def fun_upd_idem)
  have ok: "writer_ok Z c es (gw s, gds s)" using inv unfolding commit_inv_def fs by blast
  let ?new = "batch_of now entries s"
  have "entryCount (gw s) = length es" using ok by (simp add: writer_ok_def)
  then have new: "?new = assign_ids (segmentHour (gw s)) (word_of_int (UnixMilli now)) (length es) entries" by (simp add: batch_of_def)
  have ok': "writer_ok Z c (es @ ?new) (w, ds)" "target = writtenBytes w" "segmentHour w = segmentHour (gw s)" "syncedBytes w = syncedBytes (gw s)"
    using append_locked_ok [OF ok _ small new l] by (auto split: if_splits)
  have t: "target = length (log_bytes Z c (es @ ?new))" "writtenBytes (gw s) = length (log_bytes Z c es)"
    using ok ok' by (simp_all add: writer_ok_def)
  have fs': "at_file (segmentHour w) ActiveWal (Some (Bytes (log_bytes Z c (es @ ?new)))) ds = ds"
    using ok' by (simp add: writer_ok_def at_file_def fun_upd_idem)
  have w: "\<And>t b. waiting s t = Some b \<Longrightarrow> placed Z c es b" and k: "\<And>t b. acked s t = Some b \<Longrightarrow> placed Z c es b \<and> fst b \<le> ondisk s"
    and sy: "\<And>t n. syncing s = Some (t, n) \<Longrightarrow> n \<le> writtenBytes (gw s) \<and> (\<exists>b. waiting s t = Some b \<and> fst b \<le> n)"
    and od: "syncedBytes (gw s) \<le> ondisk s" "ondisk s \<le> writtenBytes (gw s)"
    using inv unfolding commit_inv_def by blast+
  have le: "writtenBytes (gw s) \<le> writtenBytes w" using t ok'(2) by (simp add: log_bytes_append)
  let ?s = "s\<lparr>gw := w, gds := ds, waiting := (waiting s)(t \<mapsto> (target, ?new))\<rparr>"
  have "commit_inv Z c (es @ ?new) [] ?s"
    unfolding commit_inv_def
  proof (intro conjI allI impI)
    show "writer_ok Z c (es @ ?new) (gw ?s, at_file (segmentHour (gw ?s)) ActiveWal (Some (Bytes (log_bytes Z c (es @ ?new)))) (gds ?s))"
      using ok'(1) fs' by simp
    show "gds ?s (segmentHour (gw ?s)) ActiveWal = Some (Bytes (log_bytes Z c (es @ ?new) @ []))" using ok'(1) by (simp add: writer_ok_def)
    show "syncedBytes (gw ?s) \<le> ondisk ?s" "ondisk ?s \<le> writtenBytes (gw ?s)" using od ok'(4) le by simp_all
  next
    fix t' b assume "waiting ?s t' = Some b"
    then show "placed Z c (es @ ?new) b" using w [of t' b] placed_new [of Z c es ?new] t(1) by (auto simp: placed_append split: if_splits)
  next
    fix t' b assume "acked ?s t' = Some b"
    then show "placed Z c (es @ ?new) b" "fst b \<le> ondisk ?s" using k [of t' b] by (simp_all add: placed_append)
  next
    fix t' n assume n: "syncing ?s = Some (t', n)"
    then show "n \<le> writtenBytes (gw ?s)" using sy [of t' n] le by simp
    show "\<exists>b. waiting ?s t' = Some b \<and> fst b \<le> n" using sy [of t' n] n wt by auto
  qed (use f in simp_all)
  then show ?thesis by blast
qed

lemma commit_step_inv:
  assumes "commit_step Z c s s'" "commit_inv Z c es junk s"
  shows "\<exists>es' junk'. commit_inv Z c es' junk' s'"
  using assms(1)
proof cases
  case (write_all t entries now out target w ds)
  then show ?thesis using commit_write [OF assms(2)] by blast
next
  case (write_part n now entries)
  let ?b = "take n (fst (serialize Z c (batch_of now entries s)))"
  have "commit_inv Z c es ?b s'"
    using assms(2) write_part by (auto simp: commit_inv_def file_write_def writer_ok_def at_file_def)
  then show ?thesis by blast
next
  case (roll_back lastGood ok w ds)
  have "commit_inv Z c es [] s'"
    using assms(2) roll_back by (auto simp: commit_inv_def rollback_def file_truncate_def writer_ok_def at_file_def split: if_splits)
  then show ?thesis by blast
next
  case (covered t target new)
  then have "commit_inv Z c es junk s'" using assms(2) by (auto simp: commit_inv_def sync_needed_def)
  then show ?thesis by blast
next
  case (sync_begin t target new)
  then have "target \<le> writtenBytes (gw s)" using assms(2) placed_le [of Z c es "(target, new)"] by (auto simp: commit_inv_def writer_ok_def)
  then have "commit_inv Z c es junk s'" using assms(2) sync_begin by (auto simp: commit_inv_def)
  then show ?thesis by blast
next
  case (sync_end t n target new)
  then have "target \<le> n" "n \<le> writtenBytes (gw s)" using assms(2) by (auto simp: commit_inv_def)
  then have "commit_inv Z c es junk s'" using assms(2) sync_end by (auto simp: commit_inv_def sync_done_def writer_ok_def intro: max.coboundedI1)
  then show ?thesis by blast
next
  case (sync_fail t n)
  then have "commit_inv Z c es junk s'" using assms(2) by (auto simp: commit_inv_def)
  then show ?thesis by blast
qed

lemma commit_reach_inv:
  assumes "(commit_step Z c)\<^sup>*\<^sup>* s0 s" "commit_start Z c s0"
  shows "\<exists>es junk. commit_inv Z c es junk s"
  using assms(1)
proof (induction rule: rtranclp_induct)
  case base
  show ?case using commit_start_inv [OF assms(2)] by blast
next
  case (step s s')
  then show ?case using commit_step_inv by blast
qed

lemma acked_survives:
  assumes Z: "zstd_lib Z" and inv: "commit_inv Z c es junk s" and a: "acked s t = Some (target, new)" and n: "ondisk s \<le> n"
  shows "\<exists>before after er. ReadEntries Z (take n (log_bytes Z c es @ junk)) = (before @ map (wal_normal Z c) new @ after, er)"
proof -
  have p: "placed Z c es (target, new) \<and> fst (target, new) \<le> ondisk s" using inv a unfolding commit_inv_def by blast
  then obtain pre post where es: "es = pre @ new @ post" and t: "target = length (log_bytes Z c (pre @ new))"
    by (auto simp: placed_def)
  have "target \<le> n" using p n by simp
  then obtain rest where r: "take n (log_bytes Z c es @ junk) = log_bytes Z c (pre @ new) @ rest"
    unfolding es t by (simp add: log_bytes_append take_append)
  have small: "\<forall>e \<in> set (pre @ new). int (length (Body e)) \<le> MaxBlockBytes"
    using inv by (auto simp: commit_inv_def writer_ok_def bodies_small_def es)
  show ?thesis
    unfolding r using file_reads_back [OF Z small, of c rest]
    by (cases "ReadEntriesFrom Z rest") (auto simp: ReadEntries_def log_bytes_def)
qed

section \<open>Progress\<close>

lemma one_step: "(P :: 'a \<Rightarrow> 'a \<Rightarrow> bool) a b \<Longrightarrow> R b \<Longrightarrow> \<exists>k \<le> Suc n. \<exists>b. (P ^^ k) a b \<and> R b"
  by (intro exI [of _ "Suc 0"] exI [of _ b] conjI relpowp_Suc_I2 [of P a b] relpowp_0_I) simp_all

lemma more_steps: "(P :: 'a \<Rightarrow> 'a \<Rightarrow> bool) a b \<Longrightarrow> \<exists>k \<le> n. \<exists>d. (P ^^ k) b d \<and> R d \<Longrightarrow> \<exists>k \<le> Suc n. \<exists>d. (P ^^ k) a d \<and> R d"
  by (meson Suc_le_mono relpowp_Suc_I2)

lemma free_returns:
  assumes "syncing s = None" "waiting s t = Some (target, new)"
  shows "\<exists>k \<le> Suc (Suc 0). \<exists>s'. (commit_step Z c ^^ k) s s' \<and> (acked s' t = Some (target, new) \<and> gds s' = gds s)"
proof (cases "sync_needed target (gw s)")
  case False
  show ?thesis by (rule one_step [where P = "commit_step Z c", OF commit_step.covered [OF assms(2,1) False]]) simp
next
  case True
  let ?s = "s\<lparr>syncing := Some (t, writtenBytes (gw s))\<rparr>"
  have w: "syncing ?s = Some (t, writtenBytes (gw s))" "waiting ?s t = Some (target, new)" using assms by simp_all
  show ?thesis
    by (rule more_steps [where P = "commit_step Z c", OF commit_step.sync_begin [OF assms(2,1) True]],
        rule one_step [where P = "commit_step Z c", OF commit_step.sync_end [OF w]]) simp
qed

lemma waiting_steps:
  assumes "commit_start Z c s0" and "(commit_step Z c)\<^sup>*\<^sup>* s0 s" and "waiting s t = Some b"
  shows "\<exists>k \<le> 3. \<exists>s'. (commit_step Z c ^^ k) s s' \<and> (acked s' t = Some b \<and> gds s' = gds s)"
proof -
  obtain target new where b: "b = (target, new)" by fastforce
  obtain es junk where inv: "commit_inv Z c es junk s" using commit_reach_inv [OF assms(2,1)] by blast
  have three: "(3 :: nat) = Suc (Suc (Suc 0))" by simp
  show ?thesis
  proof (cases "syncing s")
    case None
    show ?thesis using free_returns [OF None assms(3) [unfolded b], of Z c] unfolding b three by (meson le_SucI)
  next
    case (Some p)
    obtain t' n where p: "p = (t', n)" by fastforce
    obtain target' new' where w: "waiting s t' = Some (target', new')" using inv Some unfolding commit_inv_def p by (metis surj_pair)
    let ?s = "s\<lparr>gw := sync_done n (gw s), ondisk := max (ondisk s) n, syncing := None,
      waiting := (waiting s)(t' := None), acked := (acked s)(t' \<mapsto> (target', new'))\<rparr>"
    have one: "commit_step Z c s ?s" by (rule commit_step.sync_end [OF Some [unfolded p] w])
    show ?thesis
    proof (cases "t' = t")
      case True
      then have "acked ?s t = Some b \<and> gds ?s = gds s" using w assms(3) by simp
      then show ?thesis unfolding three by (rule one_step [where P = "commit_step Z c", OF one])
    next
      case False
      then have "syncing ?s = None" "waiting ?s t = Some (target, new)" "gds ?s = gds s" using assms(3) b by simp_all
      from free_returns [OF this(1,2), of Z c] show ?thesis
        unfolding three b by (intro more_steps [where P = "commit_step Z c", OF one]) (simp only: \<open>gds ?s = gds s\<close>)
    qed
  qed
qed

lemma waiting_returns:
  assumes "commit_start Z c s0" "(commit_step Z c)\<^sup>*\<^sup>* s0 s" "waiting s t = Some b"
  shows "\<exists>s'. (commit_step Z c)\<^sup>*\<^sup>* s s' \<and> acked s' t = Some b"
  using waiting_steps [OF assms] by (meson relpowp_imp_rtranclp)

section \<open>An example run\<close>

text \<open>A run with one append, used as an example: the batch is written, then synced by its own appender.\<close>

definition idle_commit :: commit where
  "idle_commit = \<lparr>gw = no_writer NewRingBuffer, gds = at_file 0 ActiveWal (Some (Bytes [])) (\<lambda>_ _. None), ondisk = 0, syncing = None,
     failing = None, waiting = (\<lambda>_. None), acked = (\<lambda>_. None)\<rparr>"

lemma idle_commit_start: "commit_start Z c idle_commit"
  by (auto simp: commit_start_def idle_commit_def writer_ok_def no_writer_def log_bytes_def ids_from_def bodies_small_def intro!: exI [of _ "[]"])

lemma idle_commit_waits:
  "\<exists>s. (commit_step Z c)\<^sup>*\<^sup>* idle_commit s \<and> waiting s 0 = Some (length (log_bytes Z c (assign_ids 0 0 0 [zero_entry])), assign_ids 0 0 0 [zero_entry])"
proof -
  let ?x = "\<lparr>on_write = Written, truncates = True, syncs = True\<rparr>"
  have ok: "writer_ok Z c [] (gw idle_commit, gds idle_commit)"
    by (simp add: idle_commit_def writer_ok_def no_writer_def log_bytes_def ids_from_def bodies_small_def)
  have small: "bodies_small [zero_entry]" by (simp add: bodies_small_def zero_entry_def MaxBlockBytes_def)
  have new: "assign_ids 0 0 0 [zero_entry] = assign_ids (segmentHour (gw idle_commit)) (word_of_int (UnixMilli 0)) (length []) [zero_entry]"
    by (simp add: idle_commit_def no_writer_def UnixMilli_def)
  obtain r w ds where a: "append_locked Z c ?x 0 [zero_entry] (gw idle_commit, gds idle_commit) = (r, w, ds)"
    by (cases "append_locked Z c ?x 0 [zero_entry] (gw idle_commit, gds idle_commit)") auto
  have room: "length [] + length [zero_entry] \<le> MaxEntriesPerSegment" by (simp add: id_consts)
  have t: "truncates ?x" and p: "on_write ?x = Written" by simp_all
  note l = append_locked_ok [OF ok t small new a, unfolded if_P [OF conjI [OF room p]]]
  obtain out where r: "r = Inr (out, writtenBytes w)" and w: "writer_ok Z c ([] @ assign_ids 0 0 0 [zero_entry]) (w, ds)" using l by blast
  have f: "failing idle_commit = None" "waiting idle_commit 0 = None" "acked idle_commit 0 = None" by (simp_all add: idle_commit_def)
  from commit_step.write_all [OF f _ small a [unfolded r]] have
    "commit_step Z c idle_commit (idle_commit\<lparr>gw := w, gds := ds, waiting := (waiting idle_commit)(0 \<mapsto> (writtenBytes w, batch_of 0 [zero_entry] idle_commit))\<rparr>)"
    by (simp del: assign_ids.simps)
  moreover have "batch_of 0 [zero_entry] idle_commit = assign_ids 0 0 0 [zero_entry]" by (simp add: batch_of_def idle_commit_def no_writer_def UnixMilli_def)
  moreover have "writtenBytes w = length (log_bytes Z c (assign_ids 0 0 0 [zero_entry]))" using w unfolding writer_ok_def by (simp del: assign_ids.simps)
  ultimately show ?thesis by (auto simp del: assign_ids.simps)
qed

section \<open>Properties\<close>





end
