(* ===== verification/Store.thy ===== *)
theory Store
  imports Writer Search
begin

text \<open>
  The store, \<open>internal/logstore/engine/store.go\<close> and the views of \<open>query.go\<close>: the writer, the loaded segments and the
  rotated logs whose seal has not completed. A rotated log is identified by its hour. The listing of the data directory
  is an argument of a start; the calendar names of directories are a parameter.
\<close>

section \<open>State\<close>

record store_cfg =
  cz :: zstd
  cu :: unicode
  SealChunkEntries :: int
  CompressBodies :: bool
  segDirPath :: "int \<Rightarrow> string"
  segDirName :: "int \<Rightarrow> string"
  chunkFiles :: nat

record Store =
  sdirs :: datadir
  writer :: WALWriter
  loaded :: segments
  pendingSeals :: "int list"
  swalCache :: walCache

definition walPath :: "store_cfg \<Rightarrow> int \<Rightarrow> string" where
  "walPath C hour = Join (segDirPath C hour) ''active.wal''"

definition sealingPath :: "store_cfg \<Rightarrow> int \<Rightarrow> string" where
  "sealingPath C hour = Join (segDirPath C hour) (''sealing_'' @ segDirName C hour @ ''.wal'')"

section \<open>Opening\<close>

definition NewSegmentManager :: "store_cfg \<Rightarrow> go_time \<Rightarrow> int list \<Rightarrow> datadir \<Rightarrow> segments \<times> datadir" where
  "NewSegmentManager C now listing ds =
     (case scan_segments (cz C) (cu C) (SealChunkEntries C) (chunkFiles C) (segDirPath C) now (map (\<lambda>h. (h, ds h)) listing) of
        (dirs, segs) \<Rightarrow> (segs, fold (\<lambda>(h, d) ds. ds(h := d)) dirs ds))"

text \<open>\<open>listing\<close> gives the hours of the directories found in the data directory; the writer's own directory exists by then.\<close>

definition NewStore :: "store_cfg \<Rightarrow> go_time \<Rightarrow> (datadir \<Rightarrow> int list) \<Rightarrow> datadir \<Rightarrow> Store res" where
  "NewStore C now listing ds =
     rbind (wrapf ''init WAL writer'' [] (NewWALWriter (cz C) now NewRingBuffer ds)) (\<lambda>(w, ds).
       case NewSegmentManager C now (listing ds) ds of
         (segs, ds) \<Rightarrow> Inr \<lparr>sdirs = ds, writer = w, loaded = segs, pendingSeals = [], swalCache = newWALCache\<rparr>)"

definition Store_Close :: "io \<Rightarrow> Store \<Rightarrow> Store" where
  "Store_Close x st = st\<lparr>swalCache := close_cache (swalCache st), writer := WALWriter_Close x (writer st)\<rparr>"

section \<open>Sealing\<close>

definition sealPending :: "store_cfg \<Rightarrow> int \<Rightarrow> Store \<Rightarrow> unit res \<times> Store" where
  "sealPending C hour st =
     (case Seal (cz C) (cu C) (SealChunkEntries C) hour (sdirs st hour) of
        (ops, r) \<Rightarrow>
          let st = st\<lparr>sdirs := (sdirs st)(hour := do_ops ops (sdirs st hour))\<rparr>
          in case r of
               Inl e \<Rightarrow> (Inl (Wrapf ''seal'' [] e), st)
             | Inr m \<Rightarrow>
                 (Inr (), st\<lparr>loaded := (case m of Some m \<Rightarrow> Register (segDirPath C) hour m (loaded st) | None \<Rightarrow> loaded st),
                     pendingSeals := removeAll hour (pendingSeals st), swalCache := forget (sealingPath C hour) (swalCache st)\<rparr>))"

definition retryPendingSeals :: "store_cfg \<Rightarrow> Store \<Rightarrow> Store" where
  "retryPendingSeals C st = fold (\<lambda>hour st. snd (sealPending C hour st)) (pendingSeals st) st"

text \<open>The rotated file is published to queries before it is sealed.\<close>

definition publish :: "int \<Rightarrow> Store \<Rightarrow> Store" where
  "publish hour st = st\<lparr>pendingSeals := hour # removeAll hour (pendingSeals st)\<rparr>"

definition rotate_writer :: "store_cfg \<Rightarrow> io \<Rightarrow> go_time \<Rightarrow> Store \<Rightarrow> (int \<times> nat) res \<times> Store" where
  "rotate_writer C x now st =
     (case Rotate (cz C) x now (writer st, sdirs st) of (r, w, ds) \<Rightarrow> (r, st\<lparr>writer := w, sdirs := ds\<rparr>))"

definition SealCurrentHour :: "store_cfg \<Rightarrow> io \<Rightarrow> go_time \<Rightarrow> Store \<Rightarrow> unit res \<times> Store" where
  "SealCurrentHour C x now st =
     (case rotate_writer C x now (retryPendingSeals C st) of
        (Inl e, st) \<Rightarrow> (Inl (Wrapf ''rotate WAL'' [] e), st)
      | (Inr (sealHour, cnt), st) \<Rightarrow>
          if cnt = 0 then (Inr (), st) else sealPending C sealHour (publish sealHour st))"

section \<open>Ingest\<close>

definition append_store :: "store_cfg \<Rightarrow> io \<Rightarrow> go_time \<Rightarrow> Entry list \<Rightarrow> Store \<Rightarrow> Entry list res \<times> Store" where
  "append_store C x now entries st =
     (case Append (cz C) (CompressBodies C) x now entries (writer st, sdirs st) of
        (r, w, ds) \<Rightarrow> (r, st\<lparr>writer := w, sdirs := ds\<rparr>))"

text \<open>\<open>Ingest\<close> from the processed batch on; the clock is read again by every call (\<open>now k\<close>), and so is the file system.\<close>

definition ingest_processed :: "store_cfg \<Rightarrow> (nat \<Rightarrow> io) \<Rightarrow> (nat \<Rightarrow> go_time) \<Rightarrow> Entry list \<Rightarrow> Store \<Rightarrow> Entry list res \<times> Store" where
  "ingest_processed C x now processed st =
     (if processed = [] then (Inr [], st)
      else case append_store C (x 0) (now 0) processed st of
             (r, st) \<Rightarrow>
               if r \<noteq> Inl ErrSegmentFull then (r, st)
               else (case SealCurrentHour C (x 1) (now 1) st of
                       (Inl e, st) \<Rightarrow> (Inl (Wrapf ''seal full segment'' [] e), st)
                     | (Inr _, st) \<Rightarrow> append_store C (x 2) (now 2) processed st))"

definition Store_Prune :: "(nat \<Rightarrow> go_time) \<Rightarrow> int \<Rightarrow> (string \<Rightarrow> bool) \<Rightarrow> Store \<Rightarrow> nat \<times> Store" where
  "Store_Prune now retention RemoveAll st =
     (case Prune now retention RemoveAll (loaded st) of
        (deleted, remaining) \<Rightarrow>
          (deleted, st\<lparr>loaded := remaining,
             sdirs := (\<lambda>h. if h \<in> Hour ` set (loaded st) - Hour ` set remaining then (\<lambda>_. None) else sdirs st h)\<rparr>))"

section \<open>Views\<close>

definition walPathsLocked :: "store_cfg \<Rightarrow> Store \<Rightarrow> string list" where
  "walPathsLocked C st = walPath C (segmentHour (writer st)) # map (sealingPath C) (pendingSeals st)"

definition queryView :: "store_cfg \<Rightarrow> Store \<Rightarrow> go_time \<Rightarrow> go_time \<Rightarrow> segments \<times> string list" where
  "queryView C st start end' = (SegmentsInRange start end' (loaded st), walPathsLocked C st)"

text \<open>The entries a view holds: those of the chunk files of its segments and of the logs at its paths.\<close>

definition live_logs :: "Store \<Rightarrow> (int \<times> segfile) list" where
  "live_logs st = (segmentHour (writer st), ActiveWal) # map (\<lambda>h. (h, SealingWal)) (pendingSeals st)"

definition log_entries :: "zstd \<Rightarrow> datadir \<Rightarrow> int \<times> segfile \<Rightarrow> Entry list" where
  "log_entries Z ds = (\<lambda>(h, f). case ds h f of Some (Bytes b) \<Rightarrow> fst (ReadEntries Z b) | _ \<Rightarrow> [])"

end
