(* ===== verification/Store_Log.thy ===== *)
theory Store_Log
  imports Store Lookup
begin

text \<open>
  The store as an append-only list. Over opens, ingests, seals and restarts with a clock that does not run backwards, the
  complete segments on disk, in the order of their hours, followed by the live log hold exactly the entries that were
  written, in the order they were written in.
\<close>

section \<open>Steps of a run\<close>

lemma ReadEntries_Nil: "ReadEntriesFrom Z [] = ([], 0, None)"
  by (simp add: ReadEntriesFrom_def NewScanner_def loop_None [of Z _ "at [] 0"] Next_def ReadFull_def)

lemma log_reads:
  assumes "zstd_lib Z" "bodies_small raw"
  shows "ReadEntriesFrom Z (log_bytes Z c raw) = (map (wal_normal Z c) raw, length (log_bytes Z c raw), None)"
  using file_reads_back [OF assms(1) assms(2) [unfolded bodies_small_def], of c "[]"] by (simp add: ReadEntries_Nil log_bytes_def)

lemma log_reads': "zstd_lib Z \<Longrightarrow> bodies_small raw \<Longrightarrow> ReadEntries Z (log_bytes Z c raw) = (map (wal_normal Z c) raw, None)"
  by (simp add: ReadEntries_def log_reads)

lemma scan_log:
  assumes "zstd_lib Z" "bodies_small raw"
  shows "scanWAL Z (log_bytes Z c raw) = (length raw, length (log_bytes Z c raw), None)"
  using scanWAL_read [OF log_reads [OF assms, of c]] by simp

text \<open>Sealing a rotated log.\<close>

lemma ops_keep:
  assumes "\<forall>i. f \<noteq> ColFile i \<and> f \<noteq> IdxFile i" "f \<noteq> MetaFile" "f \<noteq> MarkerFile"
  shows "do_ops (ops_from Z U 0 bs @ [Put MetaFile m, SyncDir, Put MarkerFile k, SyncDir, Remove SealingWal]) d f = (if f = SealingWal then None else d f)"
  using assms ops_from_other [of f] by simp

lemma seal_log:
  assumes Z: "zstd_lib Z" and small: "bodies_small raw" and ne: "raw \<noteq> []"
    and d: "d MarkerFile = None" "d SealingWal = Some (Bytes (log_bytes Z c raw))"
  obtains ops where "Seal Z U S h d = (ops, Inr (Some (sealed_meta S h (map (wal_normal Z c) raw))))"
    "sealed Z U S h (map (wal_normal Z c) raw) (do_ops ops d)" "do_ops ops d SealingWal = None" "do_ops ops d ActiveWal = d ActiveWal"
proof -
  let ?es = "map (wal_normal Z c) raw"
  let ?ops = "ops_from Z U 0 (batches (effectiveSealChunkEntries S) 0 ?es) @
    [Put MetaFile (MetaJSON (sealed_meta S h ?es)), SyncDir, Put MarkerFile marker, SyncDir, Remove SealingWal]"
  have nc: "\<not> IsSealComplete d" using d(1) by (simp add: IsSealComplete_def)
  have "Seal Z U S h d = (?ops, Inr (Some (sealed_meta S h ?es)))"
    using Seal_spec [OF nc d(2) log_reads' [OF Z small], of U S h] ne by simp
  moreover have "sealed Z U S h ?es (do_ops ?ops d)"
    using chunks_and_meta_seals [of Z U S h ?es d] by (simp add: chunks_and_meta_def sealed_def Let_def)
  moreover have "do_ops ?ops d SealingWal = None" "do_ops ?ops d ActiveWal = d ActiveWal"
    using ops_keep [of SealingWal Z U _ "MetaJSON (sealed_meta S h ?es)" marker d] ops_keep [of ActiveWal Z U _ "MetaJSON (sealed_meta S h ?es)" marker d] by simp_all
  ultimately show thesis by (rule that)
qed

lemma seal_empty_log:
  assumes "zstd_lib Z" "d MarkerFile = None" "d SealingWal = Some (Bytes [])"
  shows "Seal Z U S h d = ([Remove SealingWal], Inr None)"
  using Seal_spec [of d "[]" Z "[]" None U S h] assms by (simp add: IsSealComplete_def ReadEntries_def ReadEntries_Nil)

text \<open>Opening a log.\<close>

lemma ensure_fresh:
  assumes "ds hour ActiveWal = None"
  shows "ensureWAL Z hour (w, ds) = (setSyncOffsets 0 (w\<lparr>entryCount := 0, validBytes := 0, fileSize := 0\<rparr>)\<lparr>segmentHour := hour\<rparr>,
      at_file hour ActiveWal (Some (Bytes [])) ds)"
    and "writer_ok Z c [] (ensureWAL Z hour (w, ds))" and "segmentHour (fst (ensureWAL Z hour (w, ds))) = hour"
    and "snd (ensureWAL Z hour (w, ds)) = at_file hour ActiveWal (Some (Bytes [])) ds"
  using assms by (simp_all add: ensureWAL_def writer_ok_def setSyncOffsets_def log_bytes_def ids_from_def bodies_small_def)

lemma ensure_existing:
  assumes Z: "zstd_lib Z" and ds: "ds hour ActiveWal = Some (Bytes (log_bytes Z c raw))" and raw: "bodies_small raw" "ids_from hour 0 raw" "length raw \<le> MaxEntriesPerSegment"
  shows "writer_ok Z c raw (ensureWAL Z hour (w, ds))" "segmentHour (fst (ensureWAL Z hour (w, ds))) = hour" "snd (ensureWAL Z hour (w, ds)) = ds"
proof -
  have "at_file hour ActiveWal (Some (Bytes (log_bytes Z c raw))) ds = ds" using ds by (simp add: at_file_def fun_upd_idem)
  then show "writer_ok Z c raw (ensureWAL Z hour (w, ds))" "segmentHour (fst (ensureWAL Z hour (w, ds))) = hour" "snd (ensureWAL Z hour (w, ds)) = ds"
    using ds raw by (simp_all add: ensureWAL_def writer_ok_def setSyncOffsets_def scan_log [OF Z raw(1)])
qed

lemma probe_first: "\<not> IsSealComplete (ds hour) \<Longrightarrow> 0 < n \<Longrightarrow> probe_hours ds n hour = Some hour"
  by (cases n) simp_all

lemma probe_skip:
  "\<forall>k. hour \<le> k \<and> k < hour + int j \<longrightarrow> IsSealComplete (ds k) \<Longrightarrow> \<not> IsSealComplete (ds (hour + int j)) \<Longrightarrow> j < n \<Longrightarrow>
   probe_hours ds n hour = Some (hour + int j)"
proof (induction j arbitrary: hour n)
  case 0
  then show ?case by (simp add: probe_first)
next
  case (Suc j)
  obtain n' where n: "n = Suc n'" using Suc.prems by (cases n) auto
  have "probe_hours ds n' (hour + 1) = Some (hour + 1 + int j)" using Suc.prems n by (intro Suc.IH) (auto simp: algebra_simps)
  moreover have "IsSealComplete (ds hour)" using Suc.prems(1) by simp
  ultimately show ?case by (simp add: n algebra_simps)
qed

lemma freeSegmentHour_ok:
  assumes "\<forall>k. start \<le> k \<and> k < hour \<longrightarrow> IsSealComplete (ds k)" "\<not> IsSealComplete (ds hour)" "start \<le> hour" "hour < start + int maxSealedHourProbe"
  shows "freeSegmentHour ds start = Inr hour"
  using probe_skip [of start "nat (hour - start)" ds maxSealedHourProbe] assms by (simp add: freeSegmentHour_def nat_less_iff)

lemma freeSegmentHour_first: "\<not> IsSealComplete (ds start) \<Longrightarrow> freeSegmentHour ds start = Inr start"
  by (intro freeSegmentHour_ok) (auto simp: maxSealedHourProbe_def)

section \<open>Invariant\<close>

text \<open>
  The hours sealed so far with the entries written to them, and the entries of the live log. All other directories are
  empty, and every hour from the clock's up to the writer's has been sealed.
\<close>

definition stored :: "store_cfg \<Rightarrow> Entry list \<Rightarrow> Entry list" where
  "stored C raw = map (wal_normal (cz C) (CompressBodies C)) raw"

definition seg_of :: "store_cfg \<Rightarrow> int \<times> Entry list \<Rightarrow> LoadedSegment" where
  "seg_of C = (\<lambda>(h, raw). \<lparr>Hour = h, DirPath = segDirPath C h, Meta = sealed_meta (SealChunkEntries C) h (stored C raw)\<rparr>)"

definition hour_ok :: "store_cfg \<Rightarrow> datadir \<Rightarrow> int \<times> Entry list \<Rightarrow> bool" where
  "hour_ok C ds = (\<lambda>(h, raw). 0 < h \<and> raw \<noteq> [] \<and> ids_from h 0 raw \<and> length raw \<le> MaxEntriesPerSegment \<and>
     sealed (cz C) (cu C) (SealChunkEntries C) h (stored C raw) (ds h))"

definition only_log :: "bytes \<Rightarrow> segdir" where
  "only_log b = (\<lambda>_. None)(ActiveWal \<mapsto> Bytes b)"

definition store_inv :: "store_cfg \<Rightarrow> (int \<times> Entry list) list \<Rightarrow> Entry list \<Rightarrow> go_time \<Rightarrow> Store \<Rightarrow> bool" where
  "store_inv C hs raw t st \<longleftrightarrow>
     loaded st = map (seg_of C) hs \<and> pendingSeals st = [] \<and> 0 < segmentHour (writer st) \<and>
     sorted_wrt (<) (map fst hs) \<and> (\<forall>x \<in> set hs. fst x < segmentHour (writer st)) \<and> (\<forall>x \<in> set hs. hour_ok C (sdirs st) x) \<and>
     (\<forall>h. h \<notin> fst ` set hs \<and> h \<noteq> segmentHour (writer st) \<longrightarrow> sdirs st h = (\<lambda>_. None)) \<and>
     sdirs st (segmentHour (writer st)) = only_log (log_bytes (cz C) (CompressBodies C) raw) \<and>
     writer_ok (cz C) (CompressBodies C) raw (writer st, sdirs st) \<and>
     (\<forall>k. SegmentHourFromTime t \<le> k \<and> k < segmentHour (writer st) \<longrightarrow> k \<in> fst ` set hs)"

lemma store_invD:
  assumes "store_inv C hs raw t st"
  shows "loaded st = map (seg_of C) hs" "pendingSeals st = []" "0 < segmentHour (writer st)"
    "sorted_wrt (<) (map fst hs)" "\<And>x. x \<in> set hs \<Longrightarrow> fst x < segmentHour (writer st)" "\<And>x. x \<in> set hs \<Longrightarrow> hour_ok C (sdirs st) x"
    "\<And>h. h \<notin> fst ` set hs \<Longrightarrow> h \<noteq> segmentHour (writer st) \<Longrightarrow> sdirs st h = (\<lambda>_. None)"
    "sdirs st (segmentHour (writer st)) = only_log (log_bytes (cz C) (CompressBodies C) raw)"
    "writer_ok (cz C) (CompressBodies C) raw (writer st, sdirs st)"
    "\<And>k. SegmentHourFromTime t \<le> k \<Longrightarrow> k < segmentHour (writer st) \<Longrightarrow> k \<in> fst ` set hs"
  using assms unfolding store_inv_def by blast+

lemma store_inv_unsealed: "store_inv C hs raw t st \<Longrightarrow> segmentHour (writer st) \<le> h \<Longrightarrow> \<not> IsSealComplete (sdirs st h)"
  using store_invD(5) [of C hs raw t st] store_invD(7,8) [of C hs raw t st]
  by (cases "h = segmentHour (writer st)") (force simp: IsSealComplete_def only_log_def)+

lemma store_inv_finite: "store_inv C hs raw t st \<Longrightarrow> finite {k. sdirs st k \<noteq> (\<lambda>_. None)}"
  by (rule finite_subset [of _ "insert (segmentHour (writer st)) (fst ` set hs)"]) (auto dest: store_invD(7))

lemma store_inv_time: "store_inv C hs raw t st \<Longrightarrow> SegmentHourFromTime t \<le> SegmentHourFromTime now \<Longrightarrow> store_inv C hs raw now st"
  by (simp add: store_inv_def)

lemma sdiv_mono: "t \<le> now \<Longrightarrow> SegmentHourFromTime t \<le> SegmentHourFromTime now"
proof -
  assume "t \<le> now"
  then have u: "Unix t \<le> Unix now" by (simp add: Unix_def zdiv_mono1)
  have "a sdiv 3600 \<le> b sdiv 3600" if "a \<le> b" for a b :: int
  proof -
    have "(- b) div 3600 \<le> (- a) div 3600" "a div 3600 \<le> b div 3600" using that by (simp_all add: zdiv_mono1)
    moreover have "0 \<le> b div 3600" if "0 \<le> b" using that by (simp add: pos_imp_zdiv_nonneg_iff)
    moreover have "0 \<le> (- a) div 3600" if "a \<le> 0" using that by (simp add: pos_imp_zdiv_nonneg_iff)
    ultimately show ?thesis using that by (auto simp: signed_divide_int_def sgn_if)
  qed
  then show ?thesis using u by (simp add: SegmentHourFromTime_def)
qed

section \<open>Appending\<close>

lemma append_store_inv:
  assumes inv: "store_inv C hs raw t st" and x: "truncates x" and small: "bodies_small entries" and ne: "entries \<noteq> []"
    and new: "new = assign_ids (segmentHour (writer st)) (word_of_int (UnixMilli now)) (length raw) entries"
    and a: "append_store C x now entries st = (r, st')"
  shows "store_inv C hs (if length raw + length entries \<le> MaxEntriesPerSegment \<and> on_write x = Written then raw @ new else raw) t st'"
    and "(\<exists>out. r = Inr out) \<longleftrightarrow> length raw + length entries \<le> MaxEntriesPerSegment \<and> on_write x = Written \<and> syncs x"
    and "r = Inl ErrSegmentFull \<longleftrightarrow> \<not> length raw + length entries \<le> MaxEntriesPerSegment"
    and "segmentHour (writer st') = segmentHour (writer st)"
proof -
  let ?Z = "cz C" and ?c = "CompressBodies C" and ?h = "segmentHour (writer st)"
  obtain w ds where ap: "Append ?Z ?c x now entries (writer st, sdirs st) = (r, w, ds)" and st': "st' = st\<lparr>writer := w, sdirs := ds\<rparr>"
    using a by (auto simp: append_store_def split: prod.splits)
  note inv = store_invD [OF inv]
  let ?raw = "if length raw + length entries \<le> MaxEntriesPerSegment \<and> on_write x = Written then raw @ new else raw"
  note ok = Append_ok [OF inv(9) x small ne new refl refl ap]
  have h: "segmentHour w = ?h" and fr: "\<And>h f. h \<noteq> ?h \<or> f \<noteq> ActiveWal \<Longrightarrow> ds h f = sdirs st h f"
    using Append_frame [OF ap] by (blast, blast)
  have other: "ds h' = sdirs st h'" if "h' \<noteq> ?h" for h' using fr that by blast
  have own: "ds ?h = only_log (log_bytes ?Z ?c ?raw)"
  proof
    fix f show "ds ?h f = only_log (log_bytes ?Z ?c ?raw) f"
      using ok h fr [of ?h f] inv(8) by (cases "f = ActiveWal") (simp_all add: writer_ok_def only_log_def)
  qed
  have "hour_ok C ds y" if "y \<in> set hs" for y
    using inv(5,6) [OF that] other [of "fst y"] by (auto simp: hour_ok_def split: prod.splits)
  then show "store_inv C hs ?raw t st'"
    unfolding store_inv_def st' using inv ok h own other by auto
  show "segmentHour (writer st') = ?h" by (simp add: st' h)
  show "(\<exists>out. r = Inr out) \<longleftrightarrow> length raw + length entries \<le> MaxEntriesPerSegment \<and> on_write x = Written \<and> syncs x" using ok by auto
  show "r = Inl ErrSegmentFull \<longleftrightarrow> \<not> length raw + length entries \<le> MaxEntriesPerSegment"
    using Append_full [OF inv(9) x small ne ap] .
qed

section \<open>Rotating and sealing\<close>

lemma Register_last:
  assumes "segments_ok segs" "\<And>s. s \<in> set segs \<Longrightarrow> Hour s < h"
  shows "Register dirPath h m segs = segs @ [\<lparr>Hour = h, DirPath = dirPath h, Meta = m\<rparr>]"
proof -
  let ?idx = "sort_Search (length segs) (\<lambda>i. h \<le> Hour (segs ! i))"
  note s = search_hour [OF assms(1) refl, where h = h]
  have "\<not> ?idx < length segs" using s(3) [of ?idx] assms(2) [of "segs ! ?idx"] by force
  then have "?idx = length segs" using s(1) by simp
  then show ?thesis by (simp add: Register_def Let_def)
qed

lemma seg_of_hour [simp]: "Hour (seg_of C x) = fst x"
  by (simp add: seg_of_def split: prod.split)

lemma segs_ok: "sorted_wrt (<) (map fst hs) \<Longrightarrow> segments_ok (map (seg_of C) hs)"
  by (simp add: segments_ok_def comp_def)

text \<open>A rotation leaves the log of the hour renamed, and an empty log for the next one.\<close>

lemma rotate_inv:
  assumes inv: "store_inv C hs raw t st" and ne: "raw \<noteq> []" and h: "h = segmentHour (writer st)"
    and nx: "nx = max (SegmentHourFromTime now) (h + 1)"
  obtains w ds where "Rotate (cz C) x now (writer st, sdirs st) = (Inr (h, length raw), w, ds)"
    "segmentHour w = nx" "writer_ok (cz C) (CompressBodies C) [] (w, ds)" "ds nx = only_log []"
    "ds h = (\<lambda>_. None)(SealingWal \<mapsto> Bytes (log_bytes (cz C) (CompressBodies C) raw))" "\<And>k. k \<noteq> h \<Longrightarrow> k \<noteq> nx \<Longrightarrow> ds k = sdirs st k"
proof -
  note i = store_invD [OF inv, folded h]
  have cnt: "entryCount (writer st) = length raw" using i(9) by (simp add: writer_ok_def)
  have nh: "nx \<noteq> h" "h \<le> nx" by (auto simp: nx)
  moreover have "nx \<notin> fst ` set hs" using i(5) nh(2) by (metis imageE not_less)
  ultimately have em: "sdirs st nx = (\<lambda>_. None)" using i(7) by blast
  have free: "freeSegmentHour (sdirs st) nx = Inr nx"
    using store_inv_unsealed [OF inv, of nx] nh h by (intro freeSegmentHour_first) simp
  let ?w = "flushBeforeHandoff x (writer st)" and ?ds = "(sdirs st)(h := do_op (Rename ActiveWal SealingWal) (sdirs st h))"
  have wh: "segmentHour ?w = h" using sync_ok(2) [OF i(9)] by (simp add: flushBeforeHandoff_def h)
  have rot: "rotate_to (cz C) x nx (writer st, sdirs st) = ensureWAL (cz C) nx (?w, ?ds)"
    using i(8) by (simp add: rotate_to_def wh Let_def only_log_def)
  have fresh: "?ds nx ActiveWal = None" using em nh by simp
  obtain w ds where e: "ensureWAL (cz C) nx (?w, ?ds) = (w, ds)" by fastforce
  have "Rotate (cz C) x now (writer st, sdirs st) = (Inr (h, length raw), rotate_to (cz C) x nx (writer st, sdirs st))"
  proof -
    have "(if SegmentHourFromTime now \<le> h then h + 1 else SegmentHourFromTime now) = nx" by (simp add: nx)
    moreover have "entryCount (writer st) \<noteq> 0" using ne cnt by simp
    ultimately show ?thesis using free unfolding Rotate_def Let_def prod.case h [symmetric] by (simp only: if_False sum.case cnt)
  qed
  note en = ensure_fresh(2) [where Z = "cz C" and hour = nx and ds = ?ds and w = ?w and c = "CompressBodies C", OF fresh, unfolded e]
      ensure_fresh(3,4) [where Z = "cz C" and hour = nx and ds = ?ds and w = ?w, OF fresh, unfolded e fst_conv snd_conv]
  show thesis
  proof (rule that)
    show "Rotate (cz C) x now (writer st, sdirs st) = (Inr (h, length raw), w, ds)" using \<open>Rotate _ x now _ = _\<close> rot e by simp
    show "segmentHour w = nx" "writer_ok (cz C) (CompressBodies C) [] (w, ds)" using en by blast+
    show "ds nx = only_log []" using en(3) em nh by (simp add: at_file_def only_log_def)
    show "ds h = (\<lambda>_. None)(SealingWal \<mapsto> Bytes (log_bytes (cz C) (CompressBodies C) raw))"
      using en(3) i(8) nh by (auto simp: at_file_def only_log_def)
    show "ds k = sdirs st k" if "k \<noteq> h" "k \<noteq> nx" for k using en(3) that by (simp add: at_file_def)
  qed
qed

lemma seal_current_inv:
  assumes Z: "zstd_lib (cz C)" and inv: "store_inv C hs raw t st" and now: "t \<le> now" and ne: "raw \<noteq> []"
    and s: "SealCurrentHour C x now st = (r, st')"
  shows "r = Inr () \<and> store_inv C (hs @ [(segmentHour (writer st), raw)]) [] now st'"
proof -
  define h where "h = segmentHour (writer st)"
  define nx where "nx = max (SegmentHourFromTime now) (h + 1)"
  note i = store_invD [OF inv, folded h_def]
  let ?d = "(\<lambda>_. None)(SealingWal \<mapsto> Bytes (log_bytes (cz C) (CompressBodies C) raw))"
  obtain w ds where rot: "Rotate (cz C) x now (writer st, sdirs st) = (Inr (h, length raw), w, ds)"
    and w: "segmentHour w = nx" "writer_ok (cz C) (CompressBodies C) [] (w, ds)" and d: "ds nx = only_log []" "ds h = ?d" "\<And>k. k \<noteq> h \<Longrightarrow> k \<noteq> nx \<Longrightarrow> ds k = sdirs st k"
    using rotate_inv [OF inv ne h_def nx_def] by blast
  have nh: "h < nx" by (simp add: nx_def)
  have small: "bodies_small raw" and ids: "ids_from h 0 raw" "length raw \<le> MaxEntriesPerSegment" using i(9) by (simp_all add: writer_ok_def h_def)
  obtain ops where sl: "Seal (cz C) (cu C) (SealChunkEntries C) h (ds h) = (ops, Inr (Some (sealed_meta (SealChunkEntries C) h (stored C raw))))"
    "sealed (cz C) (cu C) (SealChunkEntries C) h (stored C raw) (do_ops ops (ds h))"
    using seal_log [OF Z small ne, of "ds h" "CompressBodies C" "cu C" "SealChunkEntries C" h] d(2) by (auto simp: stored_def)
  let ?ds = "ds(h := do_ops ops (ds h))"
  have retry: "retryPendingSeals C st = st" using i(2) by (simp add: retryPendingSeals_def)
  have reg: "Register (segDirPath C) h (sealed_meta (SealChunkEntries C) h (stored C raw)) (map (seg_of C) hs) = map (seg_of C) (hs @ [(h, raw)])"
    using i(5) by (subst Register_last [OF segs_ok [OF i(4)]]) (auto simp: seg_of_def)
  have r: "r = Inr ()" and st': "loaded st' = map (seg_of C) (hs @ [(h, raw)])" "pendingSeals st' = []" "writer st' = w" "sdirs st' = ?ds"
    using s rot sl(1) ne i(1,2) reg
    by (auto simp: SealCurrentHour_def rotate_writer_def retry sealPending_def publish_def Let_def)
  have wok: "writer_ok (cz C) (CompressBodies C) [] (w, ?ds)" using w nh by (simp add: writer_ok_def)
  have old: "hour_ok C ?ds y" if "y \<in> set hs" for y
    using i(5,6) [OF that] d(3) [of "fst y"] nh by (auto simp: hour_ok_def split: prod.splits)
  have "hour_ok C ?ds (h, raw)" using sl(2) ids ne i(3) by (simp add: hour_ok_def)
  then have hours: "\<forall>y \<in> set (hs @ [(h, raw)]). hour_ok C ?ds y" using old by auto
  have gap: "k \<in> fst ` set (hs @ [(h, raw)])" if "SegmentHourFromTime now \<le> k" "k < nx" for k
  proof (cases "k = h")
    case False
    then have "k < h" using that by (auto simp: nx_def)
    then show ?thesis using i(10) [of k] sdiv_mono [OF now] that by simp
  qed simp
  have empty: "?ds k = (\<lambda>_. None)" if "k \<notin> fst ` set (hs @ [(h, raw)])" "k \<noteq> nx" for k using that i(7) d(3) by auto
  have less: "\<forall>y \<in> set (hs @ [(h, raw)]). fst y < nx" using i(5) nh by (auto dest: less_trans)
  have "store_inv C (hs @ [(h, raw)]) [] now st'"
    unfolding store_inv_def st' w(1)
    using hours gap empty wok less i(3,4,5) nh d(1) by (auto simp: sorted_wrt_append log_bytes_def)
  then show ?thesis using r by (simp add: h_def)
qed

lemma seal_idle_inv:
  assumes inv: "store_inv C hs [] t st" and now: "t \<le> now" and s: "SealCurrentHour C x now st = (r, st')"
  shows "r = Inr () \<and> store_inv C hs [] now st'"
proof -
  let ?h = "segmentHour (writer st)" and ?nx = "SegmentHourFromTime now"
  note i = store_invD [OF inv]
  have cnt: "entryCount (writer st) = 0" using i(9) by (simp add: writer_ok_def)
  have retry: "retryPendingSeals C st = st" using i(2) by (simp add: retryPendingSeals_def)
  show ?thesis
  proof (cases "?nx > ?h")
    case False
    then have "r = Inr ()" "st' = st" using s cnt by (auto simp: SealCurrentHour_def rotate_writer_def retry Rotate_def Let_def)
    then show ?thesis using store_inv_time [OF inv sdiv_mono [OF now]] by simp
  next
    case True
    let ?ds = "at_file ?h ActiveWal None (sdirs st)"
    have "?nx \<notin> fst ` set hs" using i(5) True by (metis imageE less_asym)
    then have em: "sdirs st ?nx = (\<lambda>_. None)" using i(7) [of ?nx] True by simp
    then have fresh: "?ds ?nx ActiveWal = None" using True by simp
    obtain w ds where e: "ensureWAL (cz C) ?nx (writer st, ?ds) = (w, ds)" by fastforce
    note en = ensure_fresh(2) [where Z = "cz C" and hour = ?nx and ds = ?ds and w = "writer st" and c = "CompressBodies C", OF fresh, unfolded e]
      ensure_fresh(3,4) [where Z = "cz C" and hour = ?nx and ds = ?ds and w = "writer st", OF fresh, unfolded e fst_conv snd_conv]
    have "advanceEmpty (cz C) ?nx (writer st, sdirs st) = (w, ds)" using i(8) e by (simp add: advanceEmpty_def only_log_def log_bytes_def Let_def)
    then have r: "r = Inr ()" and st': "st' = st\<lparr>writer := w, sdirs := ds\<rparr>"
      using s cnt True by (auto simp: SealCurrentHour_def rotate_writer_def retry Rotate_def Let_def)
    have d: "ds ?nx = only_log []" "ds ?h = (\<lambda>_. None)" "\<And>k. k \<noteq> ?h \<Longrightarrow> k \<noteq> ?nx \<Longrightarrow> ds k = sdirs st k"
      using en(3) em True i(8) by (auto simp: at_file_def only_log_def log_bytes_def)
    have "hour_ok C ds y" if "y \<in> set hs" for y using i(5,6) [OF that] d(3) [of "fst y"] True by (auto simp: hour_ok_def split: prod.splits)
    moreover have "ds k = (\<lambda>_. None)" if "k \<notin> fst ` set hs" "k \<noteq> ?nx" for k using that i(7) d by (cases "k = ?h") auto
    moreover have "\<forall>y \<in> set hs. fst y < ?nx" using i(5) True by (auto dest: less_trans)
    ultimately have "store_inv C hs [] now st'"
      unfolding store_inv_def st' using i(1-4) en(1,2) True d(1) by (auto simp: log_bytes_def)
    then show ?thesis using r by simp
  qed
qed

section \<open>Restarting\<close>

text \<open>What a scan does with a listing of distinct hours.\<close>

definition recovered :: "store_cfg \<Rightarrow> go_time \<Rightarrow> int \<Rightarrow> segdir \<Rightarrow> segdir" where
  "recovered C now h d = do_ops (recoverDir (cz C) (cu C) (SealChunkEntries C) (chunkFiles C) h (SegmentHourFromTime now) d) d"

lemma fold_dirs: "distinct (map fst dirs) \<Longrightarrow> fold (\<lambda>(h, d) ds. ds(h := d)) dirs ds k = (case map_of dirs k of Some d \<Rightarrow> d | None \<Rightarrow> ds k)"
proof (induction dirs arbitrary: ds)
  case (Cons x dirs)
  obtain h d where x: "x = (h, d)" by fastforce
  have "map_of dirs h = None" using Cons.prems by (auto simp: x map_of_eq_None_iff)
  then show ?case using Cons by (auto simp: x split: option.split)
qed simp

lemma map_filter_set: "set (List.map_filter snd (map f xs)) = {y. \<exists>x \<in> set xs. snd (f x) = Some y}"
  by (induction xs) (auto simp: map_filter_simps split: option.splits)

lemma manager_scan:
  assumes "distinct listing"
  shows "snd (NewSegmentManager C now listing ds) = (\<lambda>k. if k \<in> set listing then recovered C now k (ds k) else ds k)"
    and "segments_ok (fst (NewSegmentManager C now listing ds))"
    and "set (fst (NewSegmentManager C now listing ds)) =
      {\<lparr>Hour = k, DirPath = segDirPath C k, Meta = m\<rparr> |k m. k \<in> set listing \<and> IsSealComplete (recovered C now k (ds k)) \<and> recovered C now k (ds k) MetaFile = Some (MetaJSON m)}"
proof -
  let ?dirs = "map (\<lambda>h. (h, ds h)) listing" and ?scan = "scan_dir (cz C) (cu C) (SealChunkEntries C) (chunkFiles C) (segDirPath C) (SegmentHourFromTime now)"
  have s: "?scan (h, d) = ((h, recovered C now h d), if \<not> IsSealComplete (recovered C now h d) then None else
      case recovered C now h d MetaFile of Some (MetaJSON m) \<Rightarrow> Some \<lparr>Hour = h, DirPath = segDirPath C h, Meta = m\<rparr> | _ \<Rightarrow> None)" for h d
    by (simp add: scan_dir_def recovered_def Let_def)
  have e: "snd (?scan (h, d)) = Some seg \<longleftrightarrow> (\<exists>m. seg = \<lparr>Hour = h, DirPath = segDirPath C h, Meta = m\<rparr> \<and>
      IsSealComplete (recovered C now h d) \<and> recovered C now h d MetaFile = Some (MetaJSON m))" for h d seg
    unfolding s by (cases "recovered C now h d MetaFile"; cases "the (recovered C now h d MetaFile)") auto
  obtain dirs segs where r: "scan_segments (cz C) (cu C) (SealChunkEntries C) (chunkFiles C) (segDirPath C) now ?dirs = (dirs, segs)" by fastforce
  have dirs: "dirs = map (\<lambda>h. (h, recovered C now h (ds h))) listing" and segs: "segs = sort_key Hour (List.map_filter snd (map ?scan ?dirs))"
    using r by (auto simp: scan_segments_def Let_def s)
  have "map_of dirs k = (if k \<in> set listing then Some (recovered C now k (ds k)) else None)" for k
    unfolding dirs by (simp add: map_of_map_restrict)
  then show "snd (NewSegmentManager C now listing ds) = (\<lambda>k. if k \<in> set listing then recovered C now k (ds k) else ds k)"
    using assms by (auto simp: NewSegmentManager_def r fold_dirs dirs comp_def)
  have "distinct (map fst ?dirs)" using assms by (simp add: comp_def)
  from scan_segments_ok [OF this, of "cz C" "cu C" "SealChunkEntries C" "chunkFiles C" "segDirPath C" now]
  show "segments_ok (fst (NewSegmentManager C now listing ds))" by (simp add: NewSegmentManager_def r)
  have "set segs = {seg. \<exists>h \<in> set listing. snd (?scan (h, ds h)) = Some seg}"
    unfolding segs by (simp add: map_filter_set)
  also have "\<dots> = {\<lparr>Hour = k, DirPath = segDirPath C k, Meta = m\<rparr> |k m. k \<in> set listing \<and> IsSealComplete (recovered C now k (ds k)) \<and> recovered C now k (ds k) MetaFile = Some (MetaJSON m)}"
    unfolding e by auto
  finally show "set (fst (NewSegmentManager C now listing ds)) = \<dots>" by (simp add: NewSegmentManager_def r)
qed

lemma segs_unique:
  assumes "segments_ok xs" "segments_ok ys" "set xs = set ys"
  shows "xs = ys"
proof -
  have d: "distinct (map Hour xs)" "distinct (map Hour ys)" "sorted (map Hour xs)" "sorted (map Hour ys)"
    using assms(1,2) by (simp_all add: segments_ok_def strict_sorted_iff)
  then have "map Hour xs = map Hour ys" using assms(3) by (intro sorted_distinct_set_unique) simp_all
  moreover have "inj_on Hour (set xs \<union> set ys)" using d(1) assms(3) by (simp add: distinct_map)
  ultimately show ?thesis by (rule map_inj_on)
qed

text \<open>Complete segments, the directory of the live hour and empty directories are left alone.\<close>

lemma recovered_sealed: "sealed Z U S h es d \<Longrightarrow> recovered C now h d = d"
  by (simp add: recovered_def recoverDir_def sealed_def IsSealComplete_def Let_def)

lemma recovered_empty: "recovered C now h (\<lambda>_. None) = (\<lambda>_. None)"
  by (simp add: recovered_def recoverDir_def IsSealComplete_def)

lemma recovered_live: "SegmentHourFromTime now \<le> h \<Longrightarrow> recovered C now h (only_log b) = only_log b"
  by (simp add: recovered_def recoverDir_def IsSealComplete_def only_log_def)

lemma recovered_orphan:
  assumes "zstd_lib (cz C)" "bodies_small raw" "raw \<noteq> []" "0 < h" "h < SegmentHourFromTime now"
  shows "sealed (cz C) (cu C) (SealChunkEntries C) h (stored C raw) (recovered C now h (only_log (log_bytes (cz C) (CompressBodies C) raw)))"
proof -
  have u: "unsealed (log_bytes (cz C) (CompressBodies C) raw) (only_log (log_bytes (cz C) (CompressBodies C) raw))"
    by (simp add: unsealed_def only_log_def)
  show ?thesis
    using recover_completes [OF disjI1 [OF u] assms(4,5) log_reads' [OF assms(1,2), of "CompressBodies C"], of "cu C" "SealChunkEntries C" "chunkFiles C"] assms(3)
    by (simp add: recovered_def stored_def)
qed

lemma recovered_orphan_empty:
  assumes "zstd_lib (cz C)" "0 < h" "h < SegmentHourFromTime now"
  shows "recovered C now h (only_log []) = (\<lambda>_. None)"
proof -
  let ?d = "do_op (Rename ActiveWal SealingWal) (only_log [])"
  have "Seal (cz C) (cu C) (SealChunkEntries C) h ?d = ([Remove SealingWal], Inr None)"
    by (rule seal_empty_log [OF assms(1)]) (simp_all add: only_log_def)
  then show ?thesis using assms(2,3) by (simp add: recovered_def recoverDir_def IsSealComplete_def only_log_def fun_upd_twist fun_upd_idem)
qed

text \<open>The listing of a data directory has every directory that holds a file, once.\<close>

definition lists_dirs :: "(datadir \<Rightarrow> int list) \<Rightarrow> bool" where
  "lists_dirs listing \<longleftrightarrow> (\<forall>ds. finite {k. ds k \<noteq> (\<lambda>_. None)} \<longrightarrow> distinct (listing ds) \<and> {k. ds k \<noteq> (\<lambda>_. None)} \<subseteq> set (listing ds))"

lemma sealed_meta_file: "sealed Z U S h es d \<Longrightarrow> IsSealComplete d \<and> d MetaFile = Some (MetaJSON (sealed_meta S h es)) \<and> d \<noteq> (\<lambda>_. None)"
  by (auto simp: sealed_def IsSealComplete_def Let_def fun_eq_iff)

text \<open>A store opened on directories that hold complete segments and one log that is left alone.\<close>

lemma manager_loads:
  assumes l: "lists_dirs listing" "finite {k. ds k \<noteq> (\<lambda>_. None)}" and rec: "ds' = (\<lambda>k. if k \<in> set (listing ds) then recovered C now k (ds k) else ds k)"
    and hs: "sorted_wrt (<) (map fst hs)" "\<forall>x \<in> set hs. hour_ok C ds' x" "\<forall>x \<in> set hs. ds (fst x) \<noteq> (\<lambda>_. None)"
    and other: "\<And>k. k \<notin> fst ` set hs \<Longrightarrow> \<not> IsSealComplete (ds' k)"
  shows "NewSegmentManager C now (listing ds) ds = (map (seg_of C) hs, ds')"
proof -
  have d: "distinct (listing ds)" "\<And>k. ds k \<noteq> (\<lambda>_. None) \<Longrightarrow> k \<in> set (listing ds)" using l by (auto simp: lists_dirs_def)
  note m = manager_scan [OF d(1), of C now ds]
  have in_l: "k \<in> set (listing ds) \<Longrightarrow> recovered C now k (ds k) = ds' k" for k by (simp add: rec)
  have "set (fst (NewSegmentManager C now (listing ds) ds)) = set (map (seg_of C) hs)"
  proof (intro equalityI subsetI)
    fix s assume "s \<in> set (fst (NewSegmentManager C now (listing ds) ds))"
    then obtain k mt where k: "s = \<lparr>Hour = k, DirPath = segDirPath C k, Meta = mt\<rparr>" "IsSealComplete (ds' k)" "ds' k MetaFile = Some (MetaJSON mt)"
      unfolding m(3) using in_l by auto
    then obtain raw where "(k, raw) \<in> set hs" using other [of k] by force
    then show "s \<in> set (map (seg_of C) hs)" using hs(2) k sealed_meta_file by (fastforce simp: hour_ok_def seg_of_def image_iff)
  next
    fix s assume "s \<in> set (map (seg_of C) hs)"
    then obtain k raw where k: "(k, raw) \<in> set hs" "s = seg_of C (k, raw)" by auto
    then have "k \<in> set (listing ds)" using hs(3) d(2) by force
    moreover have "IsSealComplete (ds' k)" "ds' k MetaFile = Some (MetaJSON (sealed_meta (SealChunkEntries C) k (stored C raw)))"
      using hs(2) k(1) sealed_meta_file by (fastforce simp: hour_ok_def)+
    ultimately show "s \<in> set (fst (NewSegmentManager C now (listing ds) ds))" unfolding m(3) using k(2) in_l by (auto simp: seg_of_def)
  qed
  then have "fst (NewSegmentManager C now (listing ds) ds) = map (seg_of C) hs" by (intro segs_unique m(2) segs_ok hs(1))
  then show ?thesis using m(1) rec by (metis prod.collapse)
qed

lemma hour_sealed: "hour_ok C ds (h, raw) \<Longrightarrow> IsSealComplete (ds h) \<and> recovered C now h (ds h) = ds h \<and> ds h \<noteq> (\<lambda>_. None)"
  using recovered_sealed sealed_meta_file by (fastforce simp: hour_ok_def)

lemma NewStore_eq:
  assumes "freeSegmentHour ds (SegmentHourFromTime now) = Inr h" "ensureWAL (cz C) h (no_writer NewRingBuffer, ds) = (w, ds1)"
    "NewSegmentManager C now (listing ds1) ds1 = (segs, ds2)"
  shows "NewStore C now listing ds = Inr \<lparr>sdirs = ds2, writer = w, loaded = segs, pendingSeals = [], swalCache = newWALCache\<rparr>"
  using assms by (simp add: NewStore_def NewWALWriter_def)

lemma restart_same_hour:
  assumes Z: "zstd_lib (cz C)" and inv: "store_inv C hs raw t st" and now: "t \<le> now" and l: "lists_dirs listing"
    and le: "SegmentHourFromTime now \<le> segmentHour (writer st)" and drift: "segmentHour (writer st) < SegmentHourFromTime now + int maxSealedHourProbe"
  shows "\<exists>st'. NewStore C now listing (sdirs st) = Inr st' \<and> store_inv C hs raw now st'"
proof -
  let ?h = "segmentHour (writer st)" and ?ds = "sdirs st"
  note i = store_invD [OF inv]
  have sl: "IsSealComplete (?ds k)" if "SegmentHourFromTime now \<le> k" "k < ?h" for k
    using i(10) [of k] i(6) sdiv_mono [OF now] that hour_sealed [of C ?ds k _ now] by fastforce
  have free: "freeSegmentHour ?ds (SegmentHourFromTime now) = Inr ?h"
    using sl store_inv_unsealed [OF inv order_refl] le drift by (intro freeSegmentHour_ok) auto
  have raw: "bodies_small raw" "ids_from ?h 0 raw" "length raw \<le> MaxEntriesPerSegment" using i(9) by (simp_all add: writer_ok_def)
  have act: "?ds ?h ActiveWal = Some (Bytes (log_bytes (cz C) (CompressBodies C) raw))" by (simp add: i(8) only_log_def)
  obtain w ds1 where e: "ensureWAL (cz C) ?h (no_writer NewRingBuffer, ?ds) = (w, ds1)" by fastforce
  note en = ensure_existing(1) [where ds = ?ds and w = "no_writer NewRingBuffer", OF Z act raw, unfolded e]
    ensure_existing(2,3) [where ds = ?ds and w = "no_writer NewRingBuffer", OF Z act raw, unfolded e fst_conv snd_conv]
  have rec: "recovered C now k (?ds k) = ?ds k" for k
  proof (cases "k \<in> fst ` set hs")
    case True
    then show ?thesis using i(6) hour_sealed [of C ?ds k _ now] by fastforce
  next
    case False
    then show ?thesis using i(7,8) recovered_live [OF le] recovered_empty by (cases "k = ?h") simp_all
  qed
  have unsl: "\<not> IsSealComplete (?ds k)" if "k \<notin> fst ` set hs" for k
    using i(7) [OF that] i(8) by (cases "k = ?h") (simp_all add: IsSealComplete_def only_log_def)
  have "NewSegmentManager C now (listing ?ds) ?ds = (map (seg_of C) hs, ?ds)"
  proof (rule manager_loads [OF l store_inv_finite [OF inv] _ i(4)])
    show "?ds = (\<lambda>k. if k \<in> set (listing ?ds) then recovered C now k (?ds k) else ?ds k)" by (intro ext) (simp only: rec if_cancel)
    show "\<forall>x \<in> set hs. hour_ok C ?ds x" using i(6) by blast
    show "\<forall>x \<in> set hs. ?ds (fst x) \<noteq> (\<lambda>_. None)" using i(6) hour_sealed [of C ?ds] by (metis prod.collapse)
  qed (rule unsl)
  then have "NewStore C now listing ?ds = Inr \<lparr>sdirs = ?ds, writer = w, loaded = map (seg_of C) hs, pendingSeals = [], swalCache = newWALCache\<rparr>"
    using NewStore_eq [OF free e] en(3) by simp
  moreover have "store_inv C hs raw now \<lparr>sdirs = ?ds, writer = w, loaded = map (seg_of C) hs, pendingSeals = [], swalCache = newWALCache\<rparr>"
    using inv en sdiv_mono [OF now] unfolding store_inv_def by simp
  ultimately show ?thesis by blast
qed

lemma restart_later_hour:
  assumes Z: "zstd_lib (cz C)" and inv: "store_inv C hs raw t st" and now: "t \<le> now" and l: "lists_dirs listing"
    and less: "segmentHour (writer st) < SegmentHourFromTime now" and hs': "hs' = (if raw = [] then hs else hs @ [(segmentHour (writer st), raw)])"
  shows "\<exists>st'. NewStore C now listing (sdirs st) = Inr st' \<and> store_inv C hs' [] now st'"
proof -
  let ?h = "segmentHour (writer st)" and ?nx = "SegmentHourFromTime now"
  let ?log = "only_log (log_bytes (cz C) (CompressBodies C) raw)"
  note i = store_invD [OF inv]
  have free: "freeSegmentHour (sdirs st) ?nx = Inr ?nx"
    using store_inv_unsealed [OF inv, of ?nx] less by (intro freeSegmentHour_first) simp
  have nin: "?nx \<notin> fst ` set hs" "?h \<notin> fst ` set hs" using i(5) less by (metis imageE less_asym less_irrefl)+
  then have em: "sdirs st ?nx = (\<lambda>_. None)" using i(7) [of ?nx] less by simp
  obtain w ds where e: "ensureWAL (cz C) ?nx (no_writer NewRingBuffer, sdirs st) = (w, ds)" by fastforce
  have fresh: "sdirs st ?nx ActiveWal = None" using em by simp
  note en = ensure_fresh(2) [where Z = "cz C" and hour = ?nx and ds = "sdirs st" and w = "no_writer NewRingBuffer" and c = "CompressBodies C", OF fresh, unfolded e]
    ensure_fresh(3,4) [where Z = "cz C" and hour = ?nx and ds = "sdirs st" and w = "no_writer NewRingBuffer", OF fresh, unfolded e fst_conv snd_conv]
  have ds: "ds ?nx = only_log []" "\<And>k. k \<noteq> ?nx \<Longrightarrow> ds k = sdirs st k" using en(3) em by (auto simp: at_file_def only_log_def)
  define ds' where "ds' = (\<lambda>k. if k \<in> set (listing ds) then recovered C now k (ds k) else ds k)"
  have fin: "finite {k. ds k \<noteq> (\<lambda>_. None)}"
    by (rule finite_subset [of _ "insert ?nx {k. sdirs st k \<noteq> (\<lambda>_. None)}"]) (use ds(2) store_inv_finite [OF inv] in auto)
  have lst: "ds' k = recovered C now k (ds k)" for k
  proof (cases "ds k = (\<lambda>_. None)")
    case True
    then show ?thesis using recovered_empty [of C now k] by (simp add: ds'_def)
  next
    case False
    then have "k \<in> set (listing ds)" using l fin by (auto simp: lists_dirs_def)
    then show ?thesis by (simp add: ds'_def)
  qed
  have raw: "bodies_small raw" "ids_from ?h 0 raw" "length raw \<le> MaxEntriesPerSegment" using i(9) by (simp_all add: writer_ok_def)
  have own: "if raw = [] then ds' ?h = (\<lambda>_. None) else hour_ok C ds' (?h, raw)"
    using lst [of ?h] ds(2) [of ?h] i(3,8) less raw recovered_orphan [OF Z raw(1) _ i(3) less] recovered_orphan_empty [OF Z i(3) less]
    by (auto simp: hour_ok_def log_bytes_def)
  have old: "hour_ok C ds' x" "ds (fst x) \<noteq> (\<lambda>_. None)" if "x \<in> set hs" for x
  proof -
    obtain k rk where x: "x = (k, rk)" by fastforce
    have "k \<noteq> ?nx" using i(5) [OF that] less by (simp add: x)
    then have "ds k = sdirs st k" "ds' k = sdirs st k" using i(6) [OF that] hour_sealed [of C "sdirs st" k rk now] ds(2) lst by (simp_all add: x)
    then show "hour_ok C ds' x" "ds (fst x) \<noteq> (\<lambda>_. None)" using i(6) [OF that] hour_sealed [of C "sdirs st" k rk now] by (simp_all add: x hour_ok_def)
  qed
  have nx: "ds' ?nx = only_log []" using lst ds(1) recovered_live [OF order_refl, of C now] by simp
  have other: "ds' k = (\<lambda>_. None)" if "k \<notin> fst ` set hs" "k \<noteq> ?h" "k \<noteq> ?nx" for k
    using that i(7) ds(2) lst recovered_empty by simp
  have unsl: "\<not> IsSealComplete (ds' k)" if "k \<notin> fst ` set hs'" for k
    using that other [of k] nx own by (cases "k = ?h"; cases "k = ?nx") (auto simp: hs' IsSealComplete_def only_log_def split: if_splits)
  have hours: "\<forall>x \<in> set hs'. hour_ok C ds' x" "\<forall>x \<in> set hs'. ds (fst x) \<noteq> (\<lambda>_. None)" "sorted_wrt (<) (map fst hs')" "\<forall>x \<in> set hs'. fst x < ?nx"
    using old own i(4,5,8) ds(2) [of ?h] less
    by (auto simp: hs' sorted_wrt_append only_log_def dest: less_trans split: if_splits)
  have "NewSegmentManager C now (listing ds) ds = (map (seg_of C) hs', ds')"
    by (rule manager_loads [OF l fin ds'_def hours(3,1,2) unsl])
  then have "NewStore C now listing (sdirs st) = Inr \<lparr>sdirs = ds', writer = w, loaded = map (seg_of C) hs', pendingSeals = [], swalCache = newWALCache\<rparr>"
    by (rule NewStore_eq [OF free e])
  moreover have "store_inv C hs' [] now \<lparr>sdirs = ds', writer = w, loaded = map (seg_of C) hs', pendingSeals = [], swalCache = newWALCache\<rparr>"
  proof -
    have "writer_ok (cz C) (CompressBodies C) [] (w, ds')" using en(1,2) nx by (simp add: writer_ok_def only_log_def log_bytes_def)
    moreover have "ds' k = (\<lambda>_. None)" if "k \<notin> fst ` set hs'" "k \<noteq> ?nx" for k
      using that other [of k] own by (cases "k = ?h") (auto simp: hs' split: if_splits)
    ultimately show ?thesis
      unfolding store_inv_def using hours nx en(2) i(3) less by (auto simp: log_bytes_def)
  qed
  ultimately show ?thesis by blast
qed

lemma open_empty:
  assumes "0 < SegmentHourFromTime now" "lists_dirs listing"
  shows "\<exists>st. NewStore C now listing (\<lambda>_ _. None) = Inr st \<and> store_inv C [] [] now st"
proof -
  let ?h = "SegmentHourFromTime now" and ?e = "\<lambda>_ _. None :: content option"
  have free: "freeSegmentHour ?e ?h = Inr ?h" by (rule freeSegmentHour_first) (simp add: IsSealComplete_def)
  obtain w ds where e: "ensureWAL (cz C) ?h (no_writer NewRingBuffer, ?e) = (w, ds)" by fastforce
  have fresh: "?e ?h ActiveWal = None" by simp
  note en = ensure_fresh(2) [where Z = "cz C" and hour = ?h and ds = ?e and w = "no_writer NewRingBuffer" and c = "CompressBodies C", OF fresh, unfolded e]
    ensure_fresh(3,4) [where Z = "cz C" and hour = ?h and ds = ?e and w = "no_writer NewRingBuffer", OF fresh, unfolded e fst_conv snd_conv]
  have ds: "ds ?h = only_log []" "\<And>k. k \<noteq> ?h \<Longrightarrow> ds k = (\<lambda>_. None)" using en(3) by (auto simp: at_file_def only_log_def)
  have rec: "recovered C now k (ds k) = ds k" for k
    using ds recovered_live [OF order_refl, of C now] recovered_empty by (cases "k = ?h") simp_all
  have "NewSegmentManager C now (listing ds) ds = (map (seg_of C) [], ds)"
  proof (rule manager_loads [OF assms(2)])
    show "finite {k. ds k \<noteq> (\<lambda>_. None)}" by (rule finite_subset [of _ "{?h}"]) (use ds(2) in auto)
    show "ds = (\<lambda>k. if k \<in> set (listing ds) then recovered C now k (ds k) else ds k)" by (intro ext) (simp only: rec if_cancel)
    show "\<not> IsSealComplete (ds k)" for k using ds by (cases "k = ?h") (simp_all add: IsSealComplete_def only_log_def)
  qed simp_all
  note ns = NewStore_eq [where listing = listing, OF free e this]
  have "store_inv C [] [] now \<lparr>sdirs = ds, writer = w, loaded = map (seg_of C) [], pendingSeals = [], swalCache = newWALCache\<rparr>"
    using en ds assms(1) unfolding store_inv_def by (auto simp: log_bytes_def)
  then show ?thesis using ns by blast
qed

section \<open>Runs\<close>

text \<open>
  Runs of a store from an empty data directory. The batches ingested so far are recorded, each with whether \<open>Ingest\<close>
  returned it.
\<close>

inductive store_run :: "store_cfg \<Rightarrow> (datadir \<Rightarrow> int list) \<Rightarrow> (Entry list \<times> bool) list \<Rightarrow> go_time \<Rightarrow> Store \<Rightarrow> bool" for C listing where
  opened: "store_run C listing [] now st"
    if "0 < SegmentHourFromTime now" "NewStore C now listing (\<lambda>_ _. None) = Inr st"
| ingested: "store_run C listing (bs @ [(processed, \<exists>out. r = Inr out)]) (now 2) st'"
    if "store_run C listing bs t st" "t \<le> now 0" "now 0 \<le> now 1" "now 1 \<le> now 2" "\<forall>i. truncates (x i)"
      "processed \<noteq> []" "bodies_small processed" "ingest_processed C x now processed st = (r, st')"
| sealed_hour: "store_run C listing bs now st'"
    if "store_run C listing bs t st" "t \<le> now" "SealCurrentHour C x now st = (r, st')"
| restarted: "store_run C listing bs now st'"
    if "store_run C listing bs t st" "t \<le> now" "NewStore C now listing (sdirs st) = Inr st'"
      "segmentHour (writer st) < SegmentHourFromTime now + int maxSealedHourProbe"

text \<open>The entries of the sealed hours and of the live log, in order.\<close>

definition store_contents :: "store_cfg \<Rightarrow> (int \<times> Entry list) list \<Rightarrow> Entry list \<Rightarrow> Entry list" where
  "store_contents C hs raw = concat (map (\<lambda>(h, es). stored C es) hs) @ stored C raw"

text \<open>A batch as the log stores it, under the identifiers and the time the writer gave it.\<close>

definition written_as :: "store_cfg \<Rightarrow> Entry list \<Rightarrow> Entry list \<Rightarrow> bool" where
  "written_as C b w \<longleftrightarrow> (\<exists>h r k. w = stored C (assign_ids h r k b))"

definition write_outcome :: "store_cfg \<Rightarrow> Entry list \<times> bool \<Rightarrow> Entry list \<Rightarrow> bool" where
  "write_outcome C = (\<lambda>(b, ok) w. written_as C b w \<or> \<not> ok \<and> w = [])"

lemma stored_append [simp]: "stored C (xs @ ys) = stored C xs @ stored C ys"
  by (simp add: stored_def)

lemma contents_append: "store_contents C hs (raw @ new) = store_contents C hs raw @ stored C new"
  by (simp add: store_contents_def)

lemma contents_seal: "store_contents C (hs @ [(h, raw)]) [] = store_contents C hs raw" "store_contents C (if raw = [] then hs else hs @ [(h, raw)]) [] = store_contents C hs raw"
  by (simp_all add: store_contents_def stored_def)

lemma seal_any_inv:
  assumes "zstd_lib (cz C)" "store_inv C hs raw t st" "t \<le> now" "SealCurrentHour C x now st = (r, st')"
  shows "\<exists>hs'. r = Inr () \<and> store_inv C hs' [] now st' \<and> store_contents C hs' [] = store_contents C hs raw"
proof (cases "raw = []")
  case True
  then show ?thesis using seal_idle_inv [of C hs t st now x r st'] assms by auto
next
  case False
  then show ?thesis using seal_current_inv [OF assms(1,2,3) False assms(4)] contents_seal(1) by blast
qed

lemma append_outcome:
  assumes "store_inv C hs raw t st" "truncates x" "bodies_small b" "b \<noteq> []" "append_store C x now b st = (r, st')"
  shows "\<exists>raw' w. store_inv C hs raw' t st' \<and> store_contents C hs raw' = store_contents C hs raw @ w \<and> write_outcome C (b, \<exists>out. r = Inr out) w"
proof -
  let ?new = "assign_ids (segmentHour (writer st)) (word_of_int (UnixMilli now)) (length raw) b"
  let ?p = "length raw + length b \<le> MaxEntriesPerSegment \<and> on_write x = Written"
  note a = append_store_inv [OF assms(1-4) refl assms(5)]
  show ?thesis
  proof (cases ?p)
    case True
    then have "store_inv C hs (raw @ ?new) t st'" using a(1) by simp
    moreover have "write_outcome C (b, \<exists>out. r = Inr out) (stored C ?new)" by (auto simp: write_outcome_def written_as_def)
    ultimately show ?thesis using contents_append [of C hs raw ?new] by blast
  next
    case False
    then have "store_inv C hs raw t st'" "\<not> (\<exists>out. r = Inr out)" using a(1,2) by auto
    then show ?thesis by (intro exI [of _ raw] exI [of _ "[]"]) (simp add: write_outcome_def)
  qed
qed

lemma ingest_outcome:
  assumes Z: "zstd_lib (cz C)" and inv: "store_inv C hs raw t st" and clock: "t \<le> now 0" "now 0 \<le> now 1" "now 1 \<le> now 2" and x: "\<forall>i. truncates (x i)"
    and b: "bodies_small b" "b \<noteq> []" and i: "ingest_processed C x now b st = (r, st')"
  shows "\<exists>hs' raw' w. store_inv C hs' raw' (now 2) st' \<and> store_contents C hs' raw' = store_contents C hs raw @ w \<and> write_outcome C (b, \<exists>out. r = Inr out) w"
proof -
  have t: "SegmentHourFromTime t \<le> SegmentHourFromTime (now 2)" "SegmentHourFromTime (now 1) \<le> SegmentHourFromTime (now 2)"
    using clock by (intro sdiv_mono; simp)+
  obtain r0 st0 where a: "append_store C (x 0) (now 0) b st = (r0, st0)" by fastforce
  show ?thesis
  proof (cases "r0 = Inl ErrSegmentFull")
    case False
    then have "r = r0" "st' = st0" using i a b by (auto simp: ingest_processed_def)
    then show ?thesis using append_outcome [OF inv x [rule_format] b a] store_inv_time [OF _ t(1)] by blast
  next
    case True
    then have "store_inv C hs raw t st0" using append_store_inv(1,3) [OF inv x [rule_format] b refl a] by auto
    moreover obtain r1 st1 where s: "SealCurrentHour C (x 1) (now 1) st0 = (r1, st1)" by fastforce
    ultimately obtain hs1 where h: "r1 = Inr ()" "store_inv C hs1 [] (now 1) st1" "store_contents C hs1 [] = store_contents C hs raw"
      using seal_any_inv [OF Z _ _ s, of hs raw t] clock by auto
    then have a2: "append_store C (x 2) (now 2) b st1 = (r, st')" using i a b True s by (simp add: ingest_processed_def)
    show ?thesis using append_outcome [OF h(2) x [rule_format] b a2] store_inv_time [OF _ t(2)] h(3) by metis
  qed
qed

lemma store_run_inv:
  assumes Z: "zstd_lib (cz C)" and l: "lists_dirs listing" and "store_run C listing bs t st"
  shows "\<exists>hs raw ws. store_inv C hs raw t st \<and> store_contents C hs raw = concat ws \<and> list_all2 (write_outcome C) bs ws"
  using assms(3)
proof induction
  case (opened now st)
  then have "store_inv C [] [] now st" using open_empty [OF opened(1) l, of C] by auto
  then show ?case by (intro exI [of _ "[]"]) (simp add: store_contents_def stored_def)
next
  case (ingested bs t st now x processed r st')
  then obtain hs raw ws where h: "store_inv C hs raw t st" "store_contents C hs raw = concat ws" "list_all2 (write_outcome C) bs ws" by blast
  obtain hs' raw' w where w: "store_inv C hs' raw' (now 2) st'" "store_contents C hs' raw' = store_contents C hs raw @ w" "write_outcome C (processed, \<exists>out. r = Inr out) w"
    using ingest_outcome [OF Z h(1) ingested(2,3,4,5,7,6,8)] by blast
  then show ?case using h(2,3) by (intro exI [of _ hs'] exI [of _ raw'] exI [of _ "ws @ [w]"]) (simp add: list_all2_appendI)
next
  case (sealed_hour bs t st now x r st')
  then show ?case using seal_any_inv [OF Z _ sealed_hour(2,3)] by metis
next
  case (restarted bs t st now st')
  then obtain hs raw ws where h: "store_inv C hs raw t st" "store_contents C hs raw = concat ws" "list_all2 (write_outcome C) bs ws" by blast
  show ?case
  proof (cases "SegmentHourFromTime now \<le> segmentHour (writer st)")
    case True
    then show ?thesis using restart_same_hour [OF Z h(1) restarted(2) l True restarted(4)] restarted(3) h(2,3) by auto
  next
    case False
    then show ?thesis using restart_later_hour [OF Z h(1) restarted(2) l _ refl] restarted(3) h(2,3) contents_seal(2) by (metis not_le old.sum.inject(2))
  qed
qed

section \<open>Identifiers\<close>

lemma stored_numbered:
  assumes "ids_from h 0 raw" "length raw \<le> MaxEntriesPerSegment" "0 < h" "h < 2 ^ 32"
  shows "numbered (nat h) 0 (stored C raw)"
proof -
  have w: "(word_of_int h :: int64) = of_nat (nat h)" using assms(3) by (simp add: of_nat_nat)
  have "ID (stored C raw ! i) = of_nat (pos_nat (nat h) i)" if "i < length raw" for i
    using that assms(1,2) IDForPosition_of_nat [of i "nat h"] by (simp add: stored_def ids_from_def w wal_normal_def)
  then show ?thesis using assms(2-4) by (simp add: numbered_def stored_def nat_less_iff)
qed

lemma numbered_across:
  assumes "numbered h 0 xs" "numbered h' 0 ys" "h < h'" "a \<in> set xs" "b \<in> set ys"
  shows "ID a <s ID b"
proof -
  obtain i j where i: "i < length xs" "a = xs ! i" "j < length ys" "b = ys ! j" using assms(4,5) by (auto simp: in_set_conv_nth)
  have bd: "h < 2 ^ 32" "h' < 2 ^ 32" "i < MaxEntriesPerSegment" "j < MaxEntriesPerSegment" using assms(1,2) i by (auto simp: numbered_def)
  have "pos_nat h i < pos_nat h' j" by (rule pos_nat_hours [OF assms(3) bd(3)])
  then show ?thesis
    using int64_less [OF pos_nat_bound [OF bd(1,3)] pos_nat_bound [OF bd(2,4)]] numbered_id [OF assms(1) i(1)] numbered_id [OF assms(2) i(3)] i by simp
qed

lemma hours_ascending:
  "sorted_wrt (<) (map fst hs) \<Longrightarrow> \<forall>x \<in> set hs. 0 < fst x \<and> numbered (nat (fst x)) 0 (f x) \<Longrightarrow> ascending_ids (concat (map f hs))"
proof (induction hs)
  case (Cons x hs)
  have "ascending_ids (f x)" using Cons.prems(2) numbered_ascending by auto
  moreover have "ID a <s ID b" if ab: "a \<in> set (f x)" "b \<in> set (concat (map f hs))" for a b
  proof -
    obtain y where "y \<in> set hs" "b \<in> set (f y)" using ab(2) by auto
    then show ?thesis using Cons.prems ab(1) numbered_across [of "nat (fst x)" "f x" "nat (fst y)" "f y" a b] by auto
  qed
  ultimately show ?case using Cons by (simp add: ascending_ids_def sorted_wrt_append)
qed (simp add: ascending_ids_def)

lemma contents_ascending:
  assumes inv: "store_inv C hs raw t st" and b: "segmentHour (writer st) < 2 ^ 32"
  shows "ascending_ids (store_contents C hs raw)"
proof -
  note i = store_invD [OF inv]
  let ?hs = "hs @ [(segmentHour (writer st), raw)]"
  have "numbered (nat (segmentHour (writer st))) 0 (stored C raw)"
    using i(3,9) b by (intro stored_numbered) (simp_all add: writer_ok_def)
  moreover have "0 < h \<and> numbered (nat h) 0 (stored C es)" if "(h, es) \<in> set hs" for h es
    using i(5,6) [OF that] b stored_numbered [of h es C] by (simp add: hour_ok_def)
  ultimately have "\<forall>x \<in> set ?hs. 0 < fst x \<and> numbered (nat (fst x)) 0 ((\<lambda>(h, es). stored C es) x)" using i(3) by auto
  moreover have "sorted_wrt (<) (map fst ?hs)" using i(4,5) by (auto simp: sorted_wrt_append)
  ultimately have "ascending_ids (concat (map (\<lambda>(h, es). stored C es) ?hs))" by (intro hours_ascending)
  then show ?thesis by (simp add: store_contents_def)
qed

section \<open>Properties\<close>


text \<open>A listing, and a run with one batch.\<close>

definition list_all_dirs :: "datadir \<Rightarrow> int list" where
  "list_all_dirs ds = sorted_list_of_set {k. ds k \<noteq> (\<lambda>_. None)}"

lemma list_all_dirs_ok: "lists_dirs list_all_dirs"
  by (simp add: lists_dirs_def list_all_dirs_def)

definition plain_cfg :: store_cfg where
  "plain_cfg = \<lparr>cz = stored_zstd, cu = ascii_unicode, SealChunkEntries = 0, CompressBodies = True, segDirPath = (\<lambda>_. ''d''), segDirName = (\<lambda>_. ''n''), chunkFiles = 0\<rparr>"

definition all_works :: io where "all_works = \<lparr>on_write = Written, truncates = True, syncs = True\<rparr>"

lemma one_batch_run:
  "\<exists>st raw. store_run plain_cfg list_all_dirs [([zero_entry], True)] (11 * 3600 * 10 ^ 9) st \<and> segmentHour (writer st) = 11 \<and>
    store_inv plain_cfg [] raw (11 * 3600 * 10 ^ 9) st \<and> raw \<noteq> []"
proof -
  let ?t = "11 * 3600 * 10 ^ 9 :: go_time"
  have h: "SegmentHourFromTime ?t = 11" by (simp add: SegmentHourFromTime_def Unix_def signed_divide_int_def)
  obtain st where st: "NewStore plain_cfg ?t list_all_dirs (\<lambda>_ _. None) = Inr st" "store_inv plain_cfg [] [] ?t st"
    using open_empty [OF _ list_all_dirs_ok, of ?t plain_cfg] h by auto
  have hr: "segmentHour (writer st) = 11"
    using st(1) h by (auto simp: NewStore_def NewWALWriter_def freeSegmentHour_first IsSealComplete_def ensureWAL_def split: prod.splits)
  have small: "bodies_small [zero_entry]" by (simp add: bodies_small_def zero_entry_def MaxBlockBytes_def)
  obtain r st' where a: "append_store plain_cfg all_works ?t [zero_entry] st = (r, st')" by fastforce
  have x: "truncates all_works" by (simp add: all_works_def)
  note ap = append_store_inv [OF st(2) x small _ refl a]
  have "\<exists>out. r = Inr out" "segmentHour (writer st') = 11" using ap(2,4) hr by (simp_all add: all_works_def id_consts)
  moreover from this a have "ingest_processed plain_cfg (\<lambda>_. all_works) (\<lambda>_. ?t) [zero_entry] st = (r, st')" by (auto simp: ingest_processed_def)
  ultimately have "store_run plain_cfg list_all_dirs ([] @ [([zero_entry], \<exists>out. r = Inr out)]) ((\<lambda>_. ?t) 2) st'"
    using st(1) h x small by (intro store_run.ingested [where x = "\<lambda>_. all_works" and now = "\<lambda>_. ?t"] store_run.opened) auto
  moreover define new where "new = assign_ids (segmentHour (writer st)) (word_of_int (UnixMilli ?t)) (length ([] :: Entry list)) [zero_entry]"
  have "store_inv plain_cfg [] new ?t st'"
    using append_store_inv(1) [OF st(2) x small _ new_def a] by (simp add: all_works_def id_consts)
  moreover have "new \<noteq> []" by (simp add: new_def)
  ultimately show ?thesis using \<open>\<exists>out. r = Inr out\<close> \<open>segmentHour (writer st') = 11\<close> by auto
qed


end
