(* ===== verification/Store_Gaps.thy ===== *)
theory Store_Gaps
  imports Store_Log
begin

text \<open>
  Two places where the store falls short of its contract: the moment between the rotation of a log and its publication,
  in which queries see the hour in neither half of their view, and a start in the hour whose seal was interrupted.
\<close>

definition live_entries :: "store_cfg \<Rightarrow> Store \<Rightarrow> Entry list" where
  "live_entries C st = concat (map (log_entries (cz C) (sdirs st)) (live_logs st))"

section \<open>Between rotation and publication\<close>

lemma live_entries_log:
  assumes "zstd_lib (cz C)" "bodies_small raw" "ds h f = Some (Bytes (log_bytes (cz C) (CompressBodies C) raw))"
  shows "log_entries (cz C) ds (h, f) = stored C raw"
  using log_reads' [OF assms(1,2), of "CompressBodies C"] assms(3) by (simp add: log_entries_def stored_def)

section \<open>A start in the hour of an interrupted seal\<close>

definition rotated_dir :: "bytes \<Rightarrow> segdir" where
  "rotated_dir b = (\<lambda>_. None)(SealingWal \<mapsto> Bytes b)"

lemma recovered_rotated:
  assumes Z: "zstd_lib (cz C)" and raw: "bodies_small raw" "raw \<noteq> []" and h: "0 < h"
    and d: "d = (rotated_dir (log_bytes (cz C) (CompressBodies C) raw))(ActiveWal \<mapsto> Bytes b)"
  shows "sealed (cz C) (cu C) (SealChunkEntries C) h (stored C raw) (recovered C now h d)"
    "recovered C now h d SealingWal = None" "recovered C now h d ActiveWal = Some (Bytes b)"
proof -
  have c: "CleanIncompleteSeal (chunkFiles C) d = [Remove MetaFile, Remove MarkerFile]"
    by (simp add: CleanIncompleteSeal_def d rotated_dir_def filter_empty_conv)
  have cd: "do_ops [Remove MetaFile, Remove MarkerFile] d = d" by (auto simp: d rotated_dir_def fun_eq_iff)
  have m: "d MarkerFile = None" "d SealingWal = Some (Bytes (log_bytes (cz C) (CompressBodies C) raw))" by (simp_all add: d rotated_dir_def)
  obtain ops where o: "Seal (cz C) (cu C) (SealChunkEntries C) h d = (ops, Inr (Some (sealed_meta (SealChunkEntries C) h (map (wal_normal (cz C) (CompressBodies C)) raw))))"
    "sealed (cz C) (cu C) (SealChunkEntries C) h (map (wal_normal (cz C) (CompressBodies C)) raw) (do_ops ops d)"
    "do_ops ops d SealingWal = None" "do_ops ops d ActiveWal = d ActiveWal"
    using seal_log [OF Z raw m] by blast
  have "recovered C now h d = do_ops ops d"
    using m h o(1) cd by (simp add: recovered_def recoverDir_def IsSealComplete_def c)
  then show "sealed (cz C) (cu C) (SealChunkEntries C) h (stored C raw) (recovered C now h d)"
    "recovered C now h d SealingWal = None" "recovered C now h d ActiveWal = Some (Bytes b)"
    using o by (simp_all add: stored_def d)
qed

text \<open>The store opened in the hour of the interrupted seal: the segment is loaded, and the writer has an empty log in its directory.\<close>

lemma open_mid_seal:
  assumes Z: "zstd_lib (cz C)" and l: "lists_dirs listing" and raw: "bodies_small raw" "raw \<noteq> []" "ids_from h 0 raw" "length raw \<le> MaxEntriesPerSegment"
    and h: "0 < h" "SegmentHourFromTime now = h" and ds: "ds = (\<lambda>_ _. None)(h := rotated_dir (log_bytes (cz C) (CompressBodies C) raw))"
  obtains st where "NewStore C now listing ds = Inr st" "loaded st = [seg_of C (h, raw)]" "segmentHour (writer st) = h" "pendingSeals st = []"
    "writer_ok (cz C) (CompressBodies C) [] (writer st, sdirs st)" "hour_ok C (sdirs st) (h, raw)" "sdirs st h SealingWal = None"
    "\<And>k. k \<noteq> h \<Longrightarrow> sdirs st k = (\<lambda>_. None)"
proof -
  have free: "freeSegmentHour ds (SegmentHourFromTime now) = Inr h"
    unfolding h(2) by (rule freeSegmentHour_first) (simp add: ds IsSealComplete_def rotated_dir_def)
  obtain w ds1 where e: "ensureWAL (cz C) h (no_writer NewRingBuffer, ds) = (w, ds1)" by fastforce
  have fresh: "ds h ActiveWal = None" by (simp add: ds rotated_dir_def)
  note en = ensure_fresh(2) [where Z = "cz C" and hour = h and ds = ds and w = "no_writer NewRingBuffer" and c = "CompressBodies C", OF fresh, unfolded e]
    ensure_fresh(3,4) [where Z = "cz C" and hour = h and ds = ds and w = "no_writer NewRingBuffer", OF fresh, unfolded e fst_conv snd_conv]
  have d1: "ds1 h = (rotated_dir (log_bytes (cz C) (CompressBodies C) raw))(ActiveWal \<mapsto> Bytes [])" "\<And>k. k \<noteq> h \<Longrightarrow> ds1 k = (\<lambda>_. None)"
    using en(3) by (simp_all add: at_file_def ds)
  have fin: "finite {k. ds1 k \<noteq> (\<lambda>_. None)}" by (rule finite_subset [of _ "{h}"]) (use d1(2) in auto)
  have "ds1 h \<noteq> (\<lambda>_. None)" unfolding d1(1) by (auto simp: fun_eq_iff)
  then have inl: "h \<in> set (listing ds1)" using l fin by (auto simp: lists_dirs_def)
  define ds2 where "ds2 = (\<lambda>k. if k \<in> set (listing ds1) then recovered C now k (ds1 k) else ds1 k)"
  have rh: "ds2 h = recovered C now h (ds1 h)" using inl by (simp add: ds2_def)
  have ro: "ds2 k = (\<lambda>_. None)" if "k \<noteq> h" for k using d1(2) [OF that] recovered_empty by (simp add: ds2_def)
  note rc = recovered_rotated [OF Z raw(1,2) h(1) d1(1), of now, folded rh]
  have ok: "hour_ok C ds2 (h, raw)" using rc(1) raw h by (simp add: hour_ok_def)
  have "NewSegmentManager C now (listing ds1) ds1 = (map (seg_of C) [(h, raw)], ds2)"
  proof (rule manager_loads [OF l fin ds2_def])
    show "\<not> IsSealComplete (ds2 k)" if "k \<notin> fst ` set [(h, raw)]" for k using that ro [of k] by (simp add: IsSealComplete_def)
  qed (use ok \<open>ds1 h \<noteq> _\<close> in simp_all)
  note ns = NewStore_eq [where listing = listing, OF free e this]
  have "writer_ok (cz C) (CompressBodies C) [] (w, ds2)" using en(1,2) rc(3) by (simp add: writer_ok_def log_bytes_def)
  with ns rc(2) ok ro en(2) show thesis by (intro that [OF ns]) simp_all
qed

text \<open>Rotating into a complete segment's directory: the seal refuses, and the log stays behind, renamed.\<close>

lemma reseal_refused:
  assumes ok: "hour_ok C (sdirs st) (h, raw)" and w: "segmentHour (writer st) = h" "writer_ok (cz C) (CompressBodies C) new (writer st, sdirs st)" "new \<noteq> []"
    and p: "pendingSeals st = []" and em: "\<And>k. k \<noteq> h \<Longrightarrow> sdirs st k = (\<lambda>_. None)" and now: "SegmentHourFromTime now = h"
    and s: "SealCurrentHour C x now st = (r, st')"
  shows "\<exists>e. r = Inl e" "loaded st' = loaded st" "hour_ok C (sdirs st') (h, raw)" "sdirs st' (h + 1) = only_log []" "\<And>k. k \<noteq> h \<Longrightarrow> k \<noteq> h + 1 \<Longrightarrow> sdirs st' k = (\<lambda>_. None)"
proof -
  have cnt: "entryCount (writer st) \<noteq> 0" using w by (simp add: writer_ok_def)
  have free: "freeSegmentHour (sdirs st) (h + 1) = Inr (h + 1)" by (rule freeSegmentHour_first) (simp add: em IsSealComplete_def)
  let ?w = "flushBeforeHandoff x (writer st)" and ?ds = "(sdirs st)(h := do_op (Rename ActiveWal SealingWal) (sdirs st h))"
  have wh: "segmentHour ?w = h" using sync_ok(2) [OF w(2)] w(1) by (simp add: flushBeforeHandoff_def)
  have act: "sdirs st h ActiveWal \<noteq> None" using w by (simp add: writer_ok_def)
  obtain w2 ds2 where e: "ensureWAL (cz C) (h + 1) (?w, ?ds) = (w2, ds2)" by fastforce
  have rot: "Rotate (cz C) x now (writer st, sdirs st) = (Inr (h, entryCount (writer st)), w2, ds2)"
    using cnt free act e by (simp add: Rotate_def rotate_to_def w(1) now wh Let_def)
  have fresh: "?ds (h + 1) ActiveWal = None" by (simp add: em)
  note en = ensure_fresh(4) [where Z = "cz C" and hour = "h + 1" and ds = ?ds and w = ?w, OF fresh, unfolded e snd_conv]
  have d2: "ds2 h = ?ds h" "ds2 (h + 1) = only_log []" "\<And>k. k \<noteq> h \<Longrightarrow> k \<noteq> h + 1 \<Longrightarrow> ds2 k = (\<lambda>_. None)"
    unfolding en using em by (auto simp: at_file_def only_log_def)
  have sl: "sealed (cz C) (cu C) (SealChunkEntries C) h (stored C raw) (ds2 h)"
    using ok by (auto simp: d2(1) hour_ok_def sealed_def Let_def split: option.split)
  then have "IsSealComplete (ds2 h)" using sealed_meta_file by blast
  then have ref: "Seal (cz C) (cu C) (SealChunkEntries C) h (ds2 h) = ([], Inl (Errorf ''refusing to reseal %s: segment already sealed'' [D h]))"
    by (simp add: Seal_def)
  have "r = Inl (Wrapf ''seal'' [] (Errorf ''refusing to reseal %s: segment already sealed'' [D h]))" "loaded st' = loaded st" "sdirs st' = ds2(h := ds2 h)"
    using s cnt p rot ref by (auto simp: SealCurrentHour_def retryPendingSeals_def rotate_writer_def publish_def sealPending_def Let_def)
  then show "\<exists>e. r = Inl e" "loaded st' = loaded st" "hour_ok C (sdirs st') (h, raw)" "sdirs st' (h + 1) = only_log []"
    "\<And>k. k \<noteq> h \<Longrightarrow> k \<noteq> h + 1 \<Longrightarrow> sdirs st' k = (\<lambda>_. None)"
    using d2 sl ok by (auto simp: hour_ok_def)
qed

lemma reopen_forgets:
  assumes Z: "zstd_lib (cz C)" and l: "lists_dirs listing" and now: "SegmentHourFromTime now = h" and ok: "hour_ok C ds (h, raw)"
    and ds: "ds (h + 1) = only_log []" "\<And>k. k \<noteq> h \<Longrightarrow> k \<noteq> h + 1 \<Longrightarrow> ds k = (\<lambda>_. None)"
  shows "\<exists>st. NewStore C now listing ds = Inr st \<and> loaded st = [seg_of C (h, raw)] \<and> live_entries C st = []"
proof -
  note hs = hour_sealed [OF ok]
  have free: "freeSegmentHour ds (SegmentHourFromTime now) = Inr (h + 1)"
    unfolding now
  proof (rule freeSegmentHour_ok)
    show "\<forall>k. h \<le> k \<and> k < h + 1 \<longrightarrow> IsSealComplete (ds k)" using hs by (simp add: zle_add1_eq_le) (metis order_antisym)
    show "\<not> IsSealComplete (ds (h + 1))" by (simp add: ds IsSealComplete_def only_log_def)
  qed (simp_all add: maxSealedHourProbe_def)
  have act: "ds (h + 1) ActiveWal = Some (Bytes (log_bytes (cz C) (CompressBodies C) []))" by (simp add: ds only_log_def log_bytes_def)
  obtain w ds1 where e: "ensureWAL (cz C) (h + 1) (no_writer NewRingBuffer, ds) = (w, ds1)" by fastforce
  note en = ensure_existing(2,3) [where ds = ds and w = "no_writer NewRingBuffer" and raw = "[]", OF Z act, unfolded e fst_conv snd_conv]
  have w: "segmentHour w = h + 1" "ds1 = ds" using en by (simp_all add: bodies_small_def ids_from_def)
  have fin: "finite {k. ds k \<noteq> (\<lambda>_. None)}" by (rule finite_subset [of _ "{h, h + 1}"]) (use ds(2) in auto)
  have rec: "recovered C now k (ds k) = ds k" for k
  proof (cases "k = h \<or> k = h + 1")
    case True
    then show ?thesis using hs [of now] ds(1) recovered_live [of now "h + 1" C "[]"] now by auto
  next
    case False
    then show ?thesis using ds(2) recovered_empty by simp
  qed
  have "NewSegmentManager C now (listing ds) ds = (map (seg_of C) [(h, raw)], ds)"
  proof (rule manager_loads [OF l fin])
    show "ds = (\<lambda>k. if k \<in> set (listing ds) then recovered C now k (ds k) else ds k)" by (intro ext) (simp only: rec if_cancel)
    show "\<not> IsSealComplete (ds k)" if "k \<notin> fst ` set [(h, raw)]" for k
      using that ds by (cases "k = h + 1") (simp_all add: IsSealComplete_def only_log_def)
  qed (use ok hs [of now] in simp_all)
  note ns = NewStore_eq [where listing = listing, OF free e, unfolded w(2), OF this]
  have "log_entries (cz C) ds (h + 1, ActiveWal) = []" by (simp add: log_entries_def ds only_log_def ReadEntries_def ReadEntries_Nil)
  then show ?thesis using ns w(1) by (simp add: live_entries_def live_logs_def)
qed

lemma ids_from_hd: "ids_from h 0 es \<Longrightarrow> es \<noteq> [] \<Longrightarrow> ID (hd es) = IDForPosition (word_of_int h) 0"
  by (simp add: ids_from_def hd_conv_nth)

section \<open>Properties\<close>

text \<open>
  C35: a start in the hour of an interrupted seal loses later entries. A process stops after it has rotated the log of the
  current hour and before its seal has completed; the next start in the same hour opens the writer in that directory and
  then completes the segment there. A batch ingested now is returned to the caller, under the identifiers of entries already
  sealed. Its seal is refused, and after the next start no loaded segment and no live log has any entry of the batch.
\<close>

theorem restart_mid_seal_loses:
  assumes "zstd_lib (cz C)" and "lists_dirs listing" and "0 < h" and "SegmentHourFromTime now = h"
    and "bodies_small raw" and "raw \<noteq> []" and "ids_from h 0 raw" and "length raw \<le> MaxEntriesPerSegment"
    and "bodies_small b" and "b \<noteq> []" and "length b \<le> MaxEntriesPerSegment"
    and "ds = (\<lambda>_ _. None)(h := rotated_dir (log_bytes (cz C) (CompressBodies C) raw))"
  shows "\<exists>st out st1 new e st2 st3.
    NewStore C now listing ds = Inr st \<and> append_store C all_works now b st = (Inr out, st1) \<and>
    live_entries C st1 = stored C new \<and> written_as C b (stored C new) \<and> ID (hd (stored C new)) = ID (hd (stored C raw)) \<and>
    SealCurrentHour C all_works now st1 = (Inl e, st2) \<and> NewStore C now listing (sdirs st2) = Inr st3 \<and>
    loaded st3 = [seg_of C (h, raw)] \<and> live_entries C st3 = []"
proof -
  obtain st where st: "NewStore C now listing ds = Inr st" "segmentHour (writer st) = h" "pendingSeals st = []"
    "writer_ok (cz C) (CompressBodies C) [] (writer st, sdirs st)" "hour_ok C (sdirs st) (h, raw)" "\<And>k. k \<noteq> h \<Longrightarrow> sdirs st k = (\<lambda>_. None)"
    using open_mid_seal [OF assms(1,2,5-8,3,4,12)] by metis
  define new where "new = assign_ids (segmentHour (writer st)) (word_of_int (UnixMilli now)) (length ([] :: Entry list)) b"
  obtain r w d where a: "Append (cz C) (CompressBodies C) all_works now b (writer st, sdirs st) = (r, w, d)"
    by (cases "Append (cz C) (CompressBodies C) all_works now b (writer st, sdirs st)") auto
  define st1 where "st1 = st\<lparr>writer := w, sdirs := d\<rparr>"
  have x: "truncates all_works" "on_write all_works = Written" "syncs all_works" by (simp_all add: all_works_def)
  note ok = Append_ok [OF st(4) x(1) assms(9,10) new_def refl refl a]
  have t: "(length ([] :: Entry list) + length b \<le> MaxEntriesPerSegment \<and> on_write all_works = Written) = True" using x assms(11) by simp
  have wr: "writer_ok (cz C) (CompressBodies C) new (w, d)" "\<exists>out. r = Inr out"
    using ok [THEN conjunct1] ok [THEN conjunct2, THEN conjunct2, THEN conjunct1] x(3) unfolding t if_True append_Nil by blast+
  have fr: "segmentHour w = h" "\<And>k f. k \<noteq> h \<or> f \<noteq> ActiveWal \<Longrightarrow> d k f = sdirs st k f" using Append_frame [OF a] st(2) by (fastforce, fastforce)
  have ap: "append_store C all_works now b st = (r, st1)" by (simp add: append_store_def a st1_def)
  have nn: "new \<noteq> []" using assms(10) by (cases b) (simp_all add: new_def)
  have small: "bodies_small new" using wr(1) by (simp add: writer_ok_def)
  have "d h ActiveWal = Some (Bytes (log_bytes (cz C) (CompressBodies C) new))" using wr(1) fr(1) by (simp add: writer_ok_def)
  then have live: "live_entries C st1 = stored C new"
    using live_entries_log [OF assms(1) small, of d h ActiveWal] st(3) fr(1) by (simp add: live_entries_def live_logs_def st1_def)
  have "ID (hd (stored C new)) = ID (hd new)" "ID (hd (stored C raw)) = ID (hd raw)" using nn assms(6) by (simp_all add: stored_def hd_map wal_normal_def)
  moreover have "ID (hd new) = IDForPosition (word_of_int h) 0" "ID (hd raw) = IDForPosition (word_of_int h) 0"
    using ids_from_hd [OF _ nn] ids_from_hd [OF assms(7,6)] wr(1) fr(1) by (simp_all add: writer_ok_def)
  ultimately have ids: "ID (hd (stored C new)) = ID (hd (stored C raw))" by simp
  have hk: "hour_ok C (sdirs st1) (h, raw)" using st(5) fr(2) by (simp add: st1_def hour_ok_def sealed_def Let_def)
  have em: "sdirs st1 k = (\<lambda>_. None)" if "k \<noteq> h" for k using fr(2) [OF disjI1 [OF that]] st(6) [OF that] by (simp add: st1_def fun_eq_iff)
  obtain r2 st2 where s: "SealCurrentHour C all_works now st1 = (r2, st2)" by fastforce
  have w1: "segmentHour (writer st1) = h" "writer_ok (cz C) (CompressBodies C) new (writer st1, sdirs st1)" "pendingSeals st1 = []"
    using fr(1) wr(1) st(3) by (simp_all add: st1_def)
  note rf = reseal_refused [OF hk w1(1,2) nn w1(3) em assms(4) s]
  obtain st3 where st3: "NewStore C now listing (sdirs st2) = Inr st3" "loaded st3 = [seg_of C (h, raw)]" "live_entries C st3 = []"
    using reopen_forgets [OF assms(1,2,4) rf(3,4,5)] by blast
  obtain out e where "r = Inr out" "r2 = Inl e" using wr(2) rf(1) by blast
  moreover have "written_as C b (stored C new)" unfolding written_as_def new_def by blast
  ultimately show ?thesis using st(1) ap live ids s st3 by blast
qed

text \<open>
  C36: the hour being sealed is invisible for a moment. In every run of the store with entries in the live log, once
  \<open>SealCurrentHour\<close> has rotated the log and before it publishes the rotated file, a query takes a view without any entry of
  the hour: no loaded segment was added and the live logs are empty. Publishing brings all of them back.
\<close>

theorem seal_blackout:
  assumes "zstd_lib (cz C)" and "store_inv C hs raw t st" and "raw \<noteq> []" and "rotate_writer C x now st = (r, st1)"
  shows "live_entries C st = stored C raw \<and> loaded st1 = loaded st \<and> live_entries C st1 = [] \<and>
    live_entries C (publish (segmentHour (writer st)) st1) = stored C raw"
proof -
  define h where "h = segmentHour (writer st)"
  note i = store_invD [OF assms(2)]
  have small: "bodies_small raw" using i(9) by (simp add: writer_ok_def)
  obtain w ds where rot: "Rotate (cz C) x now (writer st, sdirs st) = (Inr (h, length raw), w, ds)"
    and w: "segmentHour w = max (SegmentHourFromTime now) (h + 1)" and d: "ds (segmentHour w) = only_log []"
      "ds h = (\<lambda>_. None)(SealingWal \<mapsto> Bytes (log_bytes (cz C) (CompressBodies C) raw))"
    using rotate_inv [OF assms(2,3) h_def refl, where now = now and x = x] by metis
  have st1: "st1 = st\<lparr>writer := w, sdirs := ds\<rparr>" using assms(4) rot by (simp add: rotate_writer_def)
  have e: "log_entries (cz C) ds (segmentHour w, ActiveWal) = []"
    using d(1) by (simp add: log_entries_def only_log_def ReadEntries_def ReadEntries_Nil)
  have s: "log_entries (cz C) ds (h, SealingWal) = stored C raw" by (rule live_entries_log [OF assms(1) small]) (simp add: d(2))
  have "live_entries C st = stored C raw"
    using live_entries_log [OF assms(1) small, of "sdirs st" "segmentHour (writer st)" ActiveWal] i(2,8)
    by (simp add: live_entries_def live_logs_def only_log_def)
  then show ?thesis using i(2) e s by (simp add: st1 live_entries_def live_logs_def publish_def h_def)
qed

theorem seal_blackout_witness:
  "\<exists>st r st1 raw. store_run plain_cfg list_all_dirs [([zero_entry], True)] (11 * 3600 * 10 ^ 9) st \<and> raw \<noteq> [] \<and>
     rotate_writer plain_cfg all_works 0 st = (r, st1) \<and> live_entries plain_cfg st = stored plain_cfg raw \<and> live_entries plain_cfg st1 = []"
proof -
  obtain st raw where st: "store_run plain_cfg list_all_dirs [([zero_entry], True)] (11 * 3600 * 10 ^ 9) st"
    "store_inv plain_cfg [] raw (11 * 3600 * 10 ^ 9) st" "raw \<noteq> []"
    using one_batch_run by blast
  obtain r st1 where r: "rotate_writer plain_cfg all_works 0 st = (r, st1)" by fastforce
  have z: "zstd_lib (cz plain_cfg)" using stored_zstd_lib by (simp add: plain_cfg_def)
  show ?thesis using seal_blackout [OF z st(2,3) r] st(1,3) r by blast
qed

theorem restart_mid_seal_loses_witness:
  "let e = zero_entry\<lparr>ID := IDForPosition 11 0\<rparr>;
       ds = (\<lambda>_ _. None)(11 := rotated_dir (log_bytes stored_zstd (CompressBodies plain_cfg) [e]))
   in \<exists>st out st1 new err st2 st3. NewStore plain_cfg (11 * 3600 * 10 ^ 9) list_all_dirs ds = Inr st \<and>
     append_store plain_cfg all_works (11 * 3600 * 10 ^ 9) [zero_entry] st = (Inr out, st1) \<and>
     live_entries plain_cfg st1 = stored plain_cfg new \<and>
     SealCurrentHour plain_cfg all_works (11 * 3600 * 10 ^ 9) st1 = (Inl err, st2) \<and>
     NewStore plain_cfg (11 * 3600 * 10 ^ 9) list_all_dirs (sdirs st2) = Inr st3 \<and>
     loaded st3 = [seg_of plain_cfg (11, [e])] \<and> live_entries plain_cfg st3 = []"
proof -
  define e where "e = zero_entry\<lparr>ID := IDForPosition 11 0\<rparr>"
  have z: "cz plain_cfg = stored_zstd" "zstd_lib (cz plain_cfg)" using stored_zstd_lib by (simp_all add: plain_cfg_def)
  have h: "0 < (11 :: int)" "SegmentHourFromTime (11 * 3600 * 10 ^ 9) = 11" by (simp_all add: SegmentHourFromTime_def Unix_def signed_divide_int_def)
  have e: "bodies_small [e]" "[e] \<noteq> []" "ids_from 11 0 [e]" "length [e] \<le> MaxEntriesPerSegment"
    by (simp_all add: e_def bodies_small_def zero_entry_def MaxBlockBytes_def ids_from_def id_consts)
  have b: "bodies_small [zero_entry]" "[zero_entry] \<noteq> []" "length [zero_entry] \<le> MaxEntriesPerSegment"
    by (simp_all add: bodies_small_def zero_entry_def MaxBlockBytes_def id_consts)
  show ?thesis using restart_mid_seal_loses [OF z(2) list_all_dirs_ok h e b refl] unfolding z(1) e_def Let_def by blast
qed

end
