(* ===== verification/Spec2Isabelle.thy ===== *)
theory Spec2Isabelle
  imports Index_Cache Chunk_Row Ids Ring Wal_Cache Top_Heap Search_Gaps Histograms Group_Commit Store_Gaps
begin

text \<open>
  A verification development for opentrace, a self-hosted observability server written in Go
  (module \<open>github.com/adham90/opentrace\<close>, sources under \<open>src/\<close>).

  \<^bold>\<open>The program.\<close> opentrace receives log entries over HTTP, keeps them in its own log store, and answers queries
  from a command line, an HTTP interface and a tool server for language models. The log store
  (\<open>src/internal/logstore\<close>) carries the guarantees the rest relies on, and is the core of this development. An entry takes
  the following path. \<open>engine/writer.go\<close> appends a batch to the write-ahead log of the current hour (records of
  \<open>wal/binary.go\<close>), syncs it together with the batches of other callers, and pushes it to the ring of the live tail
  (\<open>engine/ring.go\<close>). When the hour is over or full, \<open>engine/store.go\<close> rotates the log and \<open>engine/seal.go\<close> turns it into a
  segment: chunk files of 47 encoded columns (\<open>chunk/\<close>, \<open>encoding/\<close>), an inverted index per chunk (\<open>index/\<close>), and
  metadata. \<open>engine/segment.go\<close> lists the segments, finishes interrupted seals at start and removes old segments. Queries
  (\<open>engine/query.go\<close>, \<open>engine/store.go\<close>) combine segments and live logs, through caches of parsed logs, decoded columns and
  indexes.

  \<^bold>\<open>Conventions.\<close> \<open>Prelude\<close>: machine integers are words of their width, lengths and positions natural numbers, a
  Go string is a HOL \<open>string\<close> (its bytes), a fallible function returns \<open>err + 'a\<close>, and an index or slice expression out of
  range is the error \<open>Panic\<close>. \<open>Go_Binary\<close> and \<open>Go_Strings\<close> write out what the sources use of \<open>encoding/binary\<close>, \<open>strings\<close>
  and \<open>unicode/utf8\<close>. Times are nanoseconds since the epoch; the clock, the directory listing and the answers of the file system
  are arguments. Third-party code is a parameter: the zstd codec (law \<open>zstd_lib\<close>), the Unicode tables and the
  JSON decoder. Each law has an instance, which the witnesses use.

  \<^bold>\<open>Theories, bottom up.\<close>
  \<^item> \<open>Strlen\<close>, \<open>Delta\<close>, \<open>Zstd\<close>, \<open>Bitpack\<close>, \<open>Dictionary\<close>, \<open>Sparse\<close> (\<open>encoding/*.go\<close>): the column codecs,
    with round trips and freedom from panics on arbitrary data. The locale \<open>offset_codec\<close> is the interface of every byte format.
  \<^item> \<open>Entry\<close> (\<open>chunk/schema.go\<close>), \<open>Wal\<close>, \<open>Scanner\<close> (\<open>wal/*.go\<close>): the entry, its record, and reading a log
    with a torn tail or from an offset. A log reads back as the normal forms of its entries (\<open>wal_normal\<close>).
  \<^item> \<open>Chunk_Writer\<close>, \<open>Chunk_Columns\<close>, \<open>Chunk_Reader\<close> (\<open>chunk/writer.go\<close>, \<open>chunk/reader.go\<close>): the chunk file and each
    of its columns; \<open>Chunk_Row\<close> (\<open>engine/chunkrow.go\<close>, \<open>store.go\<close>) reads a row back into an entry.
  \<^item> \<open>Tokenizer\<close>, \<open>Index\<close>, \<open>Index_Cache\<close> (\<open>index/*.go\<close>): the inverted index finds exactly the rows with all tokens of a
    query.
  \<^item> \<open>Lru\<close> (\<open>engine/colcache.go\<close>, \<open>chunkcols.go\<close>), \<open>Wal_Cache\<close> (\<open>engine/walcache.go\<close>): the caches are transparent and
    stay within their budgets.
  \<^item> \<open>Ids\<close> (\<open>engine/id.go\<close>), \<open>Ring\<close> (\<open>engine/ring.go\<close>), \<open>Top_Heap\<close> (the bounded selection heaps of \<open>store.go\<close>, with
    \<open>container/heap\<close> and \<open>sort.Slice\<close> written out).
  \<^item> \<open>Query\<close> (predicates of \<open>engine/query.go\<close>), \<open>Search\<close>, \<open>Search_Page\<close>, \<open>Lookup\<close>, \<open>Aggregates\<close>, \<open>Histograms\<close>
    (\<open>engine/store.go\<close>): each query equals its definition on the list of stored entries. \<open>Search_Gaps\<close>: the cases in
    which a page is wrong.
  \<^item> \<open>Seal\<close> (\<open>engine/seal.go\<close>) as the sequence of its file operations; \<open>Recovery\<close>, \<open>Segments\<close> (\<open>engine/segment.go\<close>):
    the segment list, and that any number of crashes while sealing leaves a complete segment after the next start.
  \<^item> \<open>Writer\<close> (\<open>engine/writer.go\<close>): append with rollback under any answers of the file system, rotation, opening.
    \<open>Group_Commit\<close>: its critical sections as the step relation \<open>commit_step\<close>, so that durability and progress hold for every
    interleaving.
  \<^item> \<open>Store\<close>, \<open>Store_Log\<close> (\<open>engine/store.go\<close>): opening, ingest, sealing, retry; \<open>store_run\<close> is a run of the process with restarts,
    and the store refines the list of accepted batches. \<open>Store_Gaps\<close>: two situations in which it does not.

  \<^bold>\<open>Bounds and termination.\<close> There is no fuel: every loop is structural or has a termination proof. The probe of
  \<open>freeSegmentHour\<close> ends after \<open>maxSealedHourProbe\<close> hours, as in the code. Sizes that the code bounds (block and field limits,
  entries per segment, chunk rows) are its constants and appear as hypotheses where a format depends on them.

  \<^bold>\<open>Not modelled.\<close> Metrics and process logs; goroutine scheduling beyond the two step relations (a parallel search
  writes disjoint result slots, so it is modelled in sequence); coalescing of concurrent cache loads; the calendar text of segment
  directories, which are identified by their hour; the JSON text of segment metadata; failures to create directories or to open
  files for writing. Of the rest of the program: the SQLite adapters, the database connectors, the HTTP and
  tool-server layers, notification, and the command line are calls of external services and drivers around plain data
  structures; they have no entry in the model.
\<close>

section \<open>Decoders on arbitrary data\<close>

text \<open>C28: No decoder of the log store panics, whatever bytes it is given: the record parser, every
  column decoder, and the readers of chunk and index files return a value or an error, for any codec, count and length format.\<close>

theorem decoders_never_panic:
  "UnmarshalEntry Z data \<noteq> Inl Panic \<and> DeltaDecode Z data n \<noteq> Inl Panic \<and> BitpackDecode data \<noteq> Inl Panic \<and>
   DictUnmarshal Z data n f \<noteq> Inl Panic \<and> UnsparseStrings Z data n f \<noteq> Inl Panic \<and>
   UnsparseInt64 Z data n \<noteq> Inl Panic \<and> UnsparseBool data n \<noteq> Inl Panic \<and> UnsparseBytes Z data n \<noteq> Inl Panic \<and>
   ZstdBlockDecodeStrings Z data n f \<noteq> Inl Panic \<and> ZstdBlockDecodeInt64 Z data n \<noteq> Inl Panic \<and>
   OpenReader data \<noteq> Inl Panic \<and> ReadColumn Z r name \<noteq> Inl Panic \<and> OpenIndex data \<noteq> Inl Panic"
  by (intro conjI no_panic open_no_panic ReadColumn_no_panic open_index_no_panic)

section \<open>Column codecs\<close>

text \<open>C30: every column codec gives back what it was given, under the bounds its format and the decoder's block limit set: delta
  coding for all 64-bit values, bit packing for every width up to 8, dictionaries, sparse strings with empty ones, sparse integers and
  booleans with absent ones, and length-prefixed strings at any position, short ones also under the legacy length format.\<close>

theorem column_codecs_roundtrip:
  assumes "zstd_lib Z"
  shows "(\<forall>vs. vs \<noteq> [] \<and> 10 * int (length vs) \<le> MaxBlockBytes \<longrightarrow> DeltaDecode Z (DeltaEncode Z vs) (length vs) = Inr vs) \<and>
    (\<forall>b vs. 1 \<le> b \<and> b \<le> 8 \<and> length vs < 2 ^ 32 \<and> (\<forall>v \<in> set vs. unat v < 2 ^ b) \<longrightarrow> rbind (BitpackEncode vs b) BitpackDecode = Inr vs) \<and>
    (\<forall>d. length (Dict d) \<le> MaxDictEntries \<and> (\<forall>s \<in> set (Dict d). length s \<le> MaxValueBytes) \<and> length (dict_buf (Dict d)) < 2 ^ 32 \<and>
       2 * int (length (Indices d)) \<le> MaxBlockBytes \<longrightarrow> DictUnmarshal Z (DictMarshal Z d) (length (Indices d)) LenExtended = Inr d) \<and>
    (\<forall>vs. length vs < 2 ^ 32 \<and> (\<forall>v \<in> set vs. int (length v) \<le> MaxColumnValueBytes) \<and>
       int (length (concat (map (\<lambda>v. if v = [] then [] else AppendLenString [] v) vs))) \<le> MaxBlockBytes \<longrightarrow>
       rbind (SparseStrings Z vs) (\<lambda>d. UnsparseStrings Z d (length vs) LenExtended) = Inr vs) \<and>
    (\<forall>is bs. length is < 2 ^ 32 \<and> 10 * int (length is) \<le> MaxBlockBytes \<and> length bs < 2 ^ 32 \<longrightarrow>
       rbind (SparseInt64 Z is) (\<lambda>d. UnsparseInt64 Z d (length is)) = Inr is \<and> rbind (SparseBool bs) (\<lambda>d. UnsparseBool d (length bs)) = Inr bs) \<and>
    (\<forall>s f p q. length s \<le> MaxValueBytes \<and> (f = LenExtended \<or> length s \<le> maxUint16Len) \<longrightarrow>
       ReadString f (p @ AppendLenString [] s @ q) (length p) = Inr (s, length p + length (AppendLenString [] s)))"
proof (intro conjI allI impI; elim conjE)
qed (rule delta_roundtrip bitpack_roundtrip dict_marshal_roundtrip sparse_strings_roundtrip
    sparse_values_roundtrip [THEN conjunct1] sparse_values_roundtrip [THEN conjunct2] strlen_roundtrip; (rule assms | assumption))+

theorem column_codecs_roundtrip_witness:
  "DeltaDecode stored_zstd (DeltaEncode stored_zstd [5, - 3]) 2 = Inr [5, - 3] \<and> rbind (BitpackEncode [5, 0, 7, 2] 3) BitpackDecode = Inr [5, 0, 7, 2] \<and>
   DictUnmarshal stored_zstd (DictMarshal stored_zstd \<lparr>Dict = [[], ''web''], Indices = [1, 0]\<rparr>) 2 LenExtended = Inr \<lparr>Dict = [[], ''web''], Indices = [1, 0]\<rparr> \<and>
   rbind (SparseStrings stored_zstd [''t1'', []]) (\<lambda>d. UnsparseStrings stored_zstd d 2 LenExtended) = Inr [''t1'', []] \<and>
   rbind (SparseInt64 stored_zstd [None, Some (- 1)]) (\<lambda>d. UnsparseInt64 stored_zstd d 2) = Inr [None, Some (- 1)] \<and>
   rbind (SparseBool [None, Some True]) (\<lambda>d. UnsparseBool d 2) = Inr [None, Some True] \<and>
   ReadString LenUint16 ([7] @ AppendLenString [] ''abc'' @ [9]) 1 = Inr (''abc'', 6)"
proof -
  note r = column_codecs_roundtrip [OF stored_zstd_lib]
  have two: "length [x, y] = 2" for x y :: 'a by simp
  have "DeltaDecode stored_zstd (DeltaEncode stored_zstd [5, - 3]) 2 = Inr [5, - 3]"
    using r [THEN conjunct1, rule_format, of "[5, - 3]"] unfolding two by (simp add: zstd_consts)
  moreover have "rbind (BitpackEncode [5, 0, 7, 2] 3) BitpackDecode = Inr [5, 0, 7, 2]"
    by (rule r [THEN conjunct2, THEN conjunct1, rule_format]) simp
  moreover have "DictUnmarshal stored_zstd (DictMarshal stored_zstd \<lparr>Dict = [[], ''web''], Indices = [1, 0]\<rparr>) 2 LenExtended = Inr \<lparr>Dict = [[], ''web''], Indices = [1, 0]\<rparr>"
    using r [THEN conjunct2, THEN conjunct2, THEN conjunct1, rule_format, of "\<lparr>Dict = [[], ''web''], Indices = [1, 0]\<rparr>"] unfolding DictEncoded.select_convs two
    by (simp add: MaxDictEntries_def MaxBlockBytes_def MaxValueBytes_def dict_buf_def length_AppendLenString strlen_consts)
  moreover have "rbind (SparseStrings stored_zstd [''t1'', []]) (\<lambda>d. UnsparseStrings stored_zstd d 2 LenExtended) = Inr [''t1'', []]"
    using r [THEN conjunct2, THEN conjunct2, THEN conjunct2, THEN conjunct1, rule_format, of "[''t1'', []]"] unfolding two
    by (simp add: zstd_consts length_AppendLenString strlen_consts)
  moreover have "rbind (SparseInt64 stored_zstd [None, Some (- 1)]) (\<lambda>d. UnsparseInt64 stored_zstd d 2) = Inr [None, Some (- 1)] \<and>
      rbind (SparseBool [None, Some True]) (\<lambda>d. UnsparseBool d 2) = Inr [None, Some True]"
    using r [THEN conjunct2, THEN conjunct2, THEN conjunct2, THEN conjunct2, THEN conjunct1, rule_format, of "[None, Some (- 1)]" "[None, Some True]"]
    unfolding two by (simp add: zstd_consts)
  moreover have "ReadString LenUint16 ([7] @ AppendLenString [] ''abc'' @ [9]) 1 = Inr (''abc'', 6)"
    using r [THEN conjunct2, THEN conjunct2, THEN conjunct2, THEN conjunct2, THEN conjunct2, rule_format, of "''abc''" LenUint16 "[7]" "[9]"]
    by (simp add: strlen_consts length_AppendLenString)
  ultimately show ?thesis by blast
qed

end
